(* ===== verification/SP_Prelude.thy ===== *)
theory SP_Prelude
  imports Main "HOL-Library.Word" "HOL-Library.Monad_Syntax"
begin

text \<open>
  Shared vocabulary of the development: the machine types of the C++ code, the
  checked model of \<open>memcpy\<close>, cyclic slices of a list (the abstraction of every circular
  buffer of the library), and the rules that move 32-bit arithmetic to natural numbers.
  A result \<^term>\<open>None\<close> of an operation always stands for undefined behaviour of the C++
  code (an access outside an object, a division by zero, a read of a dead object);
  the safety theorems show where it cannot occur.
\<close>

unbundle bit_operations_syntax

type_synonym byte = "8 word"
type_synonym u16 = "16 word"
type_synonym u32 = "32 word"
type_synonym u64 = "64 word"

text \<open>Addresses are natural numbers, \<open>0\<close> is the null pointer.\<close>

type_synonym addr = nat

abbreviation (input) null :: addr where "null \<equiv> 0"

named_theorems u32_simps \<open>rules that turn 32-bit comparisons and arithmetic into natural numbers\<close>
named_theorems ring_simps \<open>rules on cyclic slices and block copies\<close>

section \<open>Machine integers\<close>

text \<open>The value of a C \<open>int\<close> after conversion from a wider integer (two's complement).\<close>

definition to_int32 :: "int \<Rightarrow> int" where
  "to_int32 x = sint (word_of_int x :: u32)"

text \<open>The value of a C \<open>size_t\<close> converted from a signed integer.\<close>

definition to_size_t :: "int \<Rightarrow> nat" where
  "to_size_t x = unat (word_of_int x :: u64)"

declare word_less_nat_alt [u32_simps] word_le_nat_alt [u32_simps] unat_mod [u32_simps]

lemma unat_add_small [u32_simps]:
  fixes a b :: u32
  assumes "unat a + unat b < 2 ^ 32"
  shows "unat (a + b) = unat a + unat b"
  using assms by (simp add: unat_word_ariths)

lemma unat_diff_small [u32_simps]:
  fixes a b :: u32
  assumes "unat b \<le> unat a"
  shows "unat (a - b) = unat a - unat b"
  using assms by (simp add: unat_sub word_le_nat_alt)

lemma unat_less_u32 [simp]: "unat (a :: u32) < 4294967296"
  using unsigned_less [of a] by simp

lemma le_unat_u32: "n \<le> unat (a :: u32) \<Longrightarrow> n < 2 ^ 32"
  using le_less_trans [OF _ unat_less_u32] by simp

lemma unat_eq_u32: "unat (a :: u32) = unat b \<Longrightarrow> a = b"
  by (rule unsigned_word_eqI)

lemma unat_of_nat_u32 [u32_simps]: "n < 2 ^ 32 \<Longrightarrow> unat (of_nat n :: u32) = n"
  by (simp add: unat_of_nat)

lemma unat_min_u32 [u32_simps]: "unat (min (a :: u32) b) = min (unat a) (unat b)"
  by (simp add: min_def word_le_nat_alt)

lemma unat_cond_min [simp]: "unat (if (a :: u32) > b then b else a) = min (unat a) (unat b)"
  by (simp add: word_less_nat_alt min_def)

lemma u32_of_unat: "unat (a :: u32) = n \<Longrightarrow> a = of_nat n"
  by auto

lemma unat_and_not_63: "unat ((x :: u32) AND NOT 63) = unat x div 64 * 64"
proof -
  have "push_bit 6 (take_bit 26 (drop_bit 6 x)) = x AND mask 32 AND NOT (mask 6)"
    using slice_eq_mask [of 6 26 x] by simp
  moreover have "mask 32 = (- 1 :: u32)" "mask 6 = (63 :: u32)" by (simp_all add: mask_eq_exp_minus_1)
  ultimately have "x AND NOT 63 = push_bit 6 (take_bit 26 (drop_bit 6 x))" by simp
  moreover have d: "unat (drop_bit 6 x) = unat x div 64" by (simp add: drop_bit_eq_div unat_div)
  moreover have l: "unat x div 64 * 64 < 4294967296" by (rule le_less_trans [OF _ unat_less_u32 [of x]]) simp
  moreover from d l have "unat (take_bit 26 (drop_bit 6 x)) = unat x div 64"
    by (simp add: unsigned_take_bit_eq take_bit_nat_def)
  ultimately show ?thesis by (simp add: unat_word_ariths push_bit_eq_mult)
qed

lemma u32_eq_0_iff: "(a :: u32) = 0 \<longleftrightarrow> unat a = 0"
  by (simp add: unat_eq_0)

lemma to_int32_id:
  assumes "- (2 ^ 31) \<le> x" "x < 2 ^ 31"
  shows "to_int32 x = x"
  using assms by (simp add: to_int32_def signed_of_int signed_take_bit_int_eq_self)

lemma to_size_t_id:
  assumes "0 \<le> x" "x < 2 ^ 64"
  shows "to_size_t x = nat x"
  using assms by (simp add: to_size_t_def unsigned_of_int take_bit_int_eq_self)

section \<open>Block copies\<close>

definition blit :: "nat \<Rightarrow> 'a list \<Rightarrow> 'a list \<Rightarrow> 'a list" where
  "blit off xs ys = take off ys @ xs @ drop (off + length xs) ys"

text \<open>
  \<open>memcpy(dst + doff, src + soff, n)\<close> between two objects given by their bytes:
  undefined unless both ranges lie inside their objects.
\<close>

definition memcpy :: "'a list \<Rightarrow> nat \<Rightarrow> 'a list \<Rightarrow> nat \<Rightarrow> nat \<Rightarrow> 'a list option" where
  "memcpy dst doff src soff n =
     (if doff + n \<le> length dst \<and> soff + n \<le> length src
      then Some (blit doff (take n (drop soff src)) dst) else None)"

lemma length_blit [simp]: "off + length xs \<le> length ys \<Longrightarrow> length (blit off xs ys) = length ys"
  by (simp add: blit_def)

lemma nth_blit:
  assumes "off + length xs \<le> length ys" "i < length ys"
  shows "blit off xs ys ! i = (if off \<le> i \<and> i < off + length xs then xs ! (i - off) else ys ! i)"
  using assms by (auto simp: blit_def nth_append)

lemma blit_Nil [simp]: "blit off [] ys = ys"
  by (simp add: blit_def)

lemma take_blit_0 [ring_simps]: "take (length xs) (blit 0 xs ys) = xs"
  by (simp add: blit_def)

lemma blit_blit_adjacent:
  assumes "off + length xs + length zs \<le> length ys"
  shows "blit (off + length xs) zs (blit off xs ys) = blit off (xs @ zs) ys"
  using assms by (cases xs) (auto simp: blit_def min_def ac_simps)

section \<open>Cyclic slices\<close>

definition ring_slice :: "'a list \<Rightarrow> nat \<Rightarrow> nat \<Rightarrow> 'a list" where
  "ring_slice d s n = map (\<lambda>i. d ! ((s + i) mod length d)) [0..<n]"

lemma length_ring_slice [simp]: "length (ring_slice d s n) = n"
  by (simp add: ring_slice_def)

lemma nth_ring_slice: "i < n \<Longrightarrow> ring_slice d s n ! i = d ! ((s + i) mod length d)"
  by (simp add: ring_slice_def)

lemma ring_slice_0 [simp]: "ring_slice d s 0 = []"
  by (simp add: ring_slice_def)

lemma ring_slice_mod [simp]: "ring_slice d (s mod length d) n = ring_slice d s n"
  by (simp add: ring_slice_def mod_add_left_eq)

lemma ring_slice_add: "ring_slice d s (m + n) = ring_slice d s m @ ring_slice d (s + m) n"
  by (rule nth_equalityI) (auto simp: nth_ring_slice nth_append add.assoc)

lemma take_ring_slice: "m \<le> n \<Longrightarrow> take m (ring_slice d s n) = ring_slice d s m"
  using ring_slice_add [of d s m "n - m"] by simp

lemma drop_ring_slice: "m \<le> n \<Longrightarrow> drop m (ring_slice d s n) = ring_slice d (s + m) (n - m)"
  using ring_slice_add [of d s m "n - m"] by simp

lemma ring_slice_linear:
  assumes "s + n \<le> length d"
  shows "ring_slice d s n = take n (drop s d)"
  by (rule nth_equalityI) (use assms in \<open>auto simp: nth_ring_slice\<close>)

lemma ring_slice_wrap:
  assumes "s \<le> length d" "length d \<le> s + n" "s + n \<le> 2 * length d"
  shows "ring_slice d s n = drop s d @ take (n - (length d - s)) d"
proof -
  let ?k = "length d - s"
  have "ring_slice d s n = ring_slice d s ?k @ ring_slice d (s + ?k) (n - ?k)"
    using ring_slice_add [of d s ?k "n - ?k"] assms by simp
  moreover have "ring_slice d s ?k = drop s d"
    using assms by (simp add: ring_slice_linear)
  moreover have "ring_slice d (s + ?k) (n - ?k) = take (n - ?k) d"
    using assms ring_slice_mod [of d "length d" "n - ?k"] by (simp add: ring_slice_linear)
  ultimately show ?thesis by simp
qed

lemma ring_slice_cong:
  assumes "length d' = length d"
    and "\<And>i. i < n \<Longrightarrow> d' ! ((s + i) mod length d) = d ! ((s + i) mod length d)"
  shows "ring_slice d' s n = ring_slice d s n"
  using assms by (simp add: ring_slice_def)

lemma ring_slice_map:
  assumes "0 < length d"
  shows "ring_slice (map f d) s n = map f (ring_slice d s n)"
  using assms by (simp add: ring_slice_def)

section \<open>Cyclic writes\<close>

definition ring_write :: "'a list \<Rightarrow> nat \<Rightarrow> 'a list \<Rightarrow> 'a list" where
  "ring_write d f xs =
     (if f + length xs \<le> length d then blit f xs d
      else blit 0 (drop (length d - f) xs) (blit f (take (length d - f) xs) d))"

lemma length_ring_write [simp]:
  "f < length d \<Longrightarrow> length xs \<le> length d \<Longrightarrow> length (ring_write d f xs) = length d"
  by (simp add: ring_write_def)

lemma mod_once: "(f :: nat) < L \<Longrightarrow> i < L \<Longrightarrow> (f + i) mod L = (if f + i < L then f + i else f + i - L)"
  by (simp add: mod_if [of "f + i" L])

lemma nth_ring_write:
  assumes "f < length d" "length xs \<le> length d" "i < length d"
  shows "ring_write d f xs ! ((f + i) mod length d) =
    (if i < length xs then xs ! i else d ! ((f + i) mod length d))"
  using assms by (auto simp: ring_write_def mod_once nth_blit)

lemma ring_slice_written:
  assumes "f < length d" "length xs \<le> length d"
  shows "ring_slice (ring_write d f xs) f (length xs) = xs"
  using assms by (intro nth_equalityI) (auto simp: nth_ring_slice nth_ring_write)

text \<open>A cyclic write does not touch the cyclic range that ends where it starts.\<close>

lemma ring_slice_before:
  assumes "s < length d" "f = (s + n) mod length d" "n + length xs \<le> length d"
  shows "ring_slice (ring_write d f xs) s n = ring_slice d s n"
proof (intro ring_slice_cong)
  have f: "f < length d" using assms(1) unfolding assms(2) by (intro mod_less_divisor) linarith
  then show "length (ring_write d f xs) = length d" using assms(3) by simp
  fix i assume i: "i < n"
  let ?j = "length d - n + i"
  have "(f + ?j) mod length d = (s + n + ?j) mod length d" by (simp add: assms(2) mod_add_left_eq)
  also have "s + n + ?j = s + i + length d" using assms(3) by simp
  finally have j: "(f + ?j) mod length d = (s + i) mod length d" by simp
  have "length xs \<le> length d" "?j < length d" "\<not> ?j < length xs" using assms(3) i by linarith+
  with nth_ring_write [of f d xs ?j] f j
  show "ring_write d f xs ! ((s + i) mod length d) = d ! ((s + i) mod length d)"
    by (simp only: j if_False)
qed

end
