(* ===== verification/SP_Types.thy ===== *)
theory SP_Types
  imports Complex_Main SP_Prelude
begin

text \<open>
  The data of \<open>SPTypes.h\<close>: enumerations, configuration structures, watermarks and
  I/O thread information, the global variables of namespace \<open>DEFER\<close>, the validation that
  \<open>SPSockTcp::Config\<close> and \<open>SPSockUdp::Config\<close> perform with \<open>assert\<close>, and the
  level filter of \<open>SPLog.hpp\<close>. A failing \<open>assert\<close> aborts the process and is the result
  \<^term>\<open>None\<close>.
\<close>

section \<open>Enumerations\<close>

datatype ADDRESS_FAMILY = ADDRESS_FAMILY_INET | ADDRESS_FAMILY_INET6

datatype LOG_LEVEL = LOG_LEVEL_INFO | LOG_LEVEL_WARNING | LOG_LEVEL_CRUCIAL
  | LOG_LEVEL_ERROR | LOG_LEVEL_NONE

fun log_value :: "LOG_LEVEL \<Rightarrow> nat" where
  "log_value LOG_LEVEL_INFO = 0"
| "log_value LOG_LEVEL_WARNING = 1"
| "log_value LOG_LEVEL_CRUCIAL = 2"
| "log_value LOG_LEVEL_ERROR = 3"
| "log_value LOG_LEVEL_NONE = 10"

datatype BUFFER_TYPE = BUFFER_TYPE_READ | BUFFER_TYPE_WRITE

text \<open>The enumeration is ordered by its numeric values.\<close>

instantiation LOG_LEVEL :: linorder
begin

definition less_eq_LOG_LEVEL :: "LOG_LEVEL \<Rightarrow> LOG_LEVEL \<Rightarrow> bool" where
  "less_eq_LOG_LEVEL a b = (log_value a \<le> log_value b)"

definition less_LOG_LEVEL :: "LOG_LEVEL \<Rightarrow> LOG_LEVEL \<Rightarrow> bool" where
  "less_LOG_LEVEL a b = (log_value a < log_value b)"

instance
proof
  fix a b c :: LOG_LEVEL
  show "a < b \<longleftrightarrow> a \<le> b \<and> \<not> b \<le> a" by (auto simp: less_eq_LOG_LEVEL_def less_LOG_LEVEL_def)
  show "a \<le> a" by (simp add: less_eq_LOG_LEVEL_def)
  show "a \<le> b \<Longrightarrow> b \<le> c \<Longrightarrow> a \<le> c" by (simp add: less_eq_LOG_LEVEL_def)
  show "a \<le> b \<Longrightarrow> b \<le> a \<Longrightarrow> a = b"
    by (cases a; cases b) (simp_all add: less_eq_LOG_LEVEL_def)
  show "a \<le> b \<or> b \<le> a" by (auto simp: less_eq_LOG_LEVEL_def)
qed

end

text \<open>The guard of the logging macros: a message is printed when its level reaches the minimum.\<close>

definition log_enabled :: "LOG_LEVEL \<Rightarrow> LOG_LEVEL \<Rightarrow> bool" where
  "log_enabled minLevel level \<longleftrightarrow> minLevel \<le> level"

section \<open>Epoll event bits\<close>

definition EPOLLIN :: u32 where "EPOLLIN = 0x001"
definition EPOLLOUT :: u32 where "EPOLLOUT = 0x004"
definition EPOLLERR :: u32 where "EPOLLERR = 0x008"
definition EPOLLHUP :: u32 where "EPOLLHUP = 0x010"
definition EPOLLRDHUP :: u32 where "EPOLLRDHUP = 0x2000"
definition EPOLLONESHOT :: u32 where "EPOLLONESHOT = 0x40000000"

lemmas epoll_defs = EPOLLIN_def EPOLLOUT_def EPOLLERR_def EPOLLHUP_def EPOLLRDHUP_def
  EPOLLONESHOT_def

section \<open>Structures\<close>

record SPWaterMark =
  readMark :: u32
  writeMark :: u32

record SPSockAlive =
  keepAlive :: int
  aliveSeconds :: int
  detectTimes :: int
  detectInterval :: int

record IOThreadInfo =
  io_count :: int
  io_epollfd :: int
  io_exitfd :: int

record SPTcpConfig =
  READ_BSIZE :: int
  WRITE_BSIZE :: int
  BUFFER_POOL_PEER_ALLOC_NUM :: int
  BUFFER_POOL_MIN_BLOCK_NUM :: int
  EPOLL_MAX_EVENT_BSIZE :: int
  EPOLL_DEFAULT_EVENT :: u32
  THREADPOOL_QUEUE_LENGTH :: int
  THREADPOOL_BATCH_SIZE_SUBMIT :: int
  THREADPOOL_BATCH_SIZE_PROCESS :: int
  WORKER_THREAD_RATIO :: rat
  MIN_LOG_LEVEL :: LOG_LEVEL

record SPUdpConfig =
  RECV_BSIZE :: int
  MAX_PAYLOAD_SIZE :: int
  UDP_MIN_LOG_LEVEL :: LOG_LEVEL

text \<open>
  The C type of the integer fields is \<open>int\<close>: the values of a configuration lie in the
  32-bit signed range.
\<close>

definition is_int :: "int \<Rightarrow> bool" where
  "is_int x \<longleftrightarrow> - (2 ^ 31) \<le> x \<and> x < 2 ^ 31"

definition tcp_config_typed :: "SPTcpConfig \<Rightarrow> bool" where
  "tcp_config_typed c \<longleftrightarrow>
     is_int (READ_BSIZE c) \<and> is_int (WRITE_BSIZE c) \<and>
     is_int (BUFFER_POOL_PEER_ALLOC_NUM c) \<and> is_int (BUFFER_POOL_MIN_BLOCK_NUM c) \<and>
     is_int (EPOLL_MAX_EVENT_BSIZE c) \<and> is_int (THREADPOOL_QUEUE_LENGTH c) \<and>
     is_int (THREADPOOL_BATCH_SIZE_SUBMIT c) \<and> is_int (THREADPOOL_BATCH_SIZE_PROCESS c)"

section \<open>Global state and configuration\<close>

text \<open>The functions that the hooks of namespace \<open>DEFER\<close> can point to.\<close>

datatype hook = Hook_null | Hook_REnableFunc | Hook_ActiveClose ADDRESS_FAMILY | Hook_EnableEvent ADDRESS_FAMILY

record sp_globals =
  g_tcpConfig :: SPTcpConfig
  g_udpConfig :: SPUdpConfig
  g_markGlobal :: SPWaterMark
  g_minLevel :: LOG_LEVEL
  g_renableProc :: hook
  g_funcClose :: hook
  g_funcEvent :: hook

text \<open>The assertions of \<open>SPSockTcp::Config\<close>, in their order.\<close>

definition tcp_config_ok :: "SPTcpConfig \<Rightarrow> bool" where
  "tcp_config_ok c \<longleftrightarrow>
     (READ_BSIZE c \<ge> 1024 \<and> READ_BSIZE c mod 1024 = 0) \<and>
     (WRITE_BSIZE c \<ge> 1024 \<and> WRITE_BSIZE c mod 1024 = 0) \<and>
     (BUFFER_POOL_PEER_ALLOC_NUM c \<ge> 1 \<and> BUFFER_POOL_PEER_ALLOC_NUM c \<le> 1024) \<and>
     BUFFER_POOL_MIN_BLOCK_NUM c \<ge> BUFFER_POOL_PEER_ALLOC_NUM c \<and>
     (EPOLL_MAX_EVENT_BSIZE c > 0 \<and> EPOLL_MAX_EVENT_BSIZE c \<le> 65535) \<and>
     EPOLL_DEFAULT_EVENT c AND NOT (EPOLLIN OR EPOLLOUT) = 0 \<and>
     (THREADPOOL_QUEUE_LENGTH c > 0 \<and> THREADPOOL_QUEUE_LENGTH c \<le> 1048576) \<and>
     (THREADPOOL_BATCH_SIZE_SUBMIT c > 0 \<and>
       THREADPOOL_BATCH_SIZE_SUBMIT c \<le> THREADPOOL_QUEUE_LENGTH c) \<and>
     (THREADPOOL_BATCH_SIZE_PROCESS c > 0 \<and> THREADPOOL_BATCH_SIZE_PROCESS c \<le> 1024) \<and>
     (WORKER_THREAD_RATIO c > 0 \<and> WORKER_THREAD_RATIO c < 1)"

definition tcp_Config :: "ADDRESS_FAMILY \<Rightarrow> SPTcpConfig \<Rightarrow> sp_globals \<Rightarrow> sp_globals option" where
  "tcp_Config family config g =
     (if tcp_config_ok config
      then Some (g\<lparr>g_minLevel := MIN_LOG_LEVEL config,
                   g_markGlobal := \<lparr>readMark = 0, writeMark = 0\<rparr>,
                   g_renableProc := Hook_REnableFunc, g_funcClose := Hook_ActiveClose family,
                   g_funcEvent := Hook_EnableEvent family, g_tcpConfig := config\<rparr>)
      else None)"

definition udp_config_ok :: "SPUdpConfig \<Rightarrow> bool" where
  "udp_config_ok c \<longleftrightarrow>
     (RECV_BSIZE c \<ge> 200 * 1024 \<and> RECV_BSIZE c mod 1024 = 0) \<and>
     (MAX_PAYLOAD_SIZE c \<ge> 1452 \<and> MAX_PAYLOAD_SIZE c \<le> 65507)"

definition udp_Config :: "SPUdpConfig \<Rightarrow> sp_globals \<Rightarrow> sp_globals option" where
  "udp_Config config g =
     (if udp_config_ok config
      then Some (g\<lparr>g_minLevel := UDP_MIN_LOG_LEVEL config, g_udpConfig := config\<rparr>)
      else None)"

text \<open>The default arguments of the two \<open>Config\<close> functions.\<close>

definition tcp_config_default :: SPTcpConfig where
  "tcp_config_default = \<lparr>READ_BSIZE = 16 * 1024, WRITE_BSIZE = 32 * 1024,
     BUFFER_POOL_PEER_ALLOC_NUM = 16, BUFFER_POOL_MIN_BLOCK_NUM = 64,
     EPOLL_MAX_EVENT_BSIZE = 5000, EPOLL_DEFAULT_EVENT = EPOLLIN,
     THREADPOOL_QUEUE_LENGTH = 10000, THREADPOOL_BATCH_SIZE_SUBMIT = 10,
     THREADPOOL_BATCH_SIZE_PROCESS = 5, WORKER_THREAD_RATIO = 3 / 5,
     MIN_LOG_LEVEL = LOG_LEVEL_WARNING\<rparr>"

definition udp_config_default :: SPUdpConfig where
  "udp_config_default = \<lparr>RECV_BSIZE = 4 * 1024 * 1024, MAX_PAYLOAD_SIZE = 1452,
     UDP_MIN_LOG_LEVEL = LOG_LEVEL_WARNING\<rparr>"

lemma tcp_config_default_ok: "tcp_config_ok tcp_config_default \<and> tcp_config_typed tcp_config_default"
  by (simp add: tcp_config_ok_def tcp_config_typed_def tcp_config_default_def is_int_def epoll_defs)

lemma udp_config_default_ok: "udp_config_ok udp_config_default"
  by (simp add: udp_config_ok_def udp_config_default_def)

text \<open>What a configuration that passed the assertions provides to the other components.\<close>

lemma tcp_config_ok_sizes:
  assumes "tcp_config_ok c" "tcp_config_typed c"
  shows "1024 \<le> READ_BSIZE c" "READ_BSIZE c < 2 ^ 31" "1024 \<le> WRITE_BSIZE c" "WRITE_BSIZE c < 2 ^ 31"
  using assms by (simp_all add: tcp_config_ok_def tcp_config_typed_def is_int_def)

end
