(* ===== verification/SP_Buffer_Pool.thy ===== *)
theory SP_Buffer_Pool
  imports SP_Types
begin

text \<open>
  \<open>SPTcpBufferPool\<close> of \<open>SPBufferPool.hpp\<close>: a free-list allocator for the read and write
  buffers of connections. Blocks come from \<open>malloc\<close>, each holds a reference count and
  \<open>num\<close> read nodes and \<open>num\<close> write nodes; a node holds the address of its block
  (\<open>node[0]\<close>), the next free node (\<open>node[1]\<close>) and the payload.

  The heap is split by field, as usual for linked structures: \<open>p_refc\<close> is the counter at
  the start of a block, \<open>p_node0\<close> and \<open>p_node1\<close> are the two words of a node, \<open>p_mem\<close>
  the payload bytes. \<open>p_live\<close> lists the blocks obtained from \<open>malloc\<close> and not yet freed,
  with their sizes; every access checks that it lies inside a live block, and \<open>free\<close> that
  its argument is the start of one, so that \<^term>\<open>None\<close> is an invalid access or a bad free.
  \<open>malloc\<close> is a parameter: it sees the live blocks and a size and returns an address,
  \<open>0\<close> on failure.

  The read and the write half of the class are textually the same code, so the pool's
  fields and operations are indexed by the buffer type.
\<close>

section \<open>State\<close>

record bpool =
  p_live :: "(addr \<times> nat) list"
  p_refc :: "addr \<Rightarrow> u32"
  p_node0 :: "addr \<Rightarrow> addr"
  p_node1 :: "addr \<Rightarrow> addr"
  p_mem :: "addr \<Rightarrow> byte"
  p_buffers :: "BUFFER_TYPE \<Rightarrow> addr"
  p_bSize :: "BUFFER_TYPE \<Rightarrow> u32"

type_synonym malloc_fun = "(addr \<times> nat) list \<Rightarrow> nat \<Rightarrow> addr"

text \<open>
  What the pool relies on: a block returned by \<open>malloc\<close> overlaps no live block, and the
  process has at most a tebibyte of address space for them, so that the 32-bit counters of
  free buffers cannot wrap around.
\<close>

definition addr_limit :: nat where
  "addr_limit = 2 ^ 40"

definition malloc_ok :: "malloc_fun \<Rightarrow> bool" where
  "malloc_ok mal \<longleftrightarrow> (\<forall>live sz. mal live sz \<noteq> null \<longrightarrow> mal live sz + sz \<le> addr_limit \<and>
     (\<forall>(b, s) \<in> set live. b \<noteq> mal live sz \<and> (mal live sz + sz \<le> b \<or> b + s \<le> mal live sz)))"

definition valid_at :: "bpool \<Rightarrow> addr \<Rightarrow> nat \<Rightarrow> bool" where
  "valid_at p a n = list_ex (\<lambda>(b, s). b \<le> a \<and> a + n \<le> b + s) (p_live p)"

definition c_free :: "addr \<Rightarrow> bpool \<Rightarrow> bpool option" where
  "c_free blk p = (if blk \<in> set (map fst (p_live p))
     then Some (p\<lparr>p_live := filter (\<lambda>(b, s). b \<noteq> blk) (p_live p)\<rparr>) else None)"

definition cfg_bsize :: "SPTcpConfig \<Rightarrow> BUFFER_TYPE \<Rightarrow> int" where
  "cfg_bsize c t = (case t of BUFFER_TYPE_READ \<Rightarrow> READ_BSIZE c | BUFFER_TYPE_WRITE \<Rightarrow> WRITE_BSIZE c)"

section \<open>Allocation\<close>

definition peerBSize :: "SPTcpConfig \<Rightarrow> BUFFER_TYPE \<Rightarrow> int" where
  "peerBSize c t = to_int32 (cfg_bsize c t + 2 * 8)"

definition totalSize :: "SPTcpConfig \<Rightarrow> int \<Rightarrow> int" where
  "totalSize c num =
     to_int32 (4 + (peerBSize c BUFFER_TYPE_READ + peerBSize c BUFFER_TYPE_WRITE) * num)"

text \<open>
  The two \<open>for\<close> loops of \<open>tryAlloc\<close>: \<open>num\<close> nodes of \<open>peer\<close> bytes from \<open>base\<close>,
  each linked to the next and the last one to the old head of the free list.
  \<open>limit\<close> is the end of the block.
\<close>

function link_nodes :: "addr \<Rightarrow> addr \<Rightarrow> addr \<Rightarrow> nat \<Rightarrow> nat \<Rightarrow> addr \<Rightarrow> nat \<Rightarrow> bpool \<Rightarrow> bpool option" where
  "link_nodes buf limit base peer num old i p =
     (if i < num then
        let current = base + i * peer in
        if current + 16 \<le> limit then
          link_nodes buf limit base peer num old (Suc i)
            (p\<lparr>p_node0 := (p_node0 p)(current := buf),
               p_node1 := (p_node1 p)(current := if i < num - 1 then current + peer else old)\<rparr>)
        else None
      else Some p)"
  by pat_completeness auto
termination
  by (relation "measure (\<lambda>(buf, limit, base, peer, num, old, i, p). num - i)") auto

declare link_nodes.simps [simp del]

definition tryAlloc :: "malloc_fun \<Rightarrow> SPTcpConfig \<Rightarrow> int \<Rightarrow> bpool \<Rightarrow> (bool \<times> bpool) option" where
  "tryAlloc mal c num p =
     (let peerR = nat (peerBSize c BUFFER_TYPE_READ);
          peerW = nat (peerBSize c BUFFER_TYPE_WRITE);
          total = to_size_t (totalSize c num);
          buf = mal (p_live p) total
      in if buf = null then Some (False, p)
      else do {
        let p1 = p\<lparr>p_live := (buf, total) # p_live p,
                   p_refc := (p_refc p)(buf := word_of_int (num * 2))\<rparr>;
        let pReadBuf = buf + 4;
        p2 \<leftarrow> link_nodes buf (buf + total) pReadBuf peerR (nat num)
                (p_buffers p1 BUFFER_TYPE_READ) 0 p1;
        let p3 = p2\<lparr>p_buffers := (p_buffers p2)(BUFFER_TYPE_READ := pReadBuf),
                    p_bSize := (p_bSize p2)(BUFFER_TYPE_READ :=
                      p_bSize p2 BUFFER_TYPE_READ + word_of_int num)\<rparr>;
        let pWriteBuf = pReadBuf + peerR * nat num;
        p4 \<leftarrow> link_nodes buf (buf + total) pWriteBuf peerW (nat num)
                (p_buffers p3 BUFFER_TYPE_WRITE) 0 p3;
        Some (True, p4\<lparr>p_buffers := (p_buffers p4)(BUFFER_TYPE_WRITE := pWriteBuf),
                       p_bSize := (p_bSize p4)(BUFFER_TYPE_WRITE :=
                         p_bSize p4 BUFFER_TYPE_WRITE + word_of_int num)\<rparr>)
      })"

text \<open>\<open>Alloc\<close>: retry with half as many buffer pairs until one attempt succeeds.\<close>

function Alloc_loop :: "malloc_fun \<Rightarrow> SPTcpConfig \<Rightarrow> int \<Rightarrow> bpool \<Rightarrow> (bool \<times> bpool) option" where
  "Alloc_loop mal c num p =
     (if num > 0 then
        (case tryAlloc mal c num p of
           None \<Rightarrow> None
         | Some (ok, p') \<Rightarrow> if ok then Some (True, p') else Alloc_loop mal c (num div 2) p')
      else Some (False, p))"
  by pat_completeness auto
termination
  by (relation "measure (\<lambda>(mal, c, num, p). nat num)") auto

declare Alloc_loop.simps [simp del]

definition Alloc :: "malloc_fun \<Rightarrow> SPTcpConfig \<Rightarrow> bpool \<Rightarrow> (bool \<times> bpool) option" where
  "Alloc mal c p = Alloc_loop mal c (BUFFER_POOL_PEER_ALLOC_NUM c) p"

section \<open>Taking and returning buffers\<close>

definition take_node :: "BUFFER_TYPE \<Rightarrow> bpool \<Rightarrow> (addr \<times> bpool) option" where
  "take_node t p =
     (let node = p_buffers p t in
      if valid_at p node 16 then
        Some (node + 16,
          p\<lparr>p_buffers := (p_buffers p)(t := p_node1 p node),
            p_bSize := (p_bSize p)(t := p_bSize p t - 1)\<rparr>)
      else None)"

definition GetBufferInner ::
  "malloc_fun \<Rightarrow> SPTcpConfig \<Rightarrow> BUFFER_TYPE \<Rightarrow> bpool \<Rightarrow> (addr \<times> bpool) option" where
  "GetBufferInner mal c t p =
     (if p_buffers p t = null then
        (case Alloc mal c p of
           None \<Rightarrow> None
         | Some (ok, p') \<Rightarrow> if ok then take_node t p' else Some (null, p'))
      else take_node t p)"

definition drop_ref :: "addr \<Rightarrow> bpool \<Rightarrow> bpool option" where
  "drop_ref blk p =
     (if valid_at p blk 4 then
        let r = p_refc p blk - 1; p' = p\<lparr>p_refc := (p_refc p)(blk := r)\<rparr> in
        if r = 0 then c_free blk p' else Some p'
      else None)"

definition FreeBufferInner :: "SPTcpConfig \<Rightarrow> BUFFER_TYPE \<Rightarrow> addr \<Rightarrow> bpool \<Rightarrow> bpool option" where
  "FreeBufferInner c t buf p =
     (let node = buf - 16 in
      if valid_at p node 16 then
        if word_of_int (BUFFER_POOL_MIN_BLOCK_NUM c) \<le> p_bSize p t
        then drop_ref (p_node0 p node) p
        else Some (p\<lparr>p_node1 := (p_node1 p)(node := p_buffers p t),
                     p_buffers := (p_buffers p)(t := node),
                     p_bSize := (p_bSize p)(t := p_bSize p t + 1)\<rparr>)
      else None)"

section \<open>Releasing everything\<close>

text \<open>One \<open>while\<close> loop of \<open>releaseAllBlocks\<close>; a cyclic free list would not terminate.\<close>

partial_function (option) release_list :: "BUFFER_TYPE \<Rightarrow> bpool \<Rightarrow> bpool option" where
  "release_list t p =
     (if p_buffers p t = null then Some p
      else let node = p_buffers p t in
        if valid_at p node 16 then
          Option.bind (drop_ref (p_node0 p node)
              (p\<lparr>p_buffers := (p_buffers p)(t := p_node1 p node)\<rparr>))
            (\<lambda>p'. release_list t p')
        else None)"

definition releaseAllBlocks :: "bpool \<Rightarrow> bpool option" where
  "releaseAllBlocks p = do {
     p1 \<leftarrow> release_list BUFFER_TYPE_READ p;
     release_list BUFFER_TYPE_WRITE p1
   }"

definition pool_reset :: "bpool \<Rightarrow> bpool option" where
  "pool_reset p = do {
     p1 \<leftarrow> releaseAllBlocks p;
     Some (p1\<lparr>p_bSize := (\<lambda>_. 0), p_buffers := (\<lambda>_. null)\<rparr>)
   }"

definition pool_init :: "(addr \<Rightarrow> byte) \<Rightarrow> bpool" where
  "pool_init mem = \<lparr>p_live = [], p_refc = (\<lambda>_. 0), p_node0 = (\<lambda>_. null), p_node1 = (\<lambda>_. null),
     p_mem = mem, p_buffers = (\<lambda>_. null), p_bSize = (\<lambda>_. 0)\<rparr>"

section \<open>Free lists\<close>

primrec flist :: "(addr \<Rightarrow> addr) \<Rightarrow> addr \<Rightarrow> addr list \<Rightarrow> bool" where
  "flist h a [] \<longleftrightarrow> a = null"
| "flist h a (x # xs) \<longleftrightarrow> a = x \<and> x \<noteq> null \<and> flist h (h x) xs"

lemma flist_null [simp]: "flist h 0 xs \<longleftrightarrow> xs = []"
  by (cases xs) auto

lemma flist_nonnull: "a \<noteq> null \<Longrightarrow> flist h a xs \<longleftrightarrow> (\<exists>ys. xs = a # ys \<and> flist h (h a) ys)"
  by (cases xs) auto

lemma flist_cong: "(\<And>x. x \<in> set xs \<Longrightarrow> h x = h' x) \<Longrightarrow> flist h a xs = flist h' a xs"
  by (induction xs arbitrary: a) auto

lemma flist_unique: "flist h a xs \<Longrightarrow> flist h a ys \<Longrightarrow> xs = ys"
  by (induction xs arbitrary: a ys) (auto simp: flist_nonnull)

lemma flist_suffix: "flist h a (xs @ y # ys) \<Longrightarrow> flist h y (y # ys)"
  by (induction xs arbitrary: a) auto

lemma flist_distinct: "flist h a xs \<Longrightarrow> distinct xs"
proof (induction xs arbitrary: a)
  case Nil
  then show ?case by simp
next
  case (Cons x xs)
  have "x \<notin> set xs"
  proof
    assume "x \<in> set xs"
    then obtain us vs where xs: "xs = us @ x # vs" by (meson split_list)
    with Cons.prems have "flist h x (x # vs)" by (auto dest: flist_suffix)
    with Cons.prems have "x # xs = x # vs" by (auto dest: flist_unique)
    with xs show False by simp
  qed
  with Cons show ?case by auto
qed

lemma flist_push:
  assumes "flist h a xs" "x \<notin> set xs" "x \<noteq> null"
  shows "flist (h(x := a)) x (x # xs)"
proof -
  have "flist (h(x := a)) a xs = flist h a xs"
    using assms(2) by (intro flist_cong) auto
  with assms show ?thesis by simp
qed

section \<open>The pool invariant\<close>

definition peer_size :: "SPTcpConfig \<Rightarrow> BUFFER_TYPE \<Rightarrow> nat" where
  "peer_size c t = nat (cfg_bsize c t + 16)"

definition blocks_inv :: "(addr \<times> nat) list \<Rightarrow> bool" where
  "blocks_inv live \<longleftrightarrow> distinct (map fst live) \<and>
     (\<forall>(b, s) \<in> set live. b \<noteq> null \<and> 4 \<le> s \<and> b + s \<le> addr_limit) \<and>
     (\<forall>(b, s) \<in> set live. \<forall>(b', s') \<in> set live. b \<noteq> b' \<longrightarrow> b + s \<le> b' \<or> b' + s' \<le> b)"

text \<open>A node lies in the live block its first word names, after the reference count.\<close>

definition in_block :: "SPTcpConfig \<Rightarrow> bpool \<Rightarrow> BUFFER_TYPE \<times> addr \<Rightarrow> bool" where
  "in_block c p x \<longleftrightarrow> (\<exists>s. (p_node0 p (snd x), s) \<in> set (p_live p) \<and>
     p_node0 p (snd x) + 4 \<le> snd x \<and> snd x + peer_size c (fst x) \<le> p_node0 p (snd x) + s)"

definition apart :: "SPTcpConfig \<Rightarrow> BUFFER_TYPE \<times> addr \<Rightarrow> BUFFER_TYPE \<times> addr \<Rightarrow> bool" where
  "apart c x y \<longleftrightarrow> snd x + peer_size c (fst x) \<le> snd y \<or> snd y + peer_size c (fst y) \<le> snd x"

definition nodes_of :: "bpool \<Rightarrow> (BUFFER_TYPE \<times> addr) set \<Rightarrow> addr \<Rightarrow> (BUFFER_TYPE \<times> addr) set" where
  "nodes_of p N b = {x \<in> N. p_node0 p (snd x) = b}"

definition nodes_inv :: "SPTcpConfig \<Rightarrow> bpool \<Rightarrow> (BUFFER_TYPE \<times> addr) set \<Rightarrow> bool" where
  "nodes_inv c p N \<longleftrightarrow> finite N \<and> (\<forall>x \<in> N. in_block c p x) \<and>
     (\<forall>x \<in> N. \<forall>y \<in> N. x \<noteq> y \<longrightarrow> apart c x y) \<and>
     (\<forall>b \<in> set (map fst (p_live p)). p_refc p b \<noteq> 0 \<and> unat (p_refc p b) = card (nodes_of p N b))"

definition all_nodes :: "(BUFFER_TYPE \<Rightarrow> addr list) \<Rightarrow> (BUFFER_TYPE \<Rightarrow> addr set) \<Rightarrow> (BUFFER_TYPE \<times> addr) set" where
  "all_nodes fl out = {(t, n). n \<in> set (fl t) \<union> out t}"

text \<open>
  \<open>fl t\<close> is the free list of type \<open>t\<close> and \<open>out t\<close> the set of nodes whose payload is in
  use. Together they are all nodes of the live blocks, each block's reference count is the
  number of its nodes, and the counters are the lengths of the free lists.
\<close>

definition pool_inv ::
  "SPTcpConfig \<Rightarrow> (BUFFER_TYPE \<Rightarrow> addr list) \<Rightarrow> (BUFFER_TYPE \<Rightarrow> addr set) \<Rightarrow> bpool \<Rightarrow> bool" where
  "pool_inv c fl out p \<longleftrightarrow> blocks_inv (p_live p) \<and> nodes_inv c p (all_nodes fl out) \<and>
     (\<forall>t. flist (p_node1 p) (p_buffers p t) (fl t) \<and> length (fl t) = unat (p_bSize p t) \<and>
          set (fl t) \<inter> out t = {})"

definition pool_ok :: "SPTcpConfig \<Rightarrow> (BUFFER_TYPE \<Rightarrow> addr set) \<Rightarrow> bpool \<Rightarrow> bool" where
  "pool_ok c out p \<longleftrightarrow> (\<exists>fl. pool_inv c fl out p)"

text \<open>
  A validated configuration for which the size of the largest block, computed in
  \<open>int\<close>, does not overflow.
\<close>

definition pool_config :: "SPTcpConfig \<Rightarrow> bool" where
  "pool_config c \<longleftrightarrow> tcp_config_ok c \<and> tcp_config_typed c \<and>
     4 + (READ_BSIZE c + WRITE_BSIZE c + 32) * BUFFER_POOL_PEER_ALLOC_NUM c < 2 ^ 31"

lemma pool_inv_init: "pool_inv c (\<lambda>_. []) (\<lambda>_. {}) (pool_init mem)"
  by (auto simp: pool_inv_def pool_init_def blocks_inv_def nodes_inv_def all_nodes_def)

lemma valid_at_iff: "valid_at p a n \<longleftrightarrow> (\<exists>(b, s) \<in> set (p_live p). b \<le> a \<and> a + n \<le> b + s)"
  by (simp add: valid_at_def list_ex_iff)

lemma valid_atI: "(b, s) \<in> set (p_live p) \<Longrightarrow> b \<le> a \<Longrightarrow> a + n \<le> b + s \<Longrightarrow> valid_at p a n"
  by (auto simp: valid_at_iff)

lemma tcp_config_bsize:
  assumes "tcp_config_ok c" "tcp_config_typed c"
  shows "1024 \<le> cfg_bsize c t" "cfg_bsize c t + 16 < 2 ^ 31"
proof -
  have m: "x + 16 < 2 ^ 31" if "x mod 1024 = 0" "x < 2 ^ 31" for x :: int
  proof -
    from that(1) obtain k where "x = 1024 * k" by (auto simp: mod_eq_0_iff_dvd)
    with that(2) show ?thesis by simp
  qed
  show "1024 \<le> cfg_bsize c t" "cfg_bsize c t + 16 < 2 ^ 31"
    using assms m by (cases t; simp add: cfg_bsize_def tcp_config_ok_def tcp_config_typed_def is_int_def)+
qed

lemma peer_size_int:
  assumes "tcp_config_ok c" "tcp_config_typed c"
  shows "int (peer_size c t) = cfg_bsize c t + 16" "peerBSize c t = int (peer_size c t)" "16 < peer_size c t"
  using tcp_config_bsize [OF assms, of t] by (simp_all add: peer_size_def peerBSize_def to_int32_id)

lemma in_block_valid:
  assumes "in_block c p x" "tcp_config_ok c" "tcp_config_typed c"
  shows "valid_at p (snd x) 16" "valid_at p (p_node0 p (snd x)) 4"
    "p_node0 p (snd x) \<in> set (map fst (p_live p))"
proof -
  obtain s where s: "(p_node0 p (snd x), s) \<in> set (p_live p)" "p_node0 p (snd x) + 4 \<le> snd x"
    "snd x + peer_size c (fst x) \<le> p_node0 p (snd x) + s"
    using assms(1) by (auto simp: in_block_def)
  have "16 < peer_size c (fst x)" by (rule peer_size_int(3) [OF assms(2,3)])
  with s show "valid_at p (snd x) 16" by (intro valid_atI [OF s(1)]) linarith+
  from s \<open>16 < peer_size c (fst x)\<close> show "valid_at p (p_node0 p (snd x)) 4"
    by (intro valid_atI [OF s(1)]) linarith+
  show "p_node0 p (snd x) \<in> set (map fst (p_live p))"
    using s(1) by (force simp: image_iff)
qed

text \<open>
  Nodes are at least 1040 bytes and disjoint, so there are at most \<open>2 ^ 30\<close> of them.
\<close>

lemma nodes_bound:
  assumes blk: "blocks_inv (p_live p)" and inv: "nodes_inv c p N" and c: "tcp_config_ok c" "tcp_config_typed c"
  shows "card N \<le> 2 ^ 30"
proof -
  let ?f = "\<lambda>x :: BUFFER_TYPE \<times> addr. snd x div 1024"
  have big: "1024 \<le> peer_size c t" for t
    using tcp_config_bsize(1) [OF c, of t] by (simp add: peer_size_def)
  have lt: "?f x < 2 ^ 30" if "x \<in> N" for x
  proof -
    have "in_block c p x" using that inv by (simp add: nodes_inv_def)
    then obtain s where "(p_node0 p (snd x), s) \<in> set (p_live p)"
      "snd x + peer_size c (fst x) \<le> p_node0 p (snd x) + s" by (auto simp: in_block_def)
    with blk have "snd x + peer_size c (fst x) \<le> addr_limit" unfolding blocks_inv_def by fastforce
    with big [of "fst x"] show ?thesis by (simp add: addr_limit_def)
  qed
  have "inj_on ?f N"
  proof (rule inj_onI, rule ccontr)
    fix x y assume xy: "x \<in> N" "y \<in> N" "?f x = ?f y" "x \<noteq> y"
    then have "apart c x y" using inv by (simp add: nodes_inv_def)
    with big [of "fst x"] big [of "fst y"] have "snd x + 1024 \<le> snd y \<or> snd y + 1024 \<le> snd x"
      unfolding apart_def by linarith
    with xy(3) show False by auto
  qed
  then have "card N = card (?f ` N)" by (simp add: card_image)
  also have "\<dots> \<le> card {..< 2 ^ 30 :: nat}" using lt by (intro card_mono) auto
  finally show ?thesis by simp
qed

section \<open>Taking a buffer from the free list\<close>

lemma nodes_inv_frame [simp]:
  "nodes_inv c (p\<lparr>p_node1 := h\<rparr>) N = nodes_inv c p N"
  "nodes_inv c (p\<lparr>p_buffers := f\<rparr>) N = nodes_inv c p N"
  "nodes_inv c (p\<lparr>p_bSize := g\<rparr>) N = nodes_inv c p N"
  "nodes_inv c (p\<lparr>p_mem := m\<rparr>) N = nodes_inv c p N"
  by (simp_all add: nodes_inv_def in_block_def nodes_of_def)

lemma all_nodes_take: "fl t = n # ns \<Longrightarrow> all_nodes (fl(t := ns)) (out(t := insert n (out t))) = all_nodes fl out"
  by (auto simp: all_nodes_def split: if_splits)

lemma all_nodes_put: "n \<in> out t \<Longrightarrow> all_nodes (fl(t := n # fl t)) (out(t := out t - {n})) = all_nodes fl out"
  by (auto simp: all_nodes_def split: if_splits)

lemma pool_invD:
  assumes "pool_inv c fl out p"
  shows "blocks_inv (p_live p)" "nodes_inv c p (all_nodes fl out)"
    "flist (p_node1 p) (p_buffers p t) (fl t)" "length (fl t) = unat (p_bSize p t)"
    "set (fl t) \<inter> out t = {}" "distinct (fl t)"
  using assms flist_distinct [of "p_node1 p" "p_buffers p t" "fl t"]
  by (simp_all add: pool_inv_def)

lemma pool_room:
  assumes "pool_inv c fl out p" "tcp_config_ok c" "tcp_config_typed c"
  shows "unat (p_bSize p t) \<le> 2 ^ 30"
proof -
  have fin: "finite (all_nodes fl out)" using pool_invD(2) [OF assms(1)] by (simp add: nodes_inv_def)
  have "unat (p_bSize p t) = card (Pair t ` set (fl t))"
    using pool_invD(4,6) [OF assms(1), of t] by (simp add: card_image inj_on_def distinct_card)
  also have "\<dots> \<le> card (all_nodes fl out)"
    using fin by (intro card_mono) (auto simp: all_nodes_def)
  also have "\<dots> \<le> 2 ^ 30" using nodes_bound [OF pool_invD(1,2) [OF assms(1)] assms(2,3)] .
  finally show ?thesis .
qed

lemma pool_inv_node:
  assumes "pool_inv c fl out p" "(t, n) \<in> all_nodes fl out"
  shows "in_block c p (t, n)"
  using assms by (auto simp: pool_inv_def nodes_inv_def)

lemma pool_inv_nonnull:
  assumes "pool_inv c fl out p" "(t, n) \<in> all_nodes fl out"
  shows "n \<noteq> null"
  using pool_inv_node [OF assms] by (auto simp: in_block_def)

lemma pool_inv_take:
  assumes inv: "pool_inv c fl out p" and c: "tcp_config_ok c" "tcp_config_typed c"
    and ne: "p_buffers p t \<noteq> null"
  obtains n ns p' where "fl t = n # ns" "n \<notin> out t" "n \<noteq> null" "take_node t p = Some (n + 16, p')"
    "pool_inv c (fl(t := ns)) (out(t := insert n (out t))) p'" "p_mem p' = p_mem p"
proof -
  let ?n = "p_buffers p t"
  obtain ns where fl: "fl t = ?n # ns" and tl: "flist (p_node1 p) (p_node1 p ?n) ns"
    using pool_invD(3) [OF inv, of t] ne by (auto simp: flist_nonnull)
  have mem: "(t, ?n) \<in> all_nodes fl out" using fl by (simp add: all_nodes_def)
  have v: "valid_at p ?n 16"
    using in_block_valid(1) [OF pool_inv_node [OF inv mem] c] by simp
  let ?p' = "p\<lparr>p_buffers := (p_buffers p)(t := p_node1 p ?n),
               p_bSize := (p_bSize p)(t := p_bSize p t - 1)\<rparr>"
  have len: "Suc (length ns) = unat (p_bSize p t)"
    using pool_invD(4) [OF inv, of t] fl by simp
  then have "unat (p_bSize p t - 1) = length ns"
    by (simp add: unat_diff_small)
  moreover have "?n \<notin> set ns"
    using pool_invD(6) [OF inv, of t] fl by simp
  moreover have "set ns \<inter> out t = {}" using pool_invD(5) [OF inv, of t] fl by simp
  ultimately have "pool_inv c (fl(t := ns)) (out(t := insert ?n (out t))) ?p'"
    using inv fl tl unfolding pool_inv_def
    by (auto simp: all_nodes_take [of fl t, OF fl])
  moreover have "?n \<notin> out t" using pool_invD(5) [OF inv, of t] fl by auto
  ultimately show ?thesis
    using that [OF fl] ne v by (simp add: take_node_def Let_def)
qed

section \<open>Returning a buffer\<close>

lemma all_nodes_same_addr:
  assumes inv: "pool_inv c fl out p" and c: "tcp_config_ok c" "tcp_config_typed c"
    and N: "(t, n) \<in> all_nodes fl out" "(t', n) \<in> all_nodes fl out"
  shows "t = t'"
proof (rule ccontr)
  assume "t \<noteq> t'"
  with N pool_invD(2) [OF inv] have "apart c (t, n) (t', n)"
    unfolding nodes_inv_def by (metis prod.inject)
  with peer_size_int(3) [OF c, of t] peer_size_int(3) [OF c, of t'] show False
    by (auto simp: apart_def)
qed

lemma out_not_free:
  assumes inv: "pool_inv c fl out p" and c: "tcp_config_ok c" "tcp_config_typed c" and n: "n \<in> out t"
  shows "n \<notin> set (fl t')"
proof
  assume m: "n \<in> set (fl t')"
  with n all_nodes_same_addr [OF inv c, of t n t'] have "t = t'" by (auto simp: all_nodes_def)
  with m n pool_invD(5) [OF inv, of t] show False by blast
qed

lemma pool_inv_put:
  assumes inv: "pool_inv c fl out p" and c: "tcp_config_ok c" "tcp_config_typed c"
    and n: "n \<in> out t" and small: "p_bSize p t < b"
  shows "pool_inv c (fl(t := n # fl t)) (out(t := out t - {n}))
    (p\<lparr>p_node1 := (p_node1 p)(n := p_buffers p t), p_buffers := (p_buffers p)(t := n),
       p_bSize := (p_bSize p)(t := p_bSize p t + 1)\<rparr>)" (is "pool_inv c ?fl ?out ?p'")
proof -
  have notin: "n \<notin> set (fl t')" for t' by (rule out_not_free [OF inv c n])
  have nn: "n \<noteq> null" by (rule pool_inv_nonnull [OF inv, of t]) (simp add: all_nodes_def n)
  have "unat (p_bSize p t) + 1 < 2 ^ 32"
    using small unat_less_u32 [of b] by (simp add: word_less_nat_alt del: unat_less_u32)
  then have len: "unat (p_bSize p t + 1) = Suc (unat (p_bSize p t))"
    by (simp add: unat_add_small)
  have fl: "flist ((p_node1 p)(n := p_buffers p t)) (if t' = t then n else p_buffers p t') (?fl t')" for t'
  proof (cases "t' = t")
    case True
    then show ?thesis
      using flist_push [OF pool_invD(3) [OF inv] notin nn] by auto
  next
    case False
    have "flist ((p_node1 p)(n := p_buffers p t)) (p_buffers p t') (fl t') = flist (p_node1 p) (p_buffers p t') (fl t')"
      using notin by (intro flist_cong) auto
    with False pool_invD(3) [OF inv, of t'] show ?thesis by simp
  qed
  show ?thesis
    unfolding pool_inv_def all_nodes_put [of n out t fl, OF n]
    using pool_invD(1,2) [OF inv] pool_invD(4,5) [OF inv] fl notin len
    by (auto simp: fun_upd_def)
qed

section \<open>Dropping a node from its block\<close>

lemma blocks_inv_filter: "blocks_inv live \<Longrightarrow> blocks_inv (filter P live)"
  unfolding blocks_inv_def by (auto simp: distinct_map_filter)

lemma nodes_of_frame [simp]:
  "nodes_of (p\<lparr>p_refc := f\<rparr>) N b = nodes_of p N b"
  "nodes_of (p\<lparr>p_live := l\<rparr>) N b = nodes_of p N b"
  by (simp_all add: nodes_of_def)

lemma drop_ref_ok:
  assumes blk: "blocks_inv (p_live p)" and inv: "nodes_inv c p N" and x: "x \<in> N"
    and c: "tcp_config_ok c" "tcp_config_typed c"
  obtains p' where "drop_ref (p_node0 p (snd x)) p = Some p'" "blocks_inv (p_live p')"
    "nodes_inv c p' (N - {x})" "p_node1 p' = p_node1 p" "p_buffers p' = p_buffers p"
    "p_bSize p' = p_bSize p" "p_mem p' = p_mem p" "p_node0 p' = p_node0 p"
proof -
  let ?b = "p_node0 p (snd x)" and ?r = "p_refc p (p_node0 p (snd x)) - 1"
  let ?p1 = "p\<lparr>p_refc := (p_refc p)(?b := ?r)\<rparr>"
  have ib: "in_block c p x" using inv x by (simp add: nodes_inv_def)
  note v = in_block_valid [OF ib c]
  have fin: "finite (nodes_of p N b)" for b using inv by (simp add: nodes_inv_def nodes_of_def)
  have xin: "x \<in> nodes_of p N ?b" using x by (simp add: nodes_of_def)
  have ref: "p_refc p ?b \<noteq> 0" "unat (p_refc p ?b) = card (nodes_of p N ?b)"
    using inv v(3) by (auto simp: nodes_inv_def)
  have pos: "1 \<le> unat (p_refc p ?b)" using ref(1) unat_eq_0 [of "p_refc p ?b"] by linarith
  have others: "nodes_of p (N - {x}) b = nodes_of p N b - {x}" for b
    by (auto simp: nodes_of_def)
  from pos have r: "unat ?r = card (nodes_of p (N - {x}) ?b)"
    using ref(2) xin fin by (simp add: unat_diff_small others)
  have counts: "p_refc p b \<noteq> 0 \<and> unat (p_refc p b) = card (nodes_of p (N - {x}) b)"
    if "(b, s) \<in> set (p_live p)" "b \<noteq> ?b" for b s
  proof -
    have "nodes_of p (N - {x}) b = nodes_of p N b" using that(2) by (auto simp: nodes_of_def)
    with inv that(1) show ?thesis by (auto simp: nodes_inv_def)
  qed
  show ?thesis
  proof (cases "?r = 0")
    case True
    let ?p' = "?p1\<lparr>p_live := filter (\<lambda>(b, s). b \<noteq> ?b) (p_live p)\<rparr>"
    have "nodes_of p (N - {x}) ?b = {}" using r True fin by (simp add: others)
    then have "p_node0 p (snd y) \<noteq> ?b \<and> in_block c p y" if "y \<in> N - {x}" for y
      using that inv by (cases y) (auto simp: nodes_inv_def nodes_of_def)
    then have "in_block c ?p' y" if "y \<in> N - {x}" for y
      using that by (fastforce simp: in_block_def)
    then have "nodes_inv c ?p' (N - {x})"
      using inv counts by (auto simp: nodes_inv_def)
    with True v blk show ?thesis
      by (intro that [of ?p']) (simp_all add: drop_ref_def Let_def c_free_def blocks_inv_filter)
  next
    case False
    have "nodes_inv c ?p1 (N - {x})"
      using inv counts r False
      by (auto simp: nodes_inv_def in_block_def)
    with False v blk show ?thesis
      by (intro that [of ?p1]) (simp_all add: drop_ref_def Let_def)
  qed
qed

section \<open>Allocating a block\<close>

definition node_addrs :: "addr \<Rightarrow> nat \<Rightarrow> nat \<Rightarrow> nat \<Rightarrow> addr list" where
  "node_addrs base peer i num = map (\<lambda>k. base + k * peer) [i..<num]"

lemma node_addrs_simps:
  "num \<le> i \<Longrightarrow> node_addrs base peer i num = []"
  "i < num \<Longrightarrow> node_addrs base peer i num = (base + i * peer) # node_addrs base peer (Suc i) num"
  by (simp_all add: node_addrs_def upt_rec)

lemma set_node_addrs: "a \<in> set (node_addrs base peer i num) \<longleftrightarrow> (\<exists>k. i \<le> k \<and> k < num \<and> a = base + k * peer)"
  by (auto simp: node_addrs_def)

lemma length_node_addrs [simp]: "length (node_addrs base peer i num) = num - i"
  by (simp add: node_addrs_def)

lemma node_addrs_spaced:
  assumes "a \<in> set (node_addrs base peer i num)" "b \<in> set (node_addrs base peer i num)" "a \<noteq> b"
  shows "a + peer \<le> b \<or> b + peer \<le> a"
proof -
  obtain k l where kl: "a = base + k * peer" "b = base + l * peer"
    using assms(1,2) by (auto simp: set_node_addrs)
  with assms(3) consider "k < l" | "l < k" by force
  then show ?thesis
  proof cases
    case 1
    then have "Suc k * peer \<le> l * peer" by (intro mult_le_mono1) simp
    with kl show ?thesis by simp
  next
    case 2
    then have "Suc l * peer \<le> k * peer" by (intro mult_le_mono1) simp
    with kl show ?thesis by simp
  qed
qed

lemma node_addrs_range:
  assumes "a \<in> set (node_addrs base peer i num)"
  shows "base \<le> a" "a + peer \<le> base + num * peer"
proof -
  obtain k where k: "k < num" "a = base + k * peer" using assms by (auto simp: set_node_addrs)
  then have "Suc k * peer \<le> num * peer" by (intro mult_le_mono1) simp
  with k show "base \<le> a" "a + peer \<le> base + num * peer" by simp_all
qed

lemma distinct_node_addrs: "0 < peer \<Longrightarrow> distinct (node_addrs base peer i num)"
  by (simp add: node_addrs_def distinct_map inj_on_def)

text \<open>
  The linking loop writes exactly the two words of the nodes \<open>node_addrs base peer i num\<close>.
\<close>

lemma link_nodes_spec:
  assumes "base + num * peer \<le> limit" "16 \<le> peer"
  shows "\<exists>p'. link_nodes buf limit base peer num old i p = Some p' \<and>
    p' = p\<lparr>p_node0 := p_node0 p', p_node1 := p_node1 p'\<rparr> \<and>
    (\<forall>a. p_node0 p' a = (if a \<in> set (node_addrs base peer i num) then buf else p_node0 p a)) \<and>
    (\<forall>a. a \<notin> set (node_addrs base peer i num) \<longrightarrow> p_node1 p' a = p_node1 p a) \<and>
    (\<forall>xs. base \<noteq> null \<and> flist (p_node1 p) old xs \<and> set xs \<inter> set (node_addrs base peer i num) = {} \<longrightarrow>
       flist (p_node1 p') (if i < num then base + i * peer else old) (node_addrs base peer i num @ xs))"
  using assms
proof (induction buf limit base peer num old i p rule: link_nodes.induct)
  case (1 buf limit base peer num old i p)
  show ?case
  proof (cases "i < num")
    case False
    then show ?thesis by (simp add: link_nodes.simps node_addrs_simps)
  next
    case True
    let ?cur = "base + i * peer"
    let ?p1 = "p\<lparr>p_node0 := (p_node0 p)(?cur := buf),
                 p_node1 := (p_node1 p)(?cur := if i < num - 1 then ?cur + peer else old)\<rparr>"
    have "Suc i * peer \<le> num * peer" using True by (intro mult_le_mono1) simp
    with "1.prems" have fits: "?cur + 16 \<le> limit" by simp
    have notin: "?cur \<notin> set (node_addrs base peer (Suc i) num)"
      using distinct_node_addrs [of peer base i num] "1.prems"(2) True by (simp add: node_addrs_simps)
    obtain p' where p': "link_nodes buf limit base peer num old (Suc i) ?p1 = Some p'"
      "p' = ?p1\<lparr>p_node0 := p_node0 p', p_node1 := p_node1 p'\<rparr>"
      "\<forall>a. p_node0 p' a = (if a \<in> set (node_addrs base peer (Suc i) num) then buf else p_node0 ?p1 a)"
      "\<forall>a. a \<notin> set (node_addrs base peer (Suc i) num) \<longrightarrow> p_node1 p' a = p_node1 ?p1 a"
      "\<forall>xs. base \<noteq> null \<and> flist (p_node1 ?p1) old xs \<and> set xs \<inter> set (node_addrs base peer (Suc i) num) = {} \<longrightarrow>
       flist (p_node1 p') (if Suc i < num then base + Suc i * peer else old)
         (node_addrs base peer (Suc i) num @ xs)"
      using "1.IH" [OF True refl fits "1.prems"] by (elim exE conjE, intro that) assumption+
    have "flist (p_node1 p') ?cur (node_addrs base peer i num @ xs)"
      if xs: "base \<noteq> null" "flist (p_node1 p) old xs" "set xs \<inter> set (node_addrs base peer i num) = {}" for xs
    proof -
      have "flist (p_node1 ?p1) old xs = flist (p_node1 p) old xs"
        using xs(3) True by (intro flist_cong) (auto simp: node_addrs_simps)
      moreover have "set xs \<inter> set (node_addrs base peer (Suc i) num) = {}"
        using xs(3) True by (auto simp: node_addrs_simps)
      ultimately have "flist (p_node1 p') (if Suc i < num then base + Suc i * peer else old)
         (node_addrs base peer (Suc i) num @ xs)"
        using p'(5) xs by blast
      moreover have "p_node1 p' ?cur = (if Suc i < num then base + Suc i * peer else old)"
        using p'(4) notin by (auto simp: add.assoc)
      ultimately show ?thesis using True xs(1) by (simp add: node_addrs_simps)
    qed
    moreover have "link_nodes buf limit base peer num old i p = Some p'"
      using p'(1) True fits by (subst link_nodes.simps) (simp add: Let_def)
    moreover have "p' = p\<lparr>p_node0 := p_node0 p', p_node1 := p_node1 p'\<rparr>"
      by (subst p'(2)) simp
    moreover have "\<forall>a. p_node0 p' a = (if a \<in> set (node_addrs base peer i num) then buf else p_node0 p a)"
      using p'(3) True by (auto simp: node_addrs_simps)
    moreover have "\<forall>a. a \<notin> set (node_addrs base peer i num) \<longrightarrow> p_node1 p' a = p_node1 p a"
      using p'(4) True by (auto simp: node_addrs_simps)
    ultimately show ?thesis using True by auto
  qed
qed

lemma block_size:
  assumes "pool_config c" "0 < num" "num \<le> BUFFER_POOL_PEER_ALLOC_NUM c"
  shows "to_size_t (totalSize c num) =
    4 + (peer_size c BUFFER_TYPE_READ + peer_size c BUFFER_TYPE_WRITE) * nat num"
proof -
  let ?s = "READ_BSIZE c + WRITE_BSIZE c + 32"
  have c: "tcp_config_ok c" "tcp_config_typed c" using assms(1) by (simp_all add: pool_config_def)
  have s: "peerBSize c BUFFER_TYPE_READ + peerBSize c BUFFER_TYPE_WRITE = ?s"
    by (simp add: peer_size_int(1,2) [OF c] cfg_bsize_def)
  have pos: "0 \<le> ?s" using tcp_config_ok_sizes [OF c] by linarith
  have "?s * num \<le> ?s * BUFFER_POOL_PEER_ALLOC_NUM c"
    using assms(3) pos by (rule mult_left_mono)
  then have lt: "4 + ?s * num < 2 ^ 31" using assms(1) by (simp add: pool_config_def)
  have nn: "0 \<le> ?s * num" using pos assms(2) by simp
  have "totalSize c num = 4 + ?s * num"
    unfolding totalSize_def s using lt nn by (intro to_int32_id) linarith+
  then have "to_size_t (totalSize c num) = nat (4 + ?s * num)"
    using lt nn by (simp add: to_size_t_id)
  also have "\<dots> = 4 + nat ?s * nat num" using nn pos by (simp add: nat_add_distrib nat_mult_distrib)
  also have "nat ?s = peer_size c BUFFER_TYPE_READ + peer_size c BUFFER_TYPE_WRITE"
    using tcp_config_ok_sizes [OF c] by (simp add: peer_size_def cfg_bsize_def)
  finally show ?thesis by simp
qed

definition new_base :: "SPTcpConfig \<Rightarrow> addr \<Rightarrow> nat \<Rightarrow> BUFFER_TYPE \<Rightarrow> addr" where
  "new_base c buf num t = (case t of BUFFER_TYPE_READ \<Rightarrow> buf + 4
     | BUFFER_TYPE_WRITE \<Rightarrow> buf + 4 + peer_size c BUFFER_TYPE_READ * num)"

definition new_nodes :: "SPTcpConfig \<Rightarrow> addr \<Rightarrow> nat \<Rightarrow> BUFFER_TYPE \<Rightarrow> addr list" where
  "new_nodes c buf num t = node_addrs (new_base c buf num t) (peer_size c t) 0 num"

lemma new_nodes_range:
  assumes "n \<in> set (new_nodes c buf num t)"
  shows "buf + 4 \<le> n"
    "n + peer_size c t \<le> buf + 4 + (peer_size c BUFFER_TYPE_READ + peer_size c BUFFER_TYPE_WRITE) * num"
proof -
  note r = node_addrs_range [OF assms [unfolded new_nodes_def]]
  show "buf + 4 \<le> n" using r(1) by (cases t) (simp_all add: new_base_def)
  show "n + peer_size c t \<le> buf + 4 + (peer_size c BUFFER_TYPE_READ + peer_size c BUFFER_TYPE_WRITE) * num"
    using r(2) by (cases t) (simp_all add: new_base_def algebra_simps)
qed

lemma new_nodes_apart:
  assumes "n \<in> set (new_nodes c buf num t)" "m \<in> set (new_nodes c buf num u)" "(t, n) \<noteq> (u, m)"
  shows "apart c (t, n) (u, m)"
proof (cases "t = u")
  case True
  with assms node_addrs_spaced [of n _ _ 0 num m] show ?thesis
    by (auto simp: new_nodes_def apart_def)
next
  case False
  note r = node_addrs_range [OF assms(1) [unfolded new_nodes_def]]
    node_addrs_range [OF assms(2) [unfolded new_nodes_def]]
  from False r show ?thesis
    by (cases t; cases u) (auto simp: apart_def new_base_def algebra_simps)
qed

lemma UNIV_BUFFER_TYPE: "UNIV = {BUFFER_TYPE_READ, BUFFER_TYPE_WRITE}"
  using BUFFER_TYPE.exhaust by auto

definition new_set :: "SPTcpConfig \<Rightarrow> addr \<Rightarrow> nat \<Rightarrow> (BUFFER_TYPE \<times> addr) set" where
  "new_set c buf num = {(t, n). n \<in> set (new_nodes c buf num t)}"

lemma card_new_set:
  assumes "tcp_config_ok c" "tcp_config_typed c"
  shows "finite (new_set c buf num)" "card (new_set c buf num) = 2 * num"
proof -
  have eq: "new_set c buf num = Sigma UNIV (\<lambda>t. set (new_nodes c buf num t))"
    by (auto simp: new_set_def)
  have "card (set (new_nodes c buf num t)) = num" for t
    using distinct_node_addrs [of "peer_size c t" _ 0 num] peer_size_int(3) [OF assms, of t]
    by (simp add: distinct_card new_nodes_def)
  then show "finite (new_set c buf num)" "card (new_set c buf num) = 2 * num"
    unfolding eq UNIV_BUFFER_TYPE by (simp_all add: card_SigmaI)
qed

text \<open>A node of a live block is apart from every node of a fresh block.\<close>

lemma old_new_apart:
  assumes "in_block c p x" "y \<in> new_set c buf num"
    and fresh: "\<forall>(b, s) \<in> set (p_live p). b \<noteq> buf \<and>
      (buf + (4 + (peer_size c BUFFER_TYPE_READ + peer_size c BUFFER_TYPE_WRITE) * num) \<le> b \<or> b + s \<le> buf)"
  shows "apart c x y"
proof -
  obtain t n where y: "y = (t, n)" "n \<in> set (new_nodes c buf num t)"
    using assms(2) by (auto simp: new_set_def)
  obtain s where s: "(p_node0 p (snd x), s) \<in> set (p_live p)" "p_node0 p (snd x) + 4 \<le> snd x"
    "snd x + peer_size c (fst x) \<le> p_node0 p (snd x) + s"
    using assms(1) by (auto simp: in_block_def)
  from fresh s(1) have "buf + (4 + (peer_size c BUFFER_TYPE_READ + peer_size c BUFFER_TYPE_WRITE) * num)
      \<le> p_node0 p (snd x) \<or> p_node0 p (snd x) + s \<le> buf" by blast
  with s(2,3) new_nodes_range [OF y(2)] y(1) show ?thesis
    unfolding apart_def y(1) fst_conv snd_conv by linarith
qed

lemma apart_irrefl:
  assumes "tcp_config_ok c" "tcp_config_typed c" "apart c x y"
  shows "snd x \<noteq> snd y"
  using assms(3) peer_size_int(3) [OF assms(1,2), of "fst x"] peer_size_int(3) [OF assms(1,2), of "fst y"]
  by (auto simp: apart_def)

lemma apart_sym: "apart c x y \<Longrightarrow> apart c y x"
  by (auto simp: apart_def)

lemma new_old_apart:
  assumes "nodes_inv c p N" "x \<in> N" "y \<in> new_set c buf num"
    and "tot = 4 + (peer_size c BUFFER_TYPE_READ + peer_size c BUFFER_TYPE_WRITE) * num"
    and "\<forall>(b, s) \<in> set (p_live p). b \<noteq> buf \<and> (buf + tot \<le> b \<or> b + s \<le> buf)"
  shows "apart c x y"
  using assms by (intro old_new_apart [of c p]) (auto simp: nodes_inv_def)

lemma new_old_disjoint:
  assumes "nodes_inv c p N" "tcp_config_ok c" "tcp_config_typed c"
    and "tot = 4 + (peer_size c BUFFER_TYPE_READ + peer_size c BUFFER_TYPE_WRITE) * num"
    and "\<forall>(b, s) \<in> set (p_live p). b \<noteq> buf \<and> (buf + tot \<le> b \<or> b + s \<le> buf)"
  shows "snd ` new_set c buf num \<inter> snd ` N = {}"
  using new_old_apart [OF assms(1) _ _ assms(4,5)] apart_irrefl [OF assms(2,3)] by fastforce

lemma nodes_inv_alloc:
  assumes inv: "nodes_inv c p N" and c: "tcp_config_ok c" "tcp_config_typed c"
    and num: "0 < num" "2 * num < 2 ^ 32"
    and tot: "tot = 4 + (peer_size c BUFFER_TYPE_READ + peer_size c BUFFER_TYPE_WRITE) * num"
    and fresh: "\<forall>(b, s) \<in> set (p_live p). b \<noteq> buf \<and> (buf + tot \<le> b \<or> b + s \<le> buf)"
    and p': "p_live p' = (buf, tot) # p_live p" "p_refc p' = (p_refc p)(buf := of_nat (2 * num))"
      "\<And>a. p_node0 p' a = (if a \<in> snd ` new_set c buf num then buf else p_node0 p a)"
  shows "nodes_inv c p' (new_set c buf num \<union> N)"
proof -
  let ?new = "new_set c buf num"
  note ap = new_old_apart [OF inv _ _ tot fresh]
  have old0: "p_node0 p' (snd x) = p_node0 p (snd x)" if "x \<in> N" for x
    using new_old_disjoint [OF inv c tot fresh] that p'(3) by auto
  have new0: "p_node0 p' (snd x) = buf" if "x \<in> ?new" for x
    using that p'(3) by simp
  have ib: "in_block c p' x" if "x \<in> ?new" for x
  proof -
    have "snd x \<in> set (new_nodes c buf num (fst x))" using that by (auto simp: new_set_def)
    from new_nodes_range [OF this] new0 [OF that] p'(1) tot show ?thesis
      by (auto simp: in_block_def add.assoc)
  qed
  have ib': "in_block c p' x" if "x \<in> N" for x
    using that inv old0 [OF that] p'(1) by (auto simp: nodes_inv_def in_block_def)
  have nb: "p_node0 p (snd x) \<noteq> buf" if "x \<in> N" for x
    using that inv fresh by (fastforce simp: nodes_inv_def in_block_def)
  then have "p_node0 p' (snd x) \<noteq> buf" if "x \<in> N" for x
    using that old0 by simp
  then have ofnew: "nodes_of p' (?new \<union> N) buf = ?new"
    using new0 by (auto simp: nodes_of_def)
  have ofold: "nodes_of p' (?new \<union> N) b = nodes_of p N b" if "b \<noteq> buf" for b
    using that old0 new0 by (auto simp: nodes_of_def)
  have ap': "apart c x y" if "x \<in> ?new \<union> N" "y \<in> ?new \<union> N" "x \<noteq> y" for x y
    using that ap [of x y] ap [of y x, THEN apart_sym] inv new_nodes_apart [of "snd x" c buf num "fst x" "snd y" "fst y"]
    by (auto simp: nodes_inv_def new_set_def)
  have "unat (of_nat (2 * num) :: u32) = 2 * num" using num(2) by (rule unat_of_nat_u32)
  then have refnew: "p_refc p' buf \<noteq> 0 \<and> unat (p_refc p' buf) = card (nodes_of p' (?new \<union> N) buf)"
    using p'(2) num(1) card_new_set(2) [OF c] ofnew by (auto simp: unat_eq_0 [symmetric] simp del: unat_eq_0)
  have refold: "p_refc p' b \<noteq> 0 \<and> unat (p_refc p' b) = card (nodes_of p' (?new \<union> N) b)"
    if "(b, s) \<in> set (p_live p)" for b s
  proof -
    have "b \<noteq> buf" using that fresh by auto
    with that inv p'(2) ofold show ?thesis by (force simp: nodes_inv_def)
  qed
  show "nodes_inv c p' (?new \<union> N)"
    unfolding nodes_inv_def
  proof (intro conjI)
    show "finite (?new \<union> N)" using inv card_new_set(1) [OF c] by (simp add: nodes_inv_def)
    show "\<forall>x\<in>?new \<union> N. in_block c p' x" using ib ib' by blast
    show "\<forall>x\<in>?new \<union> N. \<forall>y\<in>?new \<union> N. x \<noteq> y \<longrightarrow> apart c x y" using ap' by blast
    show "\<forall>b\<in>set (map fst (p_live p')). p_refc p' b \<noteq> 0 \<and>
      unat (p_refc p' b) = card (nodes_of p' (?new \<union> N) b)"
      using refnew refold p'(1) by auto
  qed
qed

lemma pool_inv_alloc:
  assumes inv: "pool_inv c fl out p" and c: "tcp_config_ok c" "tcp_config_typed c"
    and num: "0 < num" "2 * num < 2 ^ 32" and buf: "buf \<noteq> null" "buf + tot \<le> addr_limit"
    and tot: "tot = 4 + (peer_size c BUFFER_TYPE_READ + peer_size c BUFFER_TYPE_WRITE) * num"
    and fresh: "\<forall>(b, s) \<in> set (p_live p). b \<noteq> buf \<and> (buf + tot \<le> b \<or> b + s \<le> buf)"
    and room: "\<And>t. unat (p_bSize p t) + num < 2 ^ 32"
    and p': "p_live p' = (buf, tot) # p_live p" "p_refc p' = (p_refc p)(buf := of_nat (2 * num))"
      "\<And>a. p_node0 p' a = (if a \<in> snd ` new_set c buf num then buf else p_node0 p a)"
      "\<And>t. p_bSize p' t = p_bSize p t + of_nat num"
    and fl': "\<And>t. flist (p_node1 p') (p_buffers p' t) (new_nodes c buf num t @ fl t)"
  shows "pool_inv c (\<lambda>t. new_nodes c buf num t @ fl t) out p'"
proof -
  have all: "all_nodes (\<lambda>t. new_nodes c buf num t @ fl t) out = new_set c buf num \<union> all_nodes fl out"
    by (auto simp: all_nodes_def new_set_def)
  note ni = nodes_inv_alloc [OF pool_invD(2) [OF inv] c num tot fresh p'(1,2,3)]
    and dj = new_old_disjoint [OF pool_invD(2) [OF inv] c tot fresh]
  have "blocks_inv (p_live p')"
    using pool_invD(1) [OF inv] fresh buf tot unfolding p'(1) blocks_inv_def by auto
  moreover have "length (new_nodes c buf num t @ fl t) = unat (p_bSize p' t)" for t
    using pool_invD(4) [OF inv, of t] room [of t] num
    by (simp add: p'(4) new_nodes_def unat_add_small unat_of_nat_u32)
  moreover have "set (new_nodes c buf num t @ fl t) \<inter> out t = {}" for t
  proof -
    have "set (new_nodes c buf num t) \<subseteq> snd ` new_set c buf num" "out t \<subseteq> snd ` all_nodes fl out"
      by (force simp: new_set_def all_nodes_def)+
    with dj pool_invD(5) [OF inv, of t] show ?thesis by auto
  qed
  ultimately show ?thesis
    using ni fl' by (simp add: pool_inv_def all)
qed

lemma snd_new_set: "snd ` new_set c buf num =
    set (new_nodes c buf num BUFFER_TYPE_READ) \<union> set (new_nodes c buf num BUFFER_TYPE_WRITE)"
proof -
  have "snd ` new_set c buf num = (\<Union>t\<in>UNIV. set (new_nodes c buf num t))"
    by (force simp: new_set_def)
  then show ?thesis by (simp add: UNIV_BUFFER_TYPE)
qed

text \<open>
  \<open>linked c buf num t p q\<close>: \<open>q\<close> is \<open>p\<close> with the new block's nodes of type \<open>t\<close>
  assigned to the block, and no other node touched.
\<close>

definition linked :: "SPTcpConfig \<Rightarrow> addr \<Rightarrow> nat \<Rightarrow> BUFFER_TYPE \<Rightarrow> bpool \<Rightarrow> bpool \<Rightarrow> bool" where
  "linked c buf num t p q \<longleftrightarrow> q = p\<lparr>p_node0 := p_node0 q, p_node1 := p_node1 q\<rparr> \<and>
     (\<forall>a. p_node0 q a = (if a \<in> set (new_nodes c buf num t) then buf else p_node0 p a)) \<and>
     (\<forall>a. a \<notin> set (new_nodes c buf num t) \<longrightarrow> p_node1 q a = p_node1 p a)"

lemma linkedD:
  assumes "linked c buf num t p q"
  shows "p_live q = p_live p" "p_refc q = p_refc p" "p_buffers q = p_buffers p"
    "p_bSize q = p_bSize p" "p_mem q = p_mem p"
    "p_node0 q a = (if a \<in> set (new_nodes c buf num t) then buf else p_node0 p a)"
    "a \<notin> set (new_nodes c buf num t) \<Longrightarrow> p_node1 q a = p_node1 p a"
proof -
  have q: "q = p\<lparr>p_node0 := p_node0 q, p_node1 := p_node1 q\<rparr>" using assms by (simp add: linked_def)
  show "p_live q = p_live p" "p_refc q = p_refc p" "p_buffers q = p_buffers p"
    "p_bSize q = p_bSize p" "p_mem q = p_mem p" by (subst q, simp)+
  show "p_node0 q a = (if a \<in> set (new_nodes c buf num t) then buf else p_node0 p a)"
    "a \<notin> set (new_nodes c buf num t) \<Longrightarrow> p_node1 q a = p_node1 p a"
    using assms by (auto simp: linked_def)
qed

lemma linked_flist:
  assumes "linked c buf num t p q" "set xs \<inter> set (new_nodes c buf num t) = {}"
  shows "flist (p_node1 q) a xs = flist (p_node1 p) a xs"
  using assms linkedD(7) [OF assms(1)] by (intro flist_cong) auto

lemma link_new:
  assumes c: "tcp_config_ok c" "tcp_config_typed c"
    and tot: "tot = 4 + (peer_size c BUFFER_TYPE_READ + peer_size c BUFFER_TYPE_WRITE) * num"
    and num: "0 < num" and old: "flist (p_node1 p) old xs" "set xs \<inter> set (new_nodes c buf num t) = {}"
  shows "\<exists>q. link_nodes buf (buf + tot) (new_base c buf num t) (peer_size c t) num old 0 p = Some q \<and>
    linked c buf num t p q \<and> flist (p_node1 q) (new_base c buf num t) (new_nodes c buf num t @ xs)"
proof -
  have fits: "new_base c buf num t + num * peer_size c t \<le> buf + tot"
    by (cases t) (simp_all add: tot new_base_def algebra_simps)
  have big: "16 \<le> peer_size c t" using peer_size_int(3) [OF c, of t] by simp
  have base: "new_base c buf num t \<noteq> null" by (cases t) (simp_all add: new_base_def)
  from link_nodes_spec [OF fits big, of buf old 0 p] base num old show ?thesis
    by (force simp: new_nodes_def linked_def)
qed

text \<open>
  A successful attempt of \<open>tryAlloc\<close>: the block is live, its counter is \<open>2 * num\<close>, and the
  new nodes stand in front of both free lists. No node lies outside the block.
\<close>

lemma tryAlloc_links:
  assumes c: "tcp_config_ok c" "tcp_config_typed c" and k: "0 < k" "int k = num"
    and tot: "tot = 4 + (peer_size c BUFFER_TYPE_READ + peer_size c BUFFER_TYPE_WRITE) * k"
    and size: "to_size_t (totalSize c num) = tot" and buf: "mal (p_live p) tot = buf" "buf \<noteq> null"
    and fl: "\<And>t. flist (p_node1 p) (p_buffers p t) (fl t)"
    and dj: "\<And>t u. set (fl t) \<inter> set (new_nodes c buf k u) = {}"
    and djRW: "set (new_nodes c buf k BUFFER_TYPE_READ) \<inter> set (new_nodes c buf k BUFFER_TYPE_WRITE) = {}"
  shows "\<exists>p'. tryAlloc mal c num p = Some (True, p') \<and> p_live p' = (buf, tot) # p_live p \<and>
    p_refc p' = (p_refc p)(buf := of_nat (2 * k)) \<and> p_mem p' = p_mem p \<and>
    (\<forall>a. p_node0 p' a = (if a \<in> snd ` new_set c buf k then buf else p_node0 p a)) \<and>
    (\<forall>t. p_bSize p' t = p_bSize p t + of_nat k) \<and>
    (\<forall>t. p_buffers p' t = new_base c buf k t) \<and>
    (\<forall>t. flist (p_node1 p') (new_base c buf k t) (new_nodes c buf k t @ fl t))"
proof -
  let ?R = BUFFER_TYPE_READ and ?W = BUFFER_TYPE_WRITE
  let ?new = "new_nodes c buf k"
  have w: "(word_of_int num :: u32) = of_nat k" "(word_of_int (num * 2) :: u32) = of_nat (2 * k)"
    using k(2) by (auto simp: mult.commute)
  have kn: "nat num = k" using k(2) by auto
  have peer: "nat (peerBSize c t) = peer_size c t" for t
    using peer_size_int(2) [OF c, of t] by simp
  let ?p1 = "p\<lparr>p_live := (buf, tot) # p_live p, p_refc := (p_refc p)(buf := of_nat (2 * k))\<rparr>"
  obtain p2 where L1: "link_nodes buf (buf + tot) (new_base c buf k ?R) (peer_size c ?R) k (p_buffers ?p1 ?R) 0 ?p1 = Some p2"
    "linked c buf k ?R ?p1 p2" "flist (p_node1 p2) (new_base c buf k ?R) (?new ?R @ fl ?R)"
    using link_new [OF c tot k(1), of ?p1 "p_buffers p ?R" "fl ?R" buf ?R] fl dj by auto
  let ?p3 = "p2\<lparr>p_buffers := (p_buffers p2)(?R := new_base c buf k ?R), p_bSize := (p_bSize p2)(?R := p_bSize p2 ?R + of_nat k)\<rparr>"
  have "flist (p_node1 ?p3) (p_buffers p ?W) (fl ?W)"
    using linked_flist [OF L1(2) dj] fl by simp
  then obtain p4 where L2: "link_nodes buf (buf + tot) (new_base c buf k ?W) (peer_size c ?W) k (p_buffers p ?W) 0 ?p3 = Some p4"
    "linked c buf k ?W ?p3 p4" "flist (p_node1 p4) (new_base c buf k ?W) (?new ?W @ fl ?W)"
    using link_new [OF c tot k(1) _ dj] by blast
  let ?p' = "p4\<lparr>p_buffers := (p_buffers p4)(?W := new_base c buf k ?W), p_bSize := (p_bSize p4)(?W := p_bSize p4 ?W + of_nat k)\<rparr>"
  have fR: "flist (p_node1 p4) (new_base c buf k ?R) (?new ?R @ fl ?R)"
    using linked_flist [OF L2(2), of "?new ?R @ fl ?R"] L1(3) djRW dj [of ?R ?W] by auto
  have "tryAlloc mal c num p = Some (True, ?p')"
    using L1(1) L2(1) buf linkedD(3) [OF L1(2)]
    by (simp add: tryAlloc_def Let_def size peer w kn new_base_def mult.commute)
  moreover have "p_buffers ?p' t = new_base c buf k t" for t
    using linkedD(3) [OF L2(2)] by (cases t) simp_all
  moreover have "flist (p_node1 ?p') (new_base c buf k t) (?new t @ fl t)" for t
    using fR L2(3) by (cases t) simp_all
  moreover have "p_bSize ?p' t = p_bSize p t + of_nat k" for t
    using linkedD(4) [OF L1(2)] linkedD(4) [OF L2(2)] by (cases t) simp_all
  ultimately show ?thesis
    using linkedD(1,2,5,6) [OF L1(2)] linkedD(1,2,5,6) [OF L2(2)]
    by (intro exI [of _ ?p']) (simp add: snd_new_set)
qed

lemma tryAlloc_ok:
  assumes inv: "pool_inv c fl out p" and pc: "pool_config c" and mal: "malloc_ok mal"
    and num: "0 < num" "num \<le> BUFFER_POOL_PEER_ALLOC_NUM c"
    and ok: "mal (p_live p) (to_size_t (totalSize c num)) \<noteq> null"
  shows "\<exists>p'. tryAlloc mal c num p = Some (True, p') \<and> pool_ok c out p' \<and>
    (\<forall>t. p_buffers p' t \<noteq> null) \<and> p_mem p' = p_mem p"
proof -
  have c: "tcp_config_ok c" "tcp_config_typed c" using pc by (simp_all add: pool_config_def)
  define k where "k = nat num"
  define tot where "tot = 4 + (peer_size c BUFFER_TYPE_READ + peer_size c BUFFER_TYPE_WRITE) * k"
  define buf where "buf = mal (p_live p) tot"
  have size: "to_size_t (totalSize c num) = tot"
    using block_size [OF pc num] by (simp add: tot_def k_def)
  have k: "0 < k" "int k = num" "k \<le> 1024"
    using num c(1) by (auto simp: k_def tcp_config_ok_def)
  have buf0: "buf \<noteq> null" using ok size by (simp add: buf_def)
  have fresh: "\<forall>(b, s) \<in> set (p_live p). b \<noteq> buf \<and> (buf + tot \<le> b \<or> b + s \<le> buf)"
    and top: "buf + tot \<le> addr_limit"
    using mal buf0 by (simp_all add: malloc_ok_def buf_def)
  have dj: "set (fl t) \<inter> set (new_nodes c buf k u) = {}" for t u
    using new_old_disjoint [OF pool_invD(2) [OF inv] c tot_def fresh]
    unfolding snd_new_set by (cases u) (force simp: all_nodes_def)+
  have djRW: "set (new_nodes c buf k BUFFER_TYPE_READ) \<inter> set (new_nodes c buf k BUFFER_TYPE_WRITE) = {}"
    using new_nodes_apart [of _ c buf k BUFFER_TYPE_READ _ BUFFER_TYPE_WRITE] apart_irrefl [OF c] by fastforce
  obtain p' where p': "tryAlloc mal c num p = Some (True, p')" "p_live p' = (buf, tot) # p_live p"
    "p_refc p' = (p_refc p)(buf := of_nat (2 * k))" "p_mem p' = p_mem p"
    "\<And>a. p_node0 p' a = (if a \<in> snd ` new_set c buf k then buf else p_node0 p a)"
    "\<And>t. p_bSize p' t = p_bSize p t + of_nat k" "\<And>t. p_buffers p' t = new_base c buf k t"
    "\<And>t. flist (p_node1 p') (new_base c buf k t) (new_nodes c buf k t @ fl t)"
    using tryAlloc_links [OF c k(1,2) tot_def size _ buf0 pool_invD(3) [OF inv] dj djRW] buf_def by blast
  have "pool_inv c (\<lambda>t. new_nodes c buf k t @ fl t) out p'"
  proof (rule pool_inv_alloc [OF inv c k(1) _ buf0 top tot_def fresh _ p'(2,3,5,6)])
    show "unat (p_bSize p t) + k < 2 ^ 32" for t using pool_room [OF inv c, of t] k(3) by simp
  qed (use k p'(7,8) in auto)
  moreover have "p_buffers p' t \<noteq> null" for t by (cases t) (simp_all add: p'(7) new_base_def)
  ultimately show ?thesis using p'(1,4) by (auto simp: pool_ok_def)
qed

section \<open>Correctness of the pool operations\<close>

text \<open>
  \<open>Alloc\<close> tries \<open>num\<close>, \<open>num / 2\<close>, \dots, \<open>1\<close> pairs: it fails only when every attempt fails,
  in particular only when \<open>malloc\<close> cannot provide a block for a single pair.
\<close>

lemma Alloc_loop_ok:
  assumes "pool_ok c out p" "pool_config c" "malloc_ok mal" "num \<le> BUFFER_POOL_PEER_ALLOC_NUM c"
  shows "(\<exists>p'. Alloc_loop mal c num p = Some (True, p') \<and> pool_ok c out p' \<and>
      (\<forall>t. p_buffers p' t \<noteq> null) \<and> p_mem p' = p_mem p) \<or>
    (Alloc_loop mal c num p = Some (False, p) \<and>
      (0 < num \<longrightarrow> mal (p_live p) (to_size_t (totalSize c 1)) = null))"
  using assms
proof (induction mal c num p rule: Alloc_loop.induct)
  case (1 mal c num p)
  obtain fl where inv: "pool_inv c fl out p" using "1.prems"(1) by (auto simp: pool_ok_def)
  consider "num \<le> 0" | "0 < num" "mal (p_live p) (to_size_t (totalSize c num)) \<noteq> null"
    | "0 < num" "mal (p_live p) (to_size_t (totalSize c num)) = null" by linarith
  then show ?case
  proof cases
    case 1
    then show ?thesis by (simp add: Alloc_loop.simps)
  next
    case 2
    from tryAlloc_ok [OF inv "1.prems"(2,3) 2(1) "1.prems"(4) 2(2)] 2(1) show ?thesis
      by (auto simp: Alloc_loop.simps [of mal c num p])
  next
    case 3
    then have t: "tryAlloc mal c num p = Some (False, p)" by (simp add: tryAlloc_def Let_def)
    have "Alloc_loop mal c num p = Alloc_loop mal c (num div 2) p"
      using 3(1) t by (simp add: Alloc_loop.simps [of mal c num p])
    moreover have "num div 2 \<le> BUFFER_POOL_PEER_ALLOC_NUM c" using 3(1) "1.prems"(4) by linarith
    moreover have "num = 1 \<or> 0 < num div 2" using 3(1) by linarith
    ultimately show ?thesis
      using "1.IH" [OF 3(1) t refl] "1.prems" 3(2) by (auto simp: Alloc_loop.simps [of mal c 0 p])
  qed
qed

lemma GetBufferInner_ok:
  assumes ok: "pool_ok c out p" and pc: "pool_config c" and mal: "malloc_ok mal"
  shows "\<exists>r p'. GetBufferInner mal c t p = Some (r, p') \<and> p_mem p' = p_mem p \<and>
    (if r = null
     then p' = p \<and> p_buffers p t = null \<and> mal (p_live p) (to_size_t (totalSize c 1)) = null
     else \<exists>n. r = n + 16 \<and> n \<notin> out t \<and> pool_ok c (out(t := insert n (out t))) p')"
proof -
  have c: "tcp_config_ok c" "tcp_config_typed c" using pc by (simp_all add: pool_config_def)
  have take: "\<exists>r q'. take_node t q = Some (r, q') \<and> r \<noteq> null \<and> p_mem q' = p_mem q \<and>
      (\<exists>n. r = n + 16 \<and> n \<notin> out t \<and> pool_ok c (out(t := insert n (out t))) q')"
    if q: "pool_ok c out q" "p_buffers q t \<noteq> null" for q
  proof -
    obtain fl where "pool_inv c fl out q" using q(1) by (auto simp: pool_ok_def)
    from pool_inv_take [OF this c q(2)] show ?thesis
      by (metis (no_types, lifting) add_is_0 pool_ok_def)
  qed
  show ?thesis
  proof (cases "p_buffers p t = null")
    case False
    from take [OF ok False] obtain r q' where r: "take_node t p = Some (r, q')" "r \<noteq> null" "p_mem q' = p_mem p"
      "\<exists>n. r = n + 16 \<and> n \<notin> out t \<and> pool_ok c (out(t := insert n (out t))) q'" by blast
    have "GetBufferInner mal c t p = Some (r, q')" using False r(1) by (simp add: GetBufferInner_def)
    with r(2,3,4) show ?thesis by simp
  next
    case True
    have num: "0 < BUFFER_POOL_PEER_ALLOC_NUM c" using c(1) by (simp add: tcp_config_ok_def)
    from Alloc_loop_ok [OF ok pc mal order_refl, folded Alloc_def] num
    consider p' where "Alloc mal c p = Some (True, p')" "pool_ok c out p'" "p_buffers p' t \<noteq> null" "p_mem p' = p_mem p"
      | "Alloc mal c p = Some (False, p)" "mal (p_live p) (to_size_t (totalSize c 1)) = null"
      by metis
    then show ?thesis
    proof cases
      case (1 p1)
      from take [OF 1(2,3)] obtain r q' where r: "take_node t p1 = Some (r, q')" "r \<noteq> null" "p_mem q' = p_mem p1"
        "\<exists>n. r = n + 16 \<and> n \<notin> out t \<and> pool_ok c (out(t := insert n (out t))) q'" by blast
      have "GetBufferInner mal c t p = Some (r, q')" using True 1(1) r(1) by (simp add: GetBufferInner_def)
      moreover have "p_mem q' = p_mem p" using r(3) 1(4) by simp
      ultimately show ?thesis using r(2,4) by simp
    next
      case 2
      with True show ?thesis by (simp add: GetBufferInner_def)
    qed
  qed
qed

lemma FreeBufferInner_ok:
  assumes ok: "pool_ok c out p" and c: "tcp_config_ok c" "tcp_config_typed c" and n: "n \<in> out t"
  shows "\<exists>p'. FreeBufferInner c t (n + 16) p = Some p' \<and> pool_ok c (out(t := out t - {n})) p' \<and> p_mem p' = p_mem p"
proof -
  obtain fl where inv: "pool_inv c fl out p" using ok by (auto simp: pool_ok_def)
  have N: "(t, n) \<in> all_nodes fl out" using n by (simp add: all_nodes_def)
  have v: "valid_at p n 16" using in_block_valid(1) [OF pool_inv_node [OF inv N] c] by simp
  show ?thesis
  proof (cases "word_of_int (BUFFER_POOL_MIN_BLOCK_NUM c) \<le> p_bSize p t")
    case False
    then have "p_bSize p t < word_of_int (BUFFER_POOL_MIN_BLOCK_NUM c)" by (simp add: not_le)
    from pool_inv_put [OF inv c n this] False v show ?thesis
      by (auto simp: FreeBufferInner_def pool_ok_def)
  next
    case True
    from drop_ref_ok [OF pool_invD(1,2) [OF inv] N c] obtain p' where
      p': "drop_ref (p_node0 p n) p = Some p'" "blocks_inv (p_live p')" "nodes_inv c p' (all_nodes fl out - {(t, n)})"
        "p_node1 p' = p_node1 p" "p_buffers p' = p_buffers p" "p_bSize p' = p_bSize p" "p_mem p' = p_mem p"
      by auto
    have "all_nodes fl (out(t := out t - {n})) = all_nodes fl out - {(t, n)}"
      using out_not_free [OF inv c n] by (auto simp: all_nodes_def split: if_splits)
    with p' pool_invD(3,4,5) [OF inv] have "pool_inv c fl (out(t := out t - {n})) p'"
      by (auto simp: pool_inv_def)
    with True v p' show ?thesis by (auto simp: FreeBufferInner_def pool_ok_def)
  qed
qed

lemma release_list_ok:
  assumes "blocks_inv (p_live p)" "nodes_inv c p N" "tcp_config_ok c" "tcp_config_typed c"
    "flist (p_node1 p) (p_buffers p t) xs" "Pair t ` set xs \<subseteq> N"
  shows "\<exists>p'. release_list t p = Some p' \<and> blocks_inv (p_live p') \<and> nodes_inv c p' (N - Pair t ` set xs) \<and>
    p_buffers p' = (p_buffers p)(t := null) \<and> p_node1 p' = p_node1 p"
  using assms
proof (induction xs arbitrary: p N)
  case Nil
  then show ?case by (auto simp: release_list.simps)
next
  case (Cons x xs)
  let ?p1 = "p\<lparr>p_buffers := (p_buffers p)(t := p_node1 p x)\<rparr>"
  have x: "p_buffers p t = x" "x \<noteq> null" "(t, x) \<in> N" using Cons.prems(5,6) by auto
  have xs: "x \<notin> set xs" using flist_distinct [OF Cons.prems(5)] by simp
  have v: "valid_at p x 16"
    using in_block_valid(1) [OF _ Cons.prems(3,4), of p "(t, x)"] Cons.prems(2) x(3) by (auto simp: nodes_inv_def)
  have "blocks_inv (p_live ?p1)" "nodes_inv c ?p1 N" using Cons.prems(1,2) by simp_all
  from drop_ref_ok [OF this x(3) Cons.prems(3,4)] obtain p2 where
    p2: "drop_ref (p_node0 p x) ?p1 = Some p2" "blocks_inv (p_live p2)" "nodes_inv c p2 (N - {(t, x)})"
      "p_node1 p2 = p_node1 p" "p_buffers p2 = (p_buffers p)(t := p_node1 p x)" by auto
  have "Pair t ` set xs \<subseteq> N - {(t, x)}" using Cons.prems(6) xs by auto
  moreover have "flist (p_node1 p2) (p_buffers p2 t) xs" using p2(4,5) Cons.prems(5) by simp
  ultimately obtain p' where r: "release_list t p2 = Some p'" and b: "blocks_inv (p_live p')"
    and n: "nodes_inv c p' (N - {(t, x)} - Pair t ` set xs)"
    and e: "p_buffers p' = (p_buffers p2)(t := null)" "p_node1 p' = p_node1 p2"
    using Cons.IH [OF p2(2,3) Cons.prems(3,4)] by blast
  have "N - {(t, x)} - Pair t ` set xs = N - Pair t ` set (x # xs)" by auto
  with n have n': "nodes_inv c p' (N - Pair t ` set (x # xs))" by (simp only:)
  have r': "release_list t p = Some p'"
    using x v p2(1) r by (subst release_list.simps) (simp add: Let_def)
  have e': "p_buffers p' = (p_buffers p)(t := null)" "p_node1 p' = p_node1 p" using e p2(4,5) by simp_all
  from r' b n' e' show ?case by blast
qed

text \<open>With no buffer in use, \<open>releaseAllBlocks\<close> frees every block exactly once.\<close>

lemma releaseAllBlocks_ok:
  assumes ok: "pool_ok c (\<lambda>_. {}) p" and c: "tcp_config_ok c" "tcp_config_typed c"
  shows "\<exists>p'. releaseAllBlocks p = Some p' \<and> p_live p' = []"
proof -
  let ?R = BUFFER_TYPE_READ and ?W = BUFFER_TYPE_WRITE
  obtain fl where inv: "pool_inv c fl (\<lambda>_. {}) p" using ok by (auto simp: pool_ok_def)
  let ?N = "all_nodes fl (\<lambda>_. {})"
  have sub: "Pair t ` set (fl t) \<subseteq> ?N" for t by (auto simp: all_nodes_def)
  from release_list_ok [OF pool_invD(1,2) [OF inv] c pool_invD(3) [OF inv] sub]
  obtain p1 where p1: "release_list ?R p = Some p1" "blocks_inv (p_live p1)" "nodes_inv c p1 (?N - Pair ?R ` set (fl ?R))"
    "p_buffers p1 = (p_buffers p)(?R := null)" "p_node1 p1 = p_node1 p" by blast
  have "flist (p_node1 p1) (p_buffers p1 ?W) (fl ?W)" using pool_invD(3) [OF inv, of ?W] p1 by simp
  moreover have "Pair ?W ` set (fl ?W) \<subseteq> ?N - Pair ?R ` set (fl ?R)" using sub by auto
  ultimately obtain p2 where p2: "release_list ?W p1 = Some p2" "blocks_inv (p_live p2)"
    "nodes_inv c p2 (?N - Pair ?R ` set (fl ?R) - Pair ?W ` set (fl ?W))"
    using release_list_ok [OF p1(2,3) c] by blast
  have "x \<in> Pair ?R ` set (fl ?R) \<union> Pair ?W ` set (fl ?W)" if "x \<in> ?N" for x
    using that by (cases x; cases "fst x") (auto simp: all_nodes_def)
  then have "?N - Pair ?R ` set (fl ?R) - Pair ?W ` set (fl ?W) = {}" by auto
  with p2(3) have "\<forall>b \<in> set (map fst (p_live p2)). p_refc p2 b \<noteq> 0 \<and> unat (p_refc p2 b) = 0"
    by (simp add: nodes_inv_def nodes_of_def)
  then have "p_live p2 = []" by (cases "p_live p2") (auto simp: unat_eq_0)
  with p1(1) p2(1) show ?thesis by (simp add: releaseAllBlocks_def)
qed

section \<open>The public interface\<close>

definition GetReadBufferInner :: "malloc_fun \<Rightarrow> SPTcpConfig \<Rightarrow> bpool \<Rightarrow> (addr \<times> bpool) option" where
  "GetReadBufferInner mal c p = GetBufferInner mal c BUFFER_TYPE_READ p"

definition GetWriteBufferInner :: "malloc_fun \<Rightarrow> SPTcpConfig \<Rightarrow> bpool \<Rightarrow> (addr \<times> bpool) option" where
  "GetWriteBufferInner mal c p = GetBufferInner mal c BUFFER_TYPE_WRITE p"

definition FreeReadBufferInner :: "SPTcpConfig \<Rightarrow> addr \<Rightarrow> bpool \<Rightarrow> bpool option" where
  "FreeReadBufferInner c buf p = FreeBufferInner c BUFFER_TYPE_READ buf p"

definition FreeWriteBufferInner :: "SPTcpConfig \<Rightarrow> addr \<Rightarrow> bpool \<Rightarrow> bpool option" where
  "FreeWriteBufferInner c buf p = FreeBufferInner c BUFFER_TYPE_WRITE buf p"

definition GetBuffer :: "malloc_fun \<Rightarrow> SPTcpConfig \<Rightarrow> BUFFER_TYPE \<Rightarrow> bpool \<Rightarrow> (addr \<times> bpool) option" where
  "GetBuffer mal c type p =
     (if type = BUFFER_TYPE_READ then GetReadBufferInner mal c p else GetWriteBufferInner mal c p)"

definition FreeBuffer :: "SPTcpConfig \<Rightarrow> BUFFER_TYPE \<Rightarrow> addr \<Rightarrow> bpool \<Rightarrow> bpool option" where
  "FreeBuffer c type buf p =
     (if type = BUFFER_TYPE_READ then FreeReadBufferInner c buf p else FreeWriteBufferInner c buf p)"

lemma GetBuffer_eq: "GetBuffer mal c t p = GetBufferInner mal c t p"
  by (cases t) (simp_all add: GetBuffer_def GetReadBufferInner_def GetWriteBufferInner_def)

lemma FreeBuffer_eq: "FreeBuffer c t buf p = FreeBufferInner c t buf p"
  by (cases t) (simp_all add: FreeBuffer_def FreeReadBufferInner_def FreeWriteBufferInner_def)

text \<open>
  The view of a client: \<open>H\<close> is the set of payload pointers handed out and not yet
  returned, with their types.
\<close>

definition held_nodes :: "(BUFFER_TYPE \<times> addr) set \<Rightarrow> BUFFER_TYPE \<Rightarrow> addr set" where
  "held_nodes H t = {n. (t, n + 16) \<in> H}"

definition pool_ready :: "malloc_fun \<Rightarrow> SPTcpConfig \<Rightarrow> (BUFFER_TYPE \<times> addr) set \<Rightarrow> bpool \<Rightarrow> bool" where
  "pool_ready mal c H p \<longleftrightarrow> malloc_ok mal \<and> pool_config c \<and> (\<forall>x \<in> H. 16 \<le> snd x) \<and>
     pool_ok c (held_nodes H) p"

text \<open>Payloads \<open>[r, r + bsize)\<close> of two buffers do not overlap.\<close>

definition payload_disjoint :: "SPTcpConfig \<Rightarrow> BUFFER_TYPE \<times> addr \<Rightarrow> BUFFER_TYPE \<times> addr \<Rightarrow> bool" where
  "payload_disjoint c x y \<longleftrightarrow> snd x + nat (cfg_bsize c (fst x)) \<le> snd y \<or>
     snd y + nat (cfg_bsize c (fst y)) \<le> snd x"

definition payload_live :: "SPTcpConfig \<Rightarrow> bpool \<Rightarrow> BUFFER_TYPE \<times> addr \<Rightarrow> bool" where
  "payload_live c p x \<longleftrightarrow> valid_at p (snd x) (nat (cfg_bsize c (fst x)))"

lemma held_nodes_insert: "held_nodes (insert (t, n + 16) H) = (held_nodes H)(t := insert n (held_nodes H t))"
  by (rule ext) (auto simp: held_nodes_def)

lemma held_nodes_remove: "held_nodes (H - {(t, n + 16)}) = (held_nodes H)(t := held_nodes H t - {n})"
  by (rule ext) (auto simp: held_nodes_def)

lemma held_nodes_empty [simp]: "held_nodes {} = (\<lambda>_. {})"
  by (rule ext) (simp add: held_nodes_def)

lemma pool_ready_init: "malloc_ok mal \<Longrightarrow> pool_config c \<Longrightarrow> pool_ready mal c {} (pool_init mem)"
  using pool_inv_init [of c mem] by (auto simp: pool_ready_def pool_ok_def)

lemma GetBuffer_ready:
  assumes "pool_ready mal c H p"
  shows "\<exists>r p'. GetBuffer mal c t p = Some (r, p') \<and> p_mem p' = p_mem p \<and>
    (if r = null then p' = p \<and> p_buffers p t = null \<and> mal (p_live p) (to_size_t (totalSize c 1)) = null
     else (t, r) \<notin> H \<and> pool_ready mal c (insert (t, r) H) p')"
proof -
  from assms have a: "pool_ok c (held_nodes H) p" "pool_config c" "malloc_ok mal" by (simp_all add: pool_ready_def)
  from GetBufferInner_ok [OF this, of t] obtain r p' where
    g: "GetBufferInner mal c t p = Some (r, p')" "p_mem p' = p_mem p" and
    c: "if r = null then p' = p \<and> p_buffers p t = null \<and> mal (p_live p) (to_size_t (totalSize c 1)) = null
        else \<exists>n. r = n + 16 \<and> n \<notin> held_nodes H t \<and> pool_ok c ((held_nodes H)(t := insert n (held_nodes H t))) p'"
    by blast
  show ?thesis
  proof (cases "r = null")
    case True
    with g c show ?thesis by (simp add: GetBuffer_eq)
  next
    case False
    with c obtain n where n: "r = n + 16" "n \<notin> held_nodes H t"
      "pool_ok c ((held_nodes H)(t := insert n (held_nodes H t))) p'" by auto
    then have "(t, r) \<notin> H" by (simp add: held_nodes_def)
    moreover have "pool_ready mal c (insert (t, r) H) p'"
      using assms n(1,3) unfolding pool_ready_def by (simp add: held_nodes_insert)
    ultimately show ?thesis using g False by (simp add: GetBuffer_eq)
  qed
qed

lemma FreeBuffer_ready:
  assumes "pool_ready mal c H p" "(t, r) \<in> H"
  shows "\<exists>p'. FreeBuffer c t r p = Some p' \<and> p_mem p' = p_mem p \<and> pool_ready mal c (H - {(t, r)}) p'"
proof -
  from assms have a: "pool_ok c (held_nodes H) p" "tcp_config_ok c" "tcp_config_typed c" and "16 \<le> r"
    by (auto simp: pool_ready_def pool_config_def)
  then obtain n where n: "r = n + 16" by (metis le_add_diff_inverse2)
  then have "n \<in> held_nodes H t" using assms(2) by (simp add: held_nodes_def)
  from FreeBufferInner_ok [OF a this] obtain p' where "FreeBufferInner c t (n + 16) p = Some p'"
    "pool_ok c ((held_nodes H)(t := held_nodes H t - {n})) p'" "p_mem p' = p_mem p" by blast
  moreover from this(2) assms(1) have "pool_ready mal c (H - {(t, r)}) p'"
    unfolding pool_ready_def n by (simp add: held_nodes_remove)
  ultimately show ?thesis using n by (auto simp: FreeBuffer_eq)
qed

lemma pool_ready_node:
  assumes "pool_ready mal c H p" "x \<in> H"
  obtains fl where "pool_inv c fl (held_nodes H) p" "(fst x, snd x - 16) \<in> all_nodes fl (held_nodes H)"
    "16 \<le> snd x" "tcp_config_ok c" "tcp_config_typed c"
  using assms by (cases x) (fastforce simp: pool_ready_def pool_config_def pool_ok_def all_nodes_def held_nodes_def)

lemma pool_ready_live:
  assumes "pool_ready mal c H p" "x \<in> H"
  shows "payload_live c p x"
proof -
  obtain fl where inv: "pool_inv c fl (held_nodes H) p" and x: "(fst x, snd x - 16) \<in> all_nodes fl (held_nodes H)"
    "16 \<le> snd x" and c: "tcp_config_ok c" "tcp_config_typed c" using pool_ready_node [OF assms] by metis
  from pool_inv_node [OF inv x(1)] obtain s where
    "(p_node0 p (snd x - 16), s) \<in> set (p_live p)" "p_node0 p (snd x - 16) + 4 \<le> snd x - 16"
    "snd x - 16 + peer_size c (fst x) \<le> p_node0 p (snd x - 16) + s" by (auto simp: in_block_def)
  moreover have "peer_size c (fst x) = nat (cfg_bsize c (fst x)) + 16"
    using tcp_config_bsize [OF c, of "fst x"] by (simp add: peer_size_def nat_add_distrib)
  ultimately show ?thesis using x(2) unfolding payload_live_def by (intro valid_atI) auto
qed

lemma pool_ready_disjoint:
  assumes "pool_ready mal c H p" "x \<in> H" "y \<in> H" "x \<noteq> y"
  shows "payload_disjoint c x y"
proof -
  obtain fl where inv: "pool_inv c fl (held_nodes H) p" and c: "tcp_config_ok c" "tcp_config_typed c"
    using pool_ready_node [OF assms(1,2)] by metis
  have n: "(fst z, snd z - 16) \<in> all_nodes fl (held_nodes H) \<and> 16 \<le> snd z" if "z \<in> H" for z
    using assms(1) that by (cases z) (fastforce simp: pool_ready_def all_nodes_def held_nodes_def)
  have "(fst x, snd x - 16) \<noteq> (fst y, snd y - 16)"
    using assms(4) n [OF assms(2)] n [OF assms(3)] by (cases x; cases y) auto
  then have "apart c (fst x, snd x - 16) (fst y, snd y - 16)"
    using pool_invD(2) [OF inv] n [OF assms(2)] n [OF assms(3)] unfolding nodes_inv_def by blast
  moreover have "peer_size c (fst z) = nat (cfg_bsize c (fst z)) + 16" for z :: "BUFFER_TYPE \<times> addr"
    using tcp_config_bsize [OF c, of "fst z"] by (simp add: peer_size_def nat_add_distrib)
  ultimately show ?thesis
    using n [OF assms(2)] n [OF assms(3)] by (auto simp: apart_def payload_disjoint_def)
qed

section \<open>The contract of a buffer source\<close>

text \<open>
  A client acquires and releases buffers in some order. \<open>held\<close> lists the buffers it has,
  in the order of acquisition; releasing names a position in this list, so that only
  buffers in use are returned.
\<close>

datatype pool_op = Acquire BUFFER_TYPE | Release nat

fun pool_run :: "(BUFFER_TYPE \<Rightarrow> 's \<Rightarrow> (addr \<times> 's) option) \<Rightarrow> (BUFFER_TYPE \<Rightarrow> addr \<Rightarrow> 's \<Rightarrow> 's option) \<Rightarrow>
    pool_op list \<Rightarrow> (BUFFER_TYPE \<times> addr) list \<Rightarrow> 's \<Rightarrow> ((BUFFER_TYPE \<times> addr) list \<times> 's) option" where
  "pool_run get free [] held s = Some (held, s)"
| "pool_run get free (Acquire t # ops) held s =
     (case get t s of None \<Rightarrow> None
      | Some (r, s') \<Rightarrow> pool_run get free ops (if r = null then held else held @ [(t, r)]) s')"
| "pool_run get free (Release i # ops) held s =
     (if i < length held then
        (case free (fst (held ! i)) (snd (held ! i)) s of None \<Rightarrow> None
         | Some s' \<Rightarrow> pool_run get free ops (take i held @ drop (Suc i) held) s')
      else pool_run get free ops held s)"

lemma pool_run_append:
  "pool_run get free (ops @ ops') held s =
     (case pool_run get free ops held s of None \<Rightarrow> None | Some (h, s') \<Rightarrow> pool_run get free ops' h s')"
  by (induction get free ops held s rule: pool_run.induct) (auto split: option.split)

lemma pool_run_length:
  "pool_run get free ops held s = Some (h, s') \<Longrightarrow> length h \<le> length held + length ops"
  by (induction get free ops held s rule: pool_run.induct) (fastforce split: option.splits if_splits)+

lemma pool_run_release_length:
  "pool_run get free (replicate n (Release 0)) held s = Some (h, s') \<Longrightarrow> length h = length held - n"
  by (induction n arbitrary: held s) (fastforce split: option.splits if_splits)+

locale buffer_source =
  fixes ok :: "(BUFFER_TYPE \<times> addr) set \<Rightarrow> 's \<Rightarrow> bool"
    and get :: "BUFFER_TYPE \<Rightarrow> 's \<Rightarrow> (addr \<times> 's) option"
    and free :: "BUFFER_TYPE \<Rightarrow> addr \<Rightarrow> 's \<Rightarrow> 's option"
  assumes get_ok: "ok H s \<Longrightarrow> \<exists>r s'. get t s = Some (r, s') \<and>
      (if r = null then s' = s else (t, r) \<notin> H \<and> ok (insert (t, r) H) s')"
    and free_ok: "ok H s \<Longrightarrow> (t, r) \<in> H \<Longrightarrow> \<exists>s'. free t r s = Some s' \<and> ok (H - {(t, r)}) s'"
begin

lemma run_ok:
  assumes "ok (set held) s" "distinct held"
  shows "\<exists>held' s'. pool_run get free ops held s = Some (held', s') \<and> ok (set held') s' \<and> distinct held'"
  using assms
proof (induction ops arbitrary: held s)
  case Nil
  then show ?case by simp
next
  case (Cons a ops)
  show ?case
  proof (cases a)
    case (Acquire t)
    from get_ok [OF Cons.prems(1), of t] obtain r s' where g: "get t s = Some (r, s')"
      and r: "if r = null then s' = s else (t, r) \<notin> set held \<and> ok (insert (t, r) (set held)) s'" by blast
    let ?h = "if r = null then held else held @ [(t, r)]"
    have "ok (set ?h) s'" "distinct ?h" using r Cons.prems by (auto split: if_splits)
    from Cons.IH [OF this] g Acquire show ?thesis by simp
  next
    case (Release i)
    show ?thesis
    proof (cases "i < length held")
      case True
      let ?h = "take i held @ drop (Suc i) held"
      have split: "held = take i held @ held ! i # drop (Suc i) held" by (rule id_take_nth_drop [OF True])
      have "distinct (take i held @ held ! i # drop (Suc i) held)" using Cons.prems(2) split by metis
      then have h: "distinct ?h" "held ! i \<notin> set ?h" by auto
      have "set held = insert (held ! i) (set ?h)" using arg_cong [OF split, of set] by simp
      with h have s: "set held - {held ! i} = set ?h" by simp
      from free_ok [OF Cons.prems(1), of "fst (held ! i)" "snd (held ! i)"] True obtain s' where
        "free (fst (held ! i)) (snd (held ! i)) s = Some s'" "ok (set held - {held ! i}) s'" by auto
      with Cons.IH [of ?h s'] h s True Release show ?thesis by simp
    next
      case False
      with Cons Release show ?thesis by simp
    qed
  qed
qed

lemma run_return_all:
  assumes "ok {} s"
  shows "\<exists>s'. pool_run get free (ops @ replicate (length ops) (Release 0)) [] s = Some ([], s') \<and> ok {} s'"
proof -
  let ?ops = "ops @ replicate (length ops) (Release 0)"
  obtain h1 s1 where 1: "pool_run get free ops [] s = Some (h1, s1)" using run_ok [of "[]" s ops] assms by auto
  obtain h2 s2 where 2: "pool_run get free ?ops [] s = Some (h2, s2)" "ok (set h2) s2"
    using run_ok [of "[]" s ?ops] assms by auto
  then have "length h2 = length h1 - length ops" using 1 by (simp add: pool_run_append pool_run_release_length)
  with pool_run_length [OF 1] have "h2 = []" by simp
  with 2 show ?thesis by simp
qed

end

interpretation pool: buffer_source "pool_ready mal c" "GetBuffer mal c" "FreeBuffer c"
  for mal :: malloc_fun and c :: SPTcpConfig
proof
  fix H p t
  assume "pool_ready mal c H p"
  from GetBuffer_ready [OF this, of t]
  show "\<exists>r s'. GetBuffer mal c t p = Some (r, s') \<and>
    (if r = null then s' = p else (t, r) \<notin> H \<and> pool_ready mal c (insert (t, r) H) s')"
    by (elim exE, rename_tac r p', rule_tac x = r in exI, rule_tac x = p' in exI) (simp split: if_splits)
next
  fix H p t r
  assume "pool_ready mal c H p" "(t, r) \<in> H"
  from FreeBuffer_ready [OF this]
  show "\<exists>s'. FreeBuffer c t r p = Some s' \<and> pool_ready mal c (H - {(t, r)}) s'" by blast
qed

lemma pool_reset_ready:
  assumes "pool_ready mal c {} p"
  shows "\<exists>p'. pool_reset p = Some p' \<and> p_live p' = [] \<and> pool_ready mal c {} p'"
proof -
  from assms have "pool_ok c (\<lambda>_. {}) p" and c: "tcp_config_ok c" "tcp_config_typed c"
    by (simp_all add: pool_ready_def pool_config_def)
  from releaseAllBlocks_ok [OF this] obtain p1 where p1: "releaseAllBlocks p = Some p1" "p_live p1 = []" by blast
  let ?p = "p1\<lparr>p_bSize := (\<lambda>_. 0), p_buffers := (\<lambda>_. null)\<rparr>"
  have "pool_inv c (\<lambda>_. []) (\<lambda>_. {}) ?p"
    using p1(2) by (auto simp: pool_inv_def blocks_inv_def nodes_inv_def all_nodes_def)
  with assms have "pool_ready mal c {} ?p" unfolding pool_ready_def by (auto simp: pool_ok_def)
  with p1 show ?thesis by (simp add: pool_reset_def)
qed

text \<open>An allocator that satisfies the hypothesis on \<open>malloc\<close>: it never reuses memory.\<close>

definition bump_malloc :: malloc_fun where
  "bump_malloc live sz =
     (let a = Suc (fold (\<lambda>(b, s) m. max (b + s) m) live 15) in if a + sz \<le> addr_limit then a else null)"

lemma fold_max_ge:
  "m \<le> fold (\<lambda>(b, s) m. max (b + s) m) live (m :: nat)"
  "(b, s) \<in> set live \<Longrightarrow> b + s \<le> fold (\<lambda>(b, s) m. max (b + s) m) live (m :: nat)"
proof (induction live arbitrary: m)
  case (Cons x xs)
  obtain b' s' where x: "x = (b', s')" by (cases x)
  { case 1
    from Cons.IH(1) [of "max (b' + s') m"] show ?case by (simp add: x)
  next
    case 2
    with Cons.IH(1) [of "max (b' + s') m"] Cons.IH(2) [of "max (b' + s') m"] show ?case by (auto simp: x) }
qed simp_all

lemma bump_malloc_ok: "malloc_ok bump_malloc"
  unfolding malloc_ok_def bump_malloc_def Let_def
  using fold_max_ge(2) [where m = 15] by (fastforce split: if_splits)

lemma pool_config_default: "pool_config tcp_config_default"
  using tcp_config_default_ok by (simp add: pool_config_def) (simp add: tcp_config_default_def)

section \<open>Properties\<close>

text \<open>
  C11. Memory safety of the pool. Under the contract of \<open>malloc\<close> and a configuration whose
  block size fits in \<open>int\<close>, a client that acquires and releases buffers in any order, from
  the empty pool, never makes the pool touch memory outside its live blocks. The buffers
  the client holds are pairwise distinct, lie in live blocks and do not overlap.
\<close>

theorem pool_client_safe:
  assumes "malloc_ok mal" "pool_config c"
  shows "\<exists>held p. pool_run (GetBuffer mal c) (FreeBuffer c) ops [] (pool_init mem) = Some (held, p) \<and>
    distinct held \<and> (\<forall>x \<in> set held. payload_live c p x) \<and>
    (\<forall>x \<in> set held. \<forall>y \<in> set held. x \<noteq> y \<longrightarrow> payload_disjoint c x y)"
proof -
  from pool.run_ok [of mal c "[]" "pool_init mem" ops] pool_ready_init [OF assms]
  obtain held p where "pool_run (GetBuffer mal c) (FreeBuffer c) ops [] (pool_init mem) = Some (held, p)"
    "pool_ready mal c (set held) p" "distinct held" by auto
  with pool_ready_live pool_ready_disjoint show ?thesis by metis
qed

theorem pool_client_safe_witness:
  "\<exists>held p. pool_run (GetBuffer bump_malloc tcp_config_default) (FreeBuffer tcp_config_default)
      [Acquire BUFFER_TYPE_READ, Acquire BUFFER_TYPE_WRITE, Release 0, Acquire BUFFER_TYPE_WRITE] []
      (pool_init (\<lambda>_. 0)) = Some (held, p) \<and>
    distinct held \<and> (\<forall>x \<in> set held. payload_live tcp_config_default p x) \<and>
    (\<forall>x \<in> set held. \<forall>y \<in> set held. x \<noteq> y \<longrightarrow> payload_disjoint tcp_config_default x y)"
  by (rule pool_client_safe [OF bump_malloc_ok pool_config_default])

text \<open>
  C18. No leak and no double free. After any sequence of operations, once the client has
  returned every buffer, \<open>reset\<close> returns every block to \<open>malloc\<close>, each exactly once, and
  terminates although it walks linked lists.
\<close>

theorem pool_reset_frees_all:
  assumes "malloc_ok mal" "pool_config c"
  shows "\<exists>p p'. pool_run (GetBuffer mal c) (FreeBuffer c) (ops @ replicate (length ops) (Release 0)) []
      (pool_init mem) = Some ([], p) \<and> pool_reset p = Some p' \<and> p_live p' = []"
  using pool.run_return_all [OF pool_ready_init [OF assms]] pool_reset_ready by metis

theorem pool_reset_frees_all_witness:
  "\<exists>p p'. pool_run (GetBuffer bump_malloc tcp_config_default) (FreeBuffer tcp_config_default)
      ([Acquire BUFFER_TYPE_READ, Acquire BUFFER_TYPE_WRITE] @ replicate 2 (Release 0)) []
      (pool_init (\<lambda>_. 0)) = Some ([], p) \<and> pool_reset p = Some p' \<and> p_live p' = []"
  using pool_reset_frees_all [OF bump_malloc_ok pool_config_default,
      of "[Acquire BUFFER_TYPE_READ, Acquire BUFFER_TYPE_WRITE]"] by (simp add: numeral_2_eq_2)

text \<open>
  The back-off of \<open>Alloc\<close> is complete: \<open>GetBuffer\<close> returns a null pointer only when the
  free list is empty and \<open>malloc\<close> refuses even a block for a single pair of buffers, and it
  then leaves the pool as it was. Otherwise the buffer is one the client does not hold.
\<close>

theorem GetBuffer_complete:
  assumes "pool_ready mal c H p"
  shows "\<exists>r p'. GetBuffer mal c t p = Some (r, p') \<and>
    (if r = null then p' = p \<and> p_buffers p t = null \<and> mal (p_live p) (to_size_t (totalSize c 1)) = null
     else (t, r) \<notin> H \<and> pool_ready mal c (insert (t, r) H) p')"
  using GetBuffer_ready [OF assms] by blast

theorem GetBuffer_complete_witness:
  "\<exists>r p'. GetBuffer bump_malloc tcp_config_default BUFFER_TYPE_READ (pool_init (\<lambda>_. 0)) = Some (r, p') \<and>
    (if r = null then p' = pool_init (\<lambda>_. 0) \<and> p_buffers (pool_init (\<lambda>_. 0)) BUFFER_TYPE_READ = null \<and>
       bump_malloc (p_live (pool_init (\<lambda>_. 0))) (to_size_t (totalSize tcp_config_default 1)) = null
     else (BUFFER_TYPE_READ, r) \<notin> {} \<and>
       pool_ready bump_malloc tcp_config_default (insert (BUFFER_TYPE_READ, r) {}) p')"
  by (rule GetBuffer_complete [OF pool_ready_init [OF bump_malloc_ok pool_config_default]])

text \<open>A configuration that passes the assertions and overflows the block size.\<close>

definition overflow_config :: SPTcpConfig where
  "overflow_config = tcp_config_default\<lparr>READ_BSIZE := 2097152, WRITE_BSIZE := 2097152,
     BUFFER_POOL_PEER_ALLOC_NUM := 1024, BUFFER_POOL_MIN_BLOCK_NUM := 1024\<rparr>"

text \<open>
  C35. The bound of \<^const>\<open>pool_config\<close> is needed. A configuration with 2 MiB buffers and 1024
  pairs per block passes every assertion of \<open>Config\<close>, but the size of a block wraps around
  to 32772 bytes and \<open>tryAlloc\<close> writes its second node outside the block.
\<close>

theorem tryAlloc_overflow:
  "tcp_config_ok overflow_config \<and> totalSize overflow_config 1024 = 32772 \<and>
   tryAlloc bump_malloc overflow_config 1024 (pool_init mem) = None"
proof -
  have c: "tcp_config_ok overflow_config"
    by (simp add: overflow_config_def tcp_config_default_def tcp_config_ok_def epoll_defs)
  have p: "peerBSize overflow_config t = 2097168" for t
    by (cases t) (simp_all add: peerBSize_def cfg_bsize_def overflow_config_def to_int32_id)
  have s: "totalSize overflow_config 1024 = 32772"
    by (simp add: totalSize_def p to_int32_def signed_of_int signed_take_bit_eq_take_bit_minus take_bit_int_def)
  have m: "bump_malloc [] 32772 = 16" by (simp add: bump_malloc_def addr_limit_def)
  have "tryAlloc bump_malloc overflow_config 1024 (pool_init mem) = None"
    by (simp add: tryAlloc_def p s m Let_def to_size_t_id pool_init_def link_nodes.simps)
  with c s show ?thesis by simp
qed

end
