(* ===== verification/SP_Fifo.thy ===== *)
theory SP_Fifo
  imports SP_Prelude
begin

text \<open>
  The two queue contracts of the library. \<open>bounded_fifo\<close>: a container that accepts as many of
  the offered elements as fit and delivers them in order; the byte buffer of a connection and
  the task queue of the thread pool both promise it. \<open>linear_window\<close>: direct access to the
  contiguous part of the free space and of the stored elements, which system calls use. The
  consequences are proved once, from the laws.
\<close>

section \<open>Sequences of operations\<close>

datatype 'a fifo_op = Put "'a list" | Get nat

fun op_size :: "'a fifo_op \<Rightarrow> nat" where
  "op_size (Put xs) = length xs"
| "op_size (Get n) = n"

text \<open>A run collects the elements that were accepted and the elements that were delivered.\<close>

fun fifo_run :: "('a list \<Rightarrow> 's \<Rightarrow> (nat \<times> 's) option) \<Rightarrow> (nat \<Rightarrow> 's \<Rightarrow> ('a list \<times> 's) option) \<Rightarrow>
    'a fifo_op list \<Rightarrow> 's \<Rightarrow> ('a list \<times> 'a list \<times> 's) option" where
  "fifo_run put get [] s = Some ([], [], s)"
| "fifo_run put get (Put xs # ops) s = do {
     (k, s1) \<leftarrow> put xs s;
     (acc, del, s2) \<leftarrow> fifo_run put get ops s1;
     Some (take k xs @ acc, del, s2)
   }"
| "fifo_run put get (Get n # ops) s = do {
     (ys, s1) \<leftarrow> get n s;
     (acc, del, s2) \<leftarrow> fifo_run put get ops s1;
     Some (acc, ys @ del, s2)
   }"

section \<open>Bounded queues\<close>

locale bounded_fifo =
  fixes inv :: "'s \<Rightarrow> bool"
    and items :: "'s \<Rightarrow> 'a list"
    and cap :: "'s \<Rightarrow> nat"
    and limit :: nat
    and put :: "'a list \<Rightarrow> 's \<Rightarrow> (nat \<times> 's) option"
    and get :: "nat \<Rightarrow> 's \<Rightarrow> ('a list \<times> 's) option"
  assumes bounded: "inv s \<Longrightarrow> length (items s) \<le> cap s"
    and put_law: "inv s \<Longrightarrow> length xs < limit \<Longrightarrow> k = min (length xs) (cap s - length (items s)) \<Longrightarrow>
      \<exists>s'. put xs s = Some (k, s') \<and> inv s' \<and> items s' = items s @ take k xs \<and> cap s' = cap s"
    and get_law: "inv s \<Longrightarrow> n < limit \<Longrightarrow>
      \<exists>s'. get n s = Some (take n (items s), s') \<and> inv s' \<and> items s' = drop n (items s) \<and> cap s' = cap s"
begin

text \<open>Nothing is lost, duplicated or reordered by any sequence of operations.\<close>

lemma run_stream:
  assumes "inv s" "list_all (\<lambda>a. op_size a < limit) ops"
  shows "\<exists>acc del s'. fifo_run put get ops s = Some (acc, del, s') \<and> inv s' \<and>
    items s @ acc = del @ items s' \<and> length (items s') \<le> cap s"
  using assms
proof (induction ops arbitrary: s)
  case Nil
  then show ?case by (simp add: bounded)
next
  case (Cons a ops)
  show ?case
  proof (cases a)
    case (Put xs)
    from put_law [OF Cons.prems(1) _ refl, of xs] Cons.prems(2) Put obtain k s1 where
      s1: "put xs s = Some (k, s1)" "inv s1" "items s1 = items s @ take k xs" "cap s1 = cap s" by auto
    from Cons.IH [OF s1(2)] Cons.prems(2) obtain acc del s' where
      "fifo_run put get ops s1 = Some (acc, del, s')" "inv s'" "items s1 @ acc = del @ items s'"
      "length (items s') \<le> cap s1" by auto
    with s1 Put show ?thesis by simp
  next
    case (Get n)
    from get_law [OF Cons.prems(1), of n] Cons.prems(2) Get obtain s1 where
      s1: "get n s = Some (take n (items s), s1)" "inv s1" "items s1 = drop n (items s)" "cap s1 = cap s" by auto
    from Cons.IH [OF s1(2)] Cons.prems(2) obtain acc del s' where
      r: "fifo_run put get ops s1 = Some (acc, del, s')" "inv s'" "items s1 @ acc = del @ items s'"
      "length (items s') \<le> cap s1" by auto
    then have "items s @ acc = (take n (items s) @ del) @ items s'"
      using s1(3) by (metis append.assoc append_take_drop_id)
    with r s1 Get show ?thesis by simp
  qed
qed

text \<open>What is put into an empty queue with enough room comes out unchanged.\<close>

lemma put_get:
  assumes "inv s" "items s = []" "length xs \<le> cap s" "length xs < limit"
  shows "\<exists>s1 s2. put xs s = Some (length xs, s1) \<and> get (length xs) s1 = Some (xs, s2) \<and> items s2 = []"
proof -
  from put_law [OF assms(1,4), of "length xs"] assms(2,3) obtain s1 where
    "put xs s = Some (length xs, s1)" "inv s1" "items s1 = xs" by auto
  with get_law [OF _ assms(4), of s1] show ?thesis by auto
qed

end

section \<open>Linear windows\<close>

locale linear_window =
  fixes inv :: "'s \<Rightarrow> bool"
    and items :: "'s \<Rightarrow> 'a list"
    and cap :: "'s \<Rightarrow> nat"
    and wwin :: "'s \<Rightarrow> nat"
    and rwin :: "'s \<Rightarrow> nat"
    and put_lin :: "'a list \<Rightarrow> 's \<Rightarrow> 's option"
    and peek_lin :: "nat \<Rightarrow> 's \<Rightarrow> 'a list option"
    and drop_lin :: "nat \<Rightarrow> 's \<Rightarrow> 's option"
  assumes cap_pos: "inv s \<Longrightarrow> length (items s) \<le> cap s"
    and wwin_le: "inv s \<Longrightarrow> wwin s \<le> cap s - length (items s)"
    and rwin_le: "inv s \<Longrightarrow> rwin s \<le> length (items s)"
    and put_lin_law: "inv s \<Longrightarrow> length xs \<le> wwin s \<Longrightarrow>
      \<exists>s'. put_lin xs s = Some s' \<and> inv s' \<and> items s' = items s @ xs \<and> cap s' = cap s \<and>
        (length xs = wwin s \<longrightarrow> wwin s' = cap s' - length (items s'))"
    and peek_lin_law: "inv s \<Longrightarrow> n \<le> rwin s \<Longrightarrow> peek_lin n s = Some (take n (items s))"
    and drop_lin_law: "inv s \<Longrightarrow> n \<le> rwin s \<Longrightarrow>
      \<exists>s'. drop_lin n s = Some s' \<and> inv s' \<and> items s' = drop n (items s) \<and> cap s' = cap s \<and>
        (n = rwin s \<longrightarrow> rwin s' = length (items s'))"
begin

text \<open>Two window accesses reach all of the free space.\<close>

lemma two_puts:
  assumes "inv s" "length xs \<le> cap s - length (items s)"
  shows "\<exists>s1 s2. put_lin (take (wwin s) xs) s = Some s1 \<and> put_lin (drop (wwin s) xs) s1 = Some s2 \<and>
    inv s2 \<and> items s2 = items s @ xs"
proof -
  obtain s1 where s1: "put_lin (take (wwin s) xs) s = Some s1" "inv s1" "items s1 = items s @ take (wwin s) xs"
    "cap s1 = cap s" "length (take (wwin s) xs) = wwin s \<longrightarrow> wwin s1 = cap s1 - length (items s1)"
    using put_lin_law [OF assms(1), of "take (wwin s) xs"] by auto
  have "length (drop (wwin s) xs) \<le> wwin s1"
  proof (cases "wwin s \<le> length xs")
    case True
    with s1 assms(2) show ?thesis by simp
  qed simp
  from put_lin_law [OF s1(2) this] s1 show ?thesis by auto
qed

text \<open>Two window accesses reach all stored elements.\<close>

lemma two_drops:
  assumes "inv s" "n \<le> length (items s)"
  shows "\<exists>s1 s2. drop_lin (min n (rwin s)) s = Some s1 \<and> drop_lin (n - rwin s) s1 = Some s2 \<and>
    inv s2 \<and> items s2 = drop n (items s)"
proof -
  obtain s1 where s1: "drop_lin (min n (rwin s)) s = Some s1" "inv s1" "items s1 = drop (min n (rwin s)) (items s)"
    "min n (rwin s) = rwin s \<longrightarrow> rwin s1 = length (items s1)"
    using drop_lin_law [OF assms(1), of "min n (rwin s)"] by auto
  have "n - rwin s \<le> rwin s1"
  proof (cases "rwin s \<le> n")
    case True
    with s1 assms(2) show ?thesis by (simp add: min_def)
  qed simp
  from drop_lin_law [OF s1(2) this] s1 show ?thesis by (auto simp: min_def)
qed

end

end
