(* ===== verification/SP_Buffer.thy ===== *)
theory SP_Buffer
  imports SP_Buffer_Pool SP_Fifo
begin

text \<open>
  \<open>SPBuffer\<close> of \<open>SPBuffer.h\<close> and \<open>SPBuffer.cpp\<close>: the circular byte buffer of a connection
  on memory of the buffer pool. The bytes a buffer owns are its field \<open>b_mem\<close>, taken from the
  pool by \<open>Init\<close> and given back by the destructor; that owned buffers do not overlap is a
  theorem about the pool. All index arithmetic is the 32-bit arithmetic of the code.

  The contract is a bounded first-in first-out queue of bytes. It is stated as the locale
  \<open>bounded_fifo\<close>, which the task queue of the thread pool satisfies too, and for direct access
  by system calls as the locale \<open>linear_window\<close>.
\<close>

section \<open>State and operations\<close>

record SPBuffer =
  b_back :: u32
  b_front :: u32
  b_size :: u32
  b_bsize :: u32
  b_buffer :: addr
  b_type :: BUFFER_TYPE
  b_mem :: "byte list"

definition SPBuffer_new :: "BUFFER_TYPE \<Rightarrow> SPBuffer" where
  "SPBuffer_new type = \<lparr>b_back = 0, b_front = 0, b_size = 0, b_bsize = 0, b_buffer = null,
     b_type = type, b_mem = []\<rparr>"

definition SPBuffer_Init ::
  "malloc_fun \<Rightarrow> SPTcpConfig \<Rightarrow> SPBuffer \<Rightarrow> bpool \<Rightarrow> (bool \<times> SPBuffer \<times> bpool) option" where
  "SPBuffer_Init mal c b p = do {
     let b1 = b\<lparr>b_bsize := word_of_int (if b_type b = BUFFER_TYPE_READ then READ_BSIZE c else WRITE_BSIZE c)\<rparr>;
     (r, p') \<leftarrow> GetBuffer mal c (b_type b) p;
     Some (r \<noteq> null,
       b1\<lparr>b_buffer := r, b_mem := (if r = null then [] else map (p_mem p') [r ..< r + unat (b_bsize b1)])\<rparr>, p')
   }"

definition SPBuffer_bytesRead :: "SPBuffer \<Rightarrow> u32" where
  "SPBuffer_bytesRead b = b_size b"

definition SPBuffer_bytesWrite :: "SPBuffer \<Rightarrow> u32" where
  "SPBuffer_bytesWrite b = b_bsize b - b_size b"

definition SPBuffer_distanceWrite :: "SPBuffer \<Rightarrow> u32" where
  "SPBuffer_distanceWrite b =
     (let writeAvailable = SPBuffer_bytesWrite b; linearSpace = b_bsize b - b_front b
      in if linearSpace > writeAvailable then writeAvailable else linearSpace)"

definition SPBuffer_distanceRead :: "SPBuffer \<Rightarrow> u32" where
  "SPBuffer_distanceRead b =
     (let readAvailable = SPBuffer_bytesRead b; linearSpace = b_bsize b - b_back b
      in if linearSpace > readAvailable then readAvailable else linearSpace)"

text \<open>A modulus of zero is undefined.\<close>

definition SPBuffer_commitRead :: "u32 \<Rightarrow> SPBuffer \<Rightarrow> SPBuffer option" where
  "SPBuffer_commitRead len b =
     (if b_bsize b = 0 then None
      else Some (b\<lparr>b_back := (b_back b + len) mod b_bsize b, b_size := b_size b - len\<rparr>))"

definition SPBuffer_commitWrite :: "u32 \<Rightarrow> SPBuffer \<Rightarrow> SPBuffer option" where
  "SPBuffer_commitWrite len b =
     (if b_bsize b = 0 then None
      else let b1 = b\<lparr>b_front := (b_front b + len) mod b_bsize b, b_size := b_size b + len\<rparr>
        in Some (if b_size b1 = 0 then b1\<lparr>b_front := 0, b_back := 0\<rparr> else b1))"

text \<open>The pointers handed to system calls are offsets into the owned bytes.\<close>

definition SPBuffer_writePtr :: "SPBuffer \<Rightarrow> nat" where
  "SPBuffer_writePtr b = unat (b_front b)"

definition SPBuffer_readPtr :: "SPBuffer \<Rightarrow> nat" where
  "SPBuffer_readPtr b = unat (b_back b)"

text \<open>The two copies that \<open>read\<close> and \<open>peek\<close> share: \<open>n\<close> bytes from \<open>back\<close> into \<open>dst\<close>.\<close>

definition copy_out :: "byte list \<Rightarrow> u32 \<Rightarrow> SPBuffer \<Rightarrow> byte list option" where
  "copy_out dst bytesToRead b = do {
     let firstChunk = (if b_back b + bytesToRead > b_bsize b then b_bsize b - b_back b else bytesToRead);
     dst1 \<leftarrow> memcpy dst 0 (b_mem b) (unat (b_back b)) (unat firstChunk);
     if firstChunk < bytesToRead
     then memcpy dst1 (unat firstChunk) (b_mem b) 0 (unat (bytesToRead - firstChunk))
     else Some dst1
   }"

definition SPBuffer_read :: "byte list \<Rightarrow> u32 \<Rightarrow> SPBuffer \<Rightarrow> (u32 \<times> byte list \<times> SPBuffer) option" where
  "SPBuffer_read dst len b =
     (if len = 0 \<or> b_size b = 0 then Some (0, dst, b)
      else do {
        let bytesToRead = (if len > b_size b then b_size b else len);
        dst' \<leftarrow> copy_out dst bytesToRead b;
        let b1 = b\<lparr>b_size := b_size b - bytesToRead\<rparr>;
        if b_size b1 = 0 then Some (bytesToRead, dst', b1\<lparr>b_front := 0, b_back := 0\<rparr>)
        else if b_bsize b1 = 0 then None
        else Some (bytesToRead, dst', b1\<lparr>b_back := (b_back b1 + bytesToRead) mod b_bsize b1\<rparr>)
      })"

definition SPBuffer_peek :: "byte list \<Rightarrow> u32 \<Rightarrow> SPBuffer \<Rightarrow> (u32 \<times> byte list) option" where
  "SPBuffer_peek dst len b =
     (if len = 0 \<or> b_size b = 0 then Some (0, dst)
      else do {
        let bytesToRead = (if len > b_size b then b_size b else len);
        dst' \<leftarrow> copy_out dst bytesToRead b;
        Some (bytesToRead, dst')
      })"

definition SPBuffer_write :: "byte list \<Rightarrow> u32 \<Rightarrow> SPBuffer \<Rightarrow> (u32 \<times> SPBuffer) option" where
  "SPBuffer_write src len b =
     (if len = 0 \<or> SPBuffer_bytesWrite b = 0 then Some (0, b)
      else do {
        let bytesToWrite = (if len > SPBuffer_bytesWrite b then SPBuffer_bytesWrite b else len);
        let firstChunk = (if b_front b + bytesToWrite > b_bsize b then b_bsize b - b_front b else bytesToWrite);
        mem1 \<leftarrow> memcpy (b_mem b) (unat (b_front b)) src 0 (unat firstChunk);
        mem2 \<leftarrow> (if firstChunk < bytesToWrite
                 then memcpy mem1 0 src (unat firstChunk) (unat (bytesToWrite - firstChunk))
                 else Some mem1);
        if b_bsize b = 0 then None
        else Some (bytesToWrite, b\<lparr>b_mem := mem2, b_front := (b_front b + bytesToWrite) mod b_bsize b,
                                   b_size := b_size b + bytesToWrite\<rparr>)
      })"

text \<open>The destructor gives the bytes back to the pool.\<close>

definition store_bytes :: "addr \<Rightarrow> byte list \<Rightarrow> (addr \<Rightarrow> byte) \<Rightarrow> addr \<Rightarrow> byte" where
  "store_bytes a xs m = (\<lambda>x. if a \<le> x \<and> x < a + length xs then xs ! (x - a) else m x)"

definition SPBuffer_destroy :: "SPTcpConfig \<Rightarrow> SPBuffer \<Rightarrow> bpool \<Rightarrow> bpool option" where
  "SPBuffer_destroy c b p =
     (if b_buffer b \<noteq> null
      then FreeBuffer c (b_type b) (b_buffer b) (p\<lparr>p_mem := store_bytes (b_buffer b) (b_mem b) (p_mem p)\<rparr>)
      else Some p)"

section \<open>Invariant and abstraction\<close>

definition buf_inv :: "SPBuffer \<Rightarrow> bool" where
  "buf_inv b \<longleftrightarrow> length (b_mem b) = unat (b_bsize b) \<and> 0 < unat (b_bsize b) \<and> unat (b_bsize b) < 2 ^ 31 \<and>
     unat (b_back b) < unat (b_bsize b) \<and> unat (b_size b) \<le> unat (b_bsize b) \<and>
     unat (b_front b) = (unat (b_back b) + unat (b_size b)) mod unat (b_bsize b)"

definition contents :: "SPBuffer \<Rightarrow> byte list" where
  "contents b = ring_slice (b_mem b) (unat (b_back b)) (unat (b_size b))"

definition capacity :: "SPBuffer \<Rightarrow> nat" where
  "capacity b = unat (b_bsize b)"

lemma length_contents: "length (contents b) = unat (b_size b)"
  by (simp add: contents_def)

lemma buf_invD:
  assumes "buf_inv b"
  shows "length (b_mem b) = unat (b_bsize b)" "0 < unat (b_bsize b)" "unat (b_bsize b) < 2 ^ 31"
    "unat (b_back b) < unat (b_bsize b)" "unat (b_size b) \<le> unat (b_bsize b)"
    "unat (b_front b) = (unat (b_back b) + unat (b_size b)) mod unat (b_bsize b)"
    "unat (b_front b) < unat (b_bsize b)" "b_bsize b \<noteq> 0"
  using assms by (auto simp: buf_inv_def u32_eq_0_iff)

lemma bytesWrite_nat: "buf_inv b \<Longrightarrow> unat (SPBuffer_bytesWrite b) = capacity b - length (contents b)"
  by (simp add: SPBuffer_bytesWrite_def capacity_def length_contents buf_invD unat_diff_small)

text \<open>An amount that is at most the capacity moves an index without 32-bit wrap-around.\<close>

lemma unat_add_index:
  fixes i n :: u32
  assumes "buf_inv b" "unat i < unat (b_bsize b)" "unat n \<le> unat (b_bsize b)"
  shows "unat (i + n) = unat i + unat n"
  using buf_invD(3) [OF assms(1)] assms(2,3) by (intro unat_add_small) simp

section \<open>Blocks written into the ring\<close>

text \<open>Consuming from the front of the ring.\<close>

lemma consume_inv:
  assumes inv: "buf_inv b" and n: "unat n \<le> unat (b_size b)"
    and b': "b' = b\<lparr>b_back := (b_back b + n) mod b_bsize b, b_size := b_size b - n\<rparr>"
  shows "buf_inv b'" "contents b' = drop (unat n) (contents b)"
proof -
  note D = buf_invD [OF inv]
  have s: "unat (b_size b - n) = unat (b_size b) - unat n" using n by (rule unat_diff_small)
  have k: "unat ((b_back b + n) mod b_bsize b) = (unat (b_back b) + unat n) mod unat (b_bsize b)"
    using n D(5) by (simp add: unat_mod unat_add_index [OF inv D(4)])
  have "((unat (b_back b) + unat n) mod unat (b_bsize b) + (unat (b_size b) - unat n)) mod unat (b_bsize b) =
        (unat (b_back b) + unat n + (unat (b_size b) - unat n)) mod unat (b_bsize b)"
    by (simp add: mod_add_left_eq)
  then show "buf_inv b'" using n D by (simp add: b' buf_inv_def s k)
  show "contents b' = drop (unat n) (contents b)"
    using n D(1) ring_slice_mod [of "b_mem b" "unat (b_back b) + unat n"]
    by (simp add: b' contents_def s k drop_ring_slice)
qed

lemma reset_inv:
  assumes "buf_inv b" "b_size b = 0" "b' = b\<lparr>b_front := 0, b_back := 0\<rparr>"
  shows "buf_inv b'" "contents b' = contents b"
  using assms buf_invD [OF assms(1)] by (auto simp: buf_inv_def contents_def)

text \<open>
  Appending \<open>xs\<close> at \<open>front\<close>: the new memory agrees with the old one on the stored bytes and
  holds \<open>xs\<close> on the cyclic range after them.
\<close>

lemma produce_inv:
  assumes inv: "buf_inv b" and n: "unat (b_size b) + unat n \<le> unat (b_bsize b)" "length xs = unat n"
    and m: "length m = length (b_mem b)" "ring_slice m (unat (b_back b)) (unat (b_size b)) = contents b"
      "ring_slice m (unat (b_front b)) (unat n) = xs"
    and b': "b' = b\<lparr>b_mem := m, b_front := (b_front b + n) mod b_bsize b, b_size := b_size b + n\<rparr>"
  shows "buf_inv b'" "contents b' = contents b @ xs"
proof -
  note D = buf_invD [OF inv]
  have s: "unat (b_size b + n) = unat (b_size b) + unat n" using n(1) D(3) by (intro unat_add_small) simp
  have f: "unat ((b_front b + n) mod b_bsize b) = (unat (b_front b) + unat n) mod unat (b_bsize b)"
    using n(1) by (simp add: unat_mod unat_add_index [OF inv D(7)])
  show "buf_inv b'" using n(1) D m(1) by (simp add: b' buf_inv_def s f mod_add_left_eq add.assoc)
  have "ring_slice m (unat (b_back b) + unat (b_size b)) (unat n) = ring_slice m (unat (b_front b)) (unat n)"
    using D(1,6) m(1) ring_slice_mod [of m "unat (b_back b) + unat (b_size b)" "unat n"] by simp
  with m(2,3) show "contents b' = contents b @ xs"
    by (simp add: b' contents_def s ring_slice_add)
qed

lemma ring_write_contents:
  assumes "buf_inv b" "unat (b_size b) + length xs \<le> unat (b_bsize b)"
  shows "length (ring_write (b_mem b) (unat (b_front b)) xs) = length (b_mem b)"
    "ring_slice (ring_write (b_mem b) (unat (b_front b)) xs) (unat (b_back b)) (unat (b_size b)) = contents b"
    "ring_slice (ring_write (b_mem b) (unat (b_front b)) xs) (unat (b_front b)) (length xs) = xs"
  using buf_invD [OF assms(1)] assms(2)
  by (simp_all add: contents_def ring_slice_before ring_slice_written)

lemma produce_ring_write:
  assumes "buf_inv b" "unat (b_size b) + unat n \<le> unat (b_bsize b)" "length xs = unat n"
    and "b' = b\<lparr>b_mem := ring_write (b_mem b) (unat (b_front b)) xs,
               b_front := (b_front b + n) mod b_bsize b, b_size := b_size b + n\<rparr>"
  shows "buf_inv b'" "contents b' = contents b @ xs"
  using produce_inv [OF assms(1-3) _ _ _ assms(4)] ring_write_contents [OF assms(1), of xs] assms(2,3) by simp_all

section \<open>Behaviour of the operations\<close>

lemma copy_out_ok:
  assumes inv: "buf_inv b" and n: "unat n \<le> unat (b_size b)" "unat n \<le> length dst"
  shows "copy_out dst n b = Some (blit 0 (take (unat n) (contents b)) dst)"
proof -
  note D = buf_invD [OF inv]
  let ?k = "unat (b_bsize b) - unat (b_back b)"
  have a: "unat (b_back b + n) = unat (b_back b) + unat n" using n(1) D(5) by (intro unat_add_index [OF inv D(4)]) simp
  have c: "take (unat n) (contents b) = ring_slice (b_mem b) (unat (b_back b)) (unat n)"
    using n(1) by (simp add: contents_def take_ring_slice)
  show ?thesis
  proof (cases "unat (b_back b) + unat n \<le> unat (b_bsize b)")
    case True
    then have "\<not> b_back b + n > b_bsize b" by (simp add: word_less_nat_alt a)
    with True n D(1) show ?thesis
      by (simp add: copy_out_def memcpy_def c ring_slice_linear Let_def)
  next
    case False
    then have "b_back b + n > b_bsize b" by (simp add: word_less_nat_alt a)
    moreover have k: "unat (b_bsize b - b_back b) = ?k" using D(4) by (simp add: unat_diff_small)
    moreover have "unat (n - (b_bsize b - b_back b)) = unat n - ?k" using False k by (simp add: unat_diff_small)
    moreover have "b_bsize b - b_back b < n" using False D(4) k by (simp add: word_less_nat_alt)
    moreover have "ring_slice (b_mem b) (unat (b_back b)) (unat n) =
        drop (unat (b_back b)) (b_mem b) @ take (unat n - ?k) (b_mem b)"
      using False D n(1) by (subst ring_slice_wrap) auto
    moreover have "blit ?k (take (unat n - ?k) (b_mem b)) (blit 0 (drop (unat (b_back b)) (b_mem b)) dst) =
        blit 0 (drop (unat (b_back b)) (b_mem b) @ take (unat n - ?k) (b_mem b)) dst"
      using blit_blit_adjacent [of 0 "drop (unat (b_back b)) (b_mem b)" "take (unat n - ?k) (b_mem b)" dst] D n False
      by simp
    moreover have "unat n - ?k \<le> unat (b_bsize b)" "?k \<le> length dst" "?k + (unat n - ?k) \<le> length dst"
      using False D n by linarith+
    ultimately show ?thesis using D(1,4)
      by (simp add: copy_out_def memcpy_def c Let_def)
  qed
qed

lemma read_ok:
  assumes inv: "buf_inv b" and n: "n = min (unat len) (length (contents b))" "n \<le> length dst"
  shows "\<exists>b'. SPBuffer_read dst len b = Some (of_nat n, blit 0 (take n (contents b)) dst, b') \<and>
    buf_inv b' \<and> contents b' = drop n (contents b) \<and> capacity b' = capacity b"
proof (cases "len = 0 \<or> b_size b = 0")
  case True
  then have "n = 0" using n(1) by (auto simp: length_contents)
  with True inv show ?thesis by (simp add: SPBuffer_read_def)
next
  case False
  define m where "m = (if len > b_size b then b_size b else len)"
  have m: "unat m = n" "m = of_nat n" "unat m \<le> unat (b_size b)"
    by (simp_all add: m_def n(1) length_contents u32_of_unat del: of_nat_min)
  have c: "copy_out dst m b = Some (blit 0 (take n (contents b)) dst)"
    using copy_out_ok [OF inv m(3)] m(1) n(2) by simp
  let ?b = "b\<lparr>b_back := (b_back b + m) mod b_bsize b, b_size := b_size b - m\<rparr>"
  note K = consume_inv [OF inv m(3) refl]
  show ?thesis
  proof (cases "b_size b - m = 0")
    case True
    let ?z = "b\<lparr>b_size := b_size b - m, b_front := 0, b_back := 0\<rparr>"
    have e: "?z = ?b\<lparr>b_front := 0, b_back := 0\<rparr>" by simp
    have "SPBuffer_read dst len b = Some (m, blit 0 (take n (contents b)) dst, ?z)"
      using False c True by (simp add: SPBuffer_read_def m_def Let_def)
    moreover have "buf_inv ?z" "contents ?z = drop n (contents b)"
      using reset_inv [OF K(1) _ e] True K(2) m(1) by simp_all
    ultimately show ?thesis using m(2) by (auto simp: capacity_def)
  next
    case nz: False
    have "SPBuffer_read dst len b = Some (m, blit 0 (take n (contents b)) dst, ?b)"
      using False c nz buf_invD(8) [OF inv] by (simp add: SPBuffer_read_def m_def Let_def)
    with K m show ?thesis by (auto simp: capacity_def)
  qed
qed

lemma peek_ok:
  assumes inv: "buf_inv b" and n: "n = min (unat len) (length (contents b))" "n \<le> length dst"
  shows "SPBuffer_peek dst len b = Some (of_nat n, blit 0 (take n (contents b)) dst)"
proof (cases "len = 0 \<or> b_size b = 0")
  case True
  then have "n = 0" using n(1) by (auto simp: length_contents)
  with True show ?thesis by (simp add: SPBuffer_peek_def)
next
  case False
  define m where "m = (if len > b_size b then b_size b else len)"
  have m: "unat m = n" "m = of_nat n" "unat m \<le> unat (b_size b)"
    by (simp_all add: m_def n(1) length_contents u32_of_unat del: of_nat_min)
  have "copy_out dst m b = Some (blit 0 (take n (contents b)) dst)"
    using copy_out_ok [OF inv m(3)] m(1) n(2) by simp
  with False m(2) show ?thesis by (simp add: SPBuffer_peek_def m_def Let_def)
qed

lemma write_ok:
  assumes inv: "buf_inv b" and n: "n = min (unat len) (capacity b - length (contents b))" "n \<le> length src"
  shows "\<exists>b'. SPBuffer_write src len b = Some (of_nat n, b') \<and>
    buf_inv b' \<and> contents b' = contents b @ take n src \<and> capacity b' = capacity b"
proof (cases "len = 0 \<or> SPBuffer_bytesWrite b = 0")
  case True
  then have "n = 0" using n(1) bytesWrite_nat [OF inv] by (auto simp: u32_eq_0_iff)
  with True inv show ?thesis by (simp add: SPBuffer_write_def)
next
  case False
  note D = buf_invD [OF inv]
  define m where "m = (if len > SPBuffer_bytesWrite b then SPBuffer_bytesWrite b else len)"
  have m: "unat m = n" "m = of_nat n"
    by (simp_all add: m_def n(1) bytesWrite_nat [OF inv] u32_of_unat del: of_nat_min)
  have room: "unat (b_size b) + unat m \<le> unat (b_bsize b)"
    using m(1) n(1) D(5) by (simp add: capacity_def length_contents)
  then have a: "unat (b_front b + m) = unat (b_front b) + unat m" by (intro unat_add_index [OF inv D(7)]) simp
  let ?k = "unat (b_bsize b) - unat (b_front b)"
  let ?fc = "if b_front b + m > b_bsize b then b_bsize b - b_front b else m"
  have fc: "unat ?fc = (if unat (b_front b) + n \<le> unat (b_bsize b) then n else ?k)"
    using D(7) m(1) by (simp add: word_less_nat_alt a unat_diff_small)
  have le: "n \<le> length src" "n \<le> unat (b_bsize b)" using room m(1) n(2) by simp_all
  have mem: "\<exists>mem1. memcpy (b_mem b) (unat (b_front b)) src 0 (unat ?fc) = Some mem1 \<and>
      (if ?fc < m then memcpy mem1 0 src (unat ?fc) (unat (m - ?fc)) else Some mem1) =
      Some (ring_write (b_mem b) (unat (b_front b)) (take n src))"
  proof (cases "unat (b_front b) + n \<le> unat (b_bsize b)")
    case True
    then have "\<not> b_front b + m > b_bsize b" by (simp add: word_less_nat_alt a m(1))
    with True le D(1,7) m(1) show ?thesis by (simp add: memcpy_def ring_write_def min_def)
  next
    case wrap: False
    then have gt: "b_front b + m > b_bsize b" by (simp add: word_less_nat_alt a m(1))
    have k: "unat (b_bsize b - b_front b) = ?k" using D(7) by (simp add: unat_diff_small)
    have lt: "b_bsize b - b_front b < m" using wrap D(7) k m(1) by (simp add: word_less_nat_alt)
    have d: "unat (m - (b_bsize b - b_front b)) = n - ?k" using wrap k m(1) by (simp add: unat_diff_small)
    have "take ?k (take n src) = take ?k src" "drop ?k (take n src) = take (n - ?k) (drop ?k src)"
      using wrap by (simp_all add: drop_take)
    moreover have "?k \<le> length src" "?k + (n - ?k) \<le> length src" "n - ?k \<le> unat (b_bsize b)"
      "unat (b_front b) + ?k \<le> unat (b_bsize b)"
      using wrap le D(7) by linarith+
    ultimately show ?thesis using gt lt d k wrap D(1,7) le
      by (simp add: memcpy_def ring_write_def)
  qed
  let ?b = "b\<lparr>b_mem := ring_write (b_mem b) (unat (b_front b)) (take n src),
      b_front := (b_front b + m) mod b_bsize b, b_size := b_size b + m\<rparr>"
  have "SPBuffer_write src len b = Some (m, ?b)"
    using False D(8) mem unfolding SPBuffer_write_def m_def [symmetric] Let_def by auto
  moreover have "buf_inv ?b" "contents ?b = contents b @ take n src"
    using produce_ring_write [OF inv room _ refl, of "take n src"] m(1) n(2) by simp_all
  ultimately show ?thesis using m(2) by (auto simp: capacity_def)
qed

section \<open>Linear windows\<close>

text \<open>
  The part of the ring a system call may fill in one go, and the part it may send in one go:
  \<open>distanceWrite\<close> bytes at \<open>writePtr\<close> and \<open>distanceRead\<close> bytes at \<open>readPtr\<close>.
\<close>

lemma distanceWrite_nat:
  assumes "buf_inv b"
  shows "unat (SPBuffer_distanceWrite b) =
    min (unat (b_bsize b) - unat (b_front b)) (capacity b - length (contents b))"
  using buf_invD [OF assms] by (simp add: SPBuffer_distanceWrite_def Let_def bytesWrite_nat assms unat_diff_small)

lemma distanceRead_nat:
  assumes "buf_inv b"
  shows "unat (SPBuffer_distanceRead b) = min (unat (b_bsize b) - unat (b_back b)) (length (contents b))"
  using buf_invD [OF assms]
  by (simp add: SPBuffer_distanceRead_def SPBuffer_bytesRead_def Let_def length_contents unat_diff_small)

lemma read_window:
  assumes "buf_inv b" "n \<le> unat (SPBuffer_distanceRead b)"
  shows "take n (drop (SPBuffer_readPtr b) (b_mem b)) = take n (contents b)"
    "SPBuffer_readPtr b + n \<le> length (b_mem b)"
proof -
  have n: "n \<le> unat (b_size b)" "unat (b_back b) + n \<le> length (b_mem b)"
    using assms(2) distanceRead_nat [OF assms(1)] buf_invD(1,4) [OF assms(1)]
    unfolding length_contents min_def by (auto split: if_splits)
  then show "take n (drop (SPBuffer_readPtr b) (b_mem b)) = take n (contents b)"
    "SPBuffer_readPtr b + n \<le> length (b_mem b)"
    by (simp_all add: contents_def take_ring_slice ring_slice_linear SPBuffer_readPtr_def)
qed

lemma commitRead_ok:
  assumes "buf_inv b" "unat n \<le> length (contents b)"
  shows "\<exists>b'. SPBuffer_commitRead n b = Some b' \<and> buf_inv b' \<and> contents b' = drop (unat n) (contents b) \<and>
    capacity b' = capacity b"
  using consume_inv [OF assms(1) _ refl, of n] assms(2) buf_invD(8) [OF assms(1)]
  by (simp add: SPBuffer_commitRead_def length_contents capacity_def)

text \<open>A system call stores \<open>xs\<close> at the write pointer; \<open>commitWrite\<close> makes the bytes visible.\<close>

definition fill :: "byte list \<Rightarrow> SPBuffer \<Rightarrow> SPBuffer option" where
  "fill xs b = (if SPBuffer_writePtr b + length xs \<le> length (b_mem b)
     then Some (b\<lparr>b_mem := blit (SPBuffer_writePtr b) xs (b_mem b)\<rparr>) else None)"

lemma commitWrite_ok:
  assumes inv: "buf_inv b" and n: "unat n \<le> unat (SPBuffer_distanceWrite b)" "length xs = unat n"
  shows "\<exists>b1 b'. fill xs b = Some b1 \<and> SPBuffer_commitWrite n b1 = Some b' \<and> buf_inv b' \<and>
    contents b' = contents b @ xs \<and> capacity b' = capacity b"
proof -
  note D = buf_invD [OF inv]
  have l: "unat (b_front b) + length xs \<le> length (b_mem b)" "unat (b_size b) + unat n \<le> unat (b_bsize b)"
    using n D(1,5,7) distanceWrite_nat [OF inv] unfolding capacity_def length_contents min_def
    by (auto split: if_splits)
  then have w: "ring_write (b_mem b) (unat (b_front b)) xs = blit (unat (b_front b)) xs (b_mem b)"
    by (simp add: ring_write_def)
  let ?b = "b\<lparr>b_mem := blit (unat (b_front b)) xs (b_mem b),
      b_front := (b_front b + n) mod b_bsize b, b_size := b_size b + n\<rparr>"
  note P = produce_ring_write [OF inv l(2) n(2), unfolded w, OF refl]
  have f: "fill xs b = Some (b\<lparr>b_mem := blit (unat (b_front b)) xs (b_mem b)\<rparr>)"
    using l(1) by (simp add: fill_def SPBuffer_writePtr_def)
  show ?thesis
  proof (cases "b_size b + n = 0")
    case False
    then show ?thesis using f P D(8) by (simp add: SPBuffer_commitWrite_def Let_def capacity_def)
  next
    case True
    with reset_inv [OF P(1) _ refl] P(2) f D(8) show ?thesis
      by (simp add: SPBuffer_commitWrite_def Let_def capacity_def)
  qed
qed

lemma commitWrite_front:
  assumes inv: "buf_inv b" and n: "unat n = unat (SPBuffer_distanceWrite b)" "length xs = unat n"
    and b: "fill xs b = Some b1" "SPBuffer_commitWrite n b1 = Some b'"
    and b': "buf_inv b'" "contents b' = contents b @ xs" "capacity b' = capacity b"
  shows "unat (SPBuffer_distanceWrite b') = capacity b' - length (contents b')"
proof (cases "capacity b = length (contents b')")
  case True
  with b'(3) distanceWrite_nat [OF b'(1)] show ?thesis by simp
next
  case False
  note D = buf_invD [OF inv]
  have "length (contents b) + unat n \<le> capacity b"
    using n distanceWrite_nat [OF inv] buf_invD(5) [OF inv]
    unfolding capacity_def length_contents min_def by (auto split: if_splits)
  with False b'(2) n have "unat n < capacity b - length (contents b)" by simp
  with n(1) distanceWrite_nat [OF inv] have k: "unat n = unat (b_bsize b) - unat (b_front b)"
    by (simp add: min_def split: if_splits)
  have "unat (b_front b + n) = unat (b_bsize b)" using k D(7) unat_add_index [OF inv D(7), of n] by simp
  then have "b_front b + n = b_bsize b" by (rule unat_eq_u32)
  with b D(8) have "b_front b' = 0" "b_bsize b' = b_bsize b"
    by (auto simp: fill_def SPBuffer_commitWrite_def Let_def split: if_splits)
  with distanceWrite_nat [OF b'(1)] show ?thesis by (simp add: capacity_def)
qed

lemma commitRead_back:
  assumes inv: "buf_inv b" and n: "unat n = unat (SPBuffer_distanceRead b)"
    and b: "SPBuffer_commitRead n b = Some b'"
    and b': "buf_inv b'" "contents b' = drop (unat n) (contents b)"
  shows "unat (SPBuffer_distanceRead b') = length (contents b')"
proof (cases "unat n < length (contents b)")
  case False
  with b'(2) distanceRead_nat [OF b'(1)] show ?thesis by simp
next
  case True
  note D = buf_invD [OF inv]
  from True n distanceRead_nat [OF inv] have k: "unat n = unat (b_bsize b) - unat (b_back b)"
    by (simp add: min_def split: if_splits)
  have "unat (b_back b + n) = unat (b_bsize b)" using k D(4) unat_add_index [OF inv D(4), of n] by simp
  then have "b_back b + n = b_bsize b" by (rule unat_eq_u32)
  with b D(8) have "b_back b' = 0" "b_bsize b' = b_bsize b"
    by (auto simp: SPBuffer_commitRead_def split: if_splits)
  with distanceRead_nat [OF b'(1)] buf_invD(5) [OF b'(1)] show ?thesis by (simp add: length_contents)
qed

section \<open>The contracts\<close>

text \<open>The operations in the shape of the contract: a transfer of whole lists.\<close>

definition buf_put :: "byte list \<Rightarrow> SPBuffer \<Rightarrow> (nat \<times> SPBuffer) option" where
  "buf_put xs b = map_option (\<lambda>(n, b'). (unat n, b')) (SPBuffer_write xs (of_nat (length xs)) b)"

definition buf_get :: "nat \<Rightarrow> SPBuffer \<Rightarrow> (byte list \<times> SPBuffer) option" where
  "buf_get n b = map_option (\<lambda>(k, dst, b'). (take (unat k) dst, b')) (SPBuffer_read (replicate n 0) (of_nat n) b)"

interpretation buf: bounded_fifo buf_inv contents capacity "2 ^ 32" buf_put buf_get
proof
  fix b :: SPBuffer and xs :: "byte list" and n k :: nat
  assume inv: "buf_inv b"
  show bounded: "length (contents b) \<le> capacity b" using buf_invD(5) [OF inv] by (simp add: length_contents capacity_def)
  { assume "length xs < 2 ^ 32" and k: "k = min (length xs) (capacity b - length (contents b))"
    moreover have "k < 2 ^ 32" using k buf_invD(3) [OF inv] by (simp add: capacity_def)
    ultimately show "\<exists>s'. buf_put xs b = Some (k, s') \<and> buf_inv s' \<and> contents s' = contents b @ take k xs \<and>
        capacity s' = capacity b"
      using write_ok [OF inv, of k "of_nat (length xs)" xs]
      by (auto simp: buf_put_def unat_of_nat_u32 simp del: of_nat_min) }
  { assume n: "n < 2 ^ 32"
    let ?m = "min n (length (contents b))"
    have "take ?m (contents b) = take n (contents b)" "drop ?m (contents b) = drop n (contents b)"
      by (simp_all add: min_def)
    moreover have "unat (of_nat ?m :: u32) = ?m" using n by (intro unat_of_nat_u32) simp
    moreover have "take ?m (blit 0 (take n (contents b)) (replicate n 0)) = take n (contents b)"
      using take_blit_0 [of "take n (contents b)" "replicate n 0"] by (simp add: min.commute)
    ultimately show "\<exists>s'. buf_get n b = Some (take n (contents b), s') \<and> buf_inv s' \<and>
        contents s' = drop n (contents b) \<and> capacity s' = capacity b"
      using read_ok [OF inv, of ?m "of_nat n" "replicate n 0"] n
      by (auto simp: buf_get_def unat_of_nat_u32 simp del: of_nat_min) }
qed

text \<open>Filling and draining through the pointers, as the system calls do.\<close>

definition buf_put_lin :: "byte list \<Rightarrow> SPBuffer \<Rightarrow> SPBuffer option" where
  "buf_put_lin xs b = Option.bind (fill xs b) (SPBuffer_commitWrite (of_nat (length xs)))"

definition buf_peek_lin :: "nat \<Rightarrow> SPBuffer \<Rightarrow> byte list option" where
  "buf_peek_lin n b = (if SPBuffer_readPtr b + n \<le> length (b_mem b)
     then Some (take n (drop (SPBuffer_readPtr b) (b_mem b))) else None)"

definition buf_drop_lin :: "nat \<Rightarrow> SPBuffer \<Rightarrow> SPBuffer option" where
  "buf_drop_lin n b = SPBuffer_commitRead (of_nat n) b"

interpretation buf: linear_window buf_inv contents capacity
  "\<lambda>b. unat (SPBuffer_distanceWrite b)" "\<lambda>b. unat (SPBuffer_distanceRead b)"
  buf_put_lin buf_peek_lin buf_drop_lin
proof
  fix b :: SPBuffer and xs :: "byte list" and n :: nat
  assume inv: "buf_inv b"
  show "length (contents b) \<le> capacity b" by (rule buf.bounded [OF inv])
  show "unat (SPBuffer_distanceWrite b) \<le> capacity b - length (contents b)" by (simp add: distanceWrite_nat [OF inv])
  show r: "unat (SPBuffer_distanceRead b) \<le> length (contents b)" by (simp add: distanceRead_nat [OF inv])
  { assume xs: "length xs \<le> unat (SPBuffer_distanceWrite b)"
    then have u: "unat (of_nat (length xs) :: u32) = length xs"
      by (intro unat_of_nat_u32 le_unat_u32)
    with commitWrite_ok [OF inv, of "of_nat (length xs)" xs] xs obtain b1 b' where
      b: "fill xs b = Some b1" "SPBuffer_commitWrite (of_nat (length xs)) b1 = Some b'" "buf_inv b'"
        "contents b' = contents b @ xs" "capacity b' = capacity b" by auto
    with commitWrite_front [OF inv _ _ b] u show "\<exists>s'. buf_put_lin xs b = Some s' \<and> buf_inv s' \<and>
        contents s' = contents b @ xs \<and> capacity s' = capacity b \<and>
        (length xs = unat (SPBuffer_distanceWrite b) \<longrightarrow>
         unat (SPBuffer_distanceWrite s') = capacity s' - length (contents s'))"
      by (simp add: buf_put_lin_def) }
  { assume n: "n \<le> unat (SPBuffer_distanceRead b)"
    then show "buf_peek_lin n b = Some (take n (contents b))"
      using read_window [OF inv n] by (simp add: buf_peek_lin_def)
    have u: "unat (of_nat n :: u32) = n"
      using n by (intro unat_of_nat_u32 le_unat_u32)
    with commitRead_ok [OF inv, of "of_nat n"] n r obtain b' where
      b: "SPBuffer_commitRead (of_nat n) b = Some b'" "buf_inv b'" "contents b' = drop n (contents b)"
        "capacity b' = capacity b" by auto
    with commitRead_back [OF inv _ b(1,2)] u show "\<exists>s'. buf_drop_lin n b = Some s' \<and> buf_inv s' \<and>
        contents s' = drop n (contents b) \<and> capacity s' = capacity b \<and>
        (n = unat (SPBuffer_distanceRead b) \<longrightarrow> unat (SPBuffer_distanceRead s') = length (contents s'))"
      by (simp add: buf_drop_lin_def) }
qed

section \<open>Life cycle\<close>

lemma pool_ready_p_mem [simp]: "pool_ready mal c H (p\<lparr>p_mem := m\<rparr>) \<longleftrightarrow> pool_ready mal c H p"
  by (simp add: pool_ready_def pool_ok_def pool_inv_def nodes_inv_def in_block_def nodes_of_def)

lemma bsize_word:
  assumes "pool_config c"
  shows "unat (word_of_int (cfg_bsize c t) :: u32) = nat (cfg_bsize c t)" "0 < nat (cfg_bsize c t)"
    "nat (cfg_bsize c t) < 2 ^ 31"
  using tcp_config_bsize [of c t] assms
  by (simp_all add: pool_config_def unsigned_of_int take_bit_int_eq_self nat_less_iff)

lemma Init_ok:
  assumes p: "pool_ready mal c H p" and b: "b = SPBuffer_new t"
  shows "\<exists>ok b' p'. SPBuffer_Init mal c b p = Some (ok, b', p') \<and> b_type b' = t \<and>
    (if ok then b_buffer b' \<noteq> null \<and> buf_inv b' \<and> contents b' = [] \<and> capacity b' = nat (cfg_bsize c t) \<and>
       (t, b_buffer b') \<notin> H \<and> pool_ready mal c (insert (t, b_buffer b') H) p'
     else b_buffer b' = null \<and> p' = p)"
proof -
  from p have c: "pool_config c" by (simp add: pool_ready_def)
  have s: "(if t = BUFFER_TYPE_READ then READ_BSIZE c else WRITE_BSIZE c) = cfg_bsize c t"
    by (cases t) (simp_all add: cfg_bsize_def)
  note w = bsize_word [OF c, of t]
  obtain r p' where r: "GetBuffer mal c t p = Some (r, p')" and
    R: "if r = null then p' = p else (t, r) \<notin> H \<and> pool_ready mal c (insert (t, r) H) p'"
    using GetBuffer_ready [OF p, of t] by (auto split: if_splits)
  let ?b = "b\<lparr>b_bsize := word_of_int (cfg_bsize c t), b_buffer := r,
      b_mem := (if r = null then [] else map (p_mem p') [r ..< r + nat (cfg_bsize c t)])\<rparr>"
  have "SPBuffer_Init mal c b p = Some (r \<noteq> null, ?b, p')"
    using r w(1) by (simp add: SPBuffer_Init_def b SPBuffer_new_def Let_def s)
  moreover have "r \<noteq> null \<Longrightarrow> buf_inv ?b" using w by (simp add: buf_inv_def b SPBuffer_new_def)
  moreover have "contents ?b = []" "capacity ?b = nat (cfg_bsize c t)"
    using w by (simp_all add: contents_def capacity_def b SPBuffer_new_def)
  ultimately show ?thesis using R by (auto simp: b SPBuffer_new_def)
qed

lemma destroy_ok:
  assumes "pool_ready mal c H p" "b_buffer b \<noteq> null \<Longrightarrow> (b_type b, b_buffer b) \<in> H"
  shows "\<exists>p'. SPBuffer_destroy c b p = Some p' \<and>
    pool_ready mal c (if b_buffer b = null then H else H - {(b_type b, b_buffer b)}) p'"
proof (cases "b_buffer b = null")
  case True
  with assms(1) show ?thesis by (simp add: SPBuffer_destroy_def)
next
  case False
  let ?p = "p\<lparr>p_mem := store_bytes (b_buffer b) (b_mem b) (p_mem p)\<rparr>"
  have "pool_ready mal c H ?p" using assms(1) by simp
  from FreeBuffer_ready [OF this assms(2) [OF False]] False show ?thesis
    by (auto simp: SPBuffer_destroy_def)
qed

section \<open>Properties\<close>

text \<open>A buffer of eight bytes whose five stored bytes wrap around the end.\<close>

definition sample_buffer :: SPBuffer where
  "sample_buffer = \<lparr>b_back = 6, b_front = 3, b_size = 5, b_bsize = 8, b_buffer = 100,
     b_type = BUFFER_TYPE_READ, b_mem = [3, 4, 5, 0, 0, 0, 1, 2]\<rparr>"

lemma sample_buffer_inv: "buf_inv sample_buffer" "contents sample_buffer = [1, 2, 3, 4, 5]"
  "capacity sample_buffer = 8"
  by (simp_all add: buf_inv_def sample_buffer_def contents_def ring_slice_def capacity_def upt_rec)

text \<open>
  \<open>SPBuffer::write\<close> appends. Given a source of at least as many bytes as are taken, it
  stays inside both objects, takes as many bytes as fit, returns that number, and the stored
  sequence grows by exactly these bytes, whether or not the copy wraps around.
\<close>

theorem SPBuffer_write_appends:
  assumes "buf_inv b" "n = min (unat len) (capacity b - length (contents b))" "n \<le> length src"
  shows "\<exists>b'. SPBuffer_write src len b = Some (of_nat n, b') \<and> buf_inv b' \<and>
    contents b' = contents b @ take n src \<and> capacity b' = capacity b"
  by (rule write_ok [OF assms])

theorem SPBuffer_write_appends_witness:
  "\<exists>b'. SPBuffer_write [6, 7, 8, 9] 4 sample_buffer = Some (of_nat 3, b') \<and> buf_inv b' \<and>
    contents b' = contents sample_buffer @ take 3 [6, 7, 8, 9] \<and> capacity b' = capacity sample_buffer"
  by (rule SPBuffer_write_appends) (simp_all add: sample_buffer_inv)

text \<open>
  \<open>SPBuffer::read\<close> delivers the oldest bytes in order, into the front of the destination
  and nowhere else, returns their number, and removes exactly them.
\<close>

theorem SPBuffer_read_delivers:
  assumes "buf_inv b" "n = min (unat len) (length (contents b))" "n \<le> length dst"
  shows "\<exists>b'. SPBuffer_read dst len b = Some (of_nat n, take n (contents b) @ drop n dst, b') \<and> buf_inv b' \<and>
    contents b' = drop n (contents b) \<and> capacity b' = capacity b"
  using read_ok [OF assms] assms(2) by (auto simp: blit_def min_def)

theorem SPBuffer_read_delivers_witness:
  "\<exists>b'. SPBuffer_read [0, 0, 0, 9] 3 sample_buffer =
      Some (of_nat 3, take 3 (contents sample_buffer) @ drop 3 [0, 0, 0, 9], b') \<and> buf_inv b' \<and>
    contents b' = drop 3 (contents sample_buffer) \<and> capacity b' = capacity sample_buffer"
  by (rule SPBuffer_read_delivers) (simp_all add: sample_buffer_inv)

text \<open>
  \<open>SPBuffer::peek\<close> agrees with \<open>read\<close>: the same count and the same destination bytes,
  with the buffer unchanged.
\<close>

theorem SPBuffer_peek_read:
  assumes "buf_inv b" "min (unat len) (length (contents b)) \<le> length dst"
  shows "SPBuffer_peek dst len b = map_option (\<lambda>(n, dst', b'). (n, dst')) (SPBuffer_read dst len b) \<and>
    SPBuffer_peek dst len b \<noteq> None"
  using read_ok [OF assms(1) refl assms(2)] peek_ok [OF assms(1) refl assms(2)] by auto

theorem SPBuffer_peek_read_witness:
  "SPBuffer_peek [0, 0, 0] 3 sample_buffer =
     map_option (\<lambda>(n, dst', b'). (n, dst')) (SPBuffer_read [0, 0, 0] 3 sample_buffer) \<and>
   SPBuffer_peek [0, 0, 0] 3 sample_buffer \<noteq> None"
  by (rule SPBuffer_peek_read) (simp_all add: sample_buffer_inv)

text \<open>
  C4. A buffer is a stream: over any sequence of writes and reads, the bytes stored at the
  start followed by the bytes accepted are the bytes delivered followed by the bytes stored at
  the end, and the stored bytes never exceed the capacity.
\<close>

theorem SPBuffer_stream:
  assumes "buf_inv b" "list_all (\<lambda>a. op_size a < 2 ^ 32) ops"
  shows "\<exists>acc del b'. fifo_run buf_put buf_get ops b = Some (acc, del, b') \<and> buf_inv b' \<and>
    contents b @ acc = del @ contents b' \<and> length (contents b') \<le> capacity b"
  by (rule buf.run_stream [OF assms])

theorem SPBuffer_stream_witness:
  "\<exists>acc del b'. fifo_run buf_put buf_get [Get 4, Put [7, 8, 9, 10, 11, 12, 13, 14], Get 3] sample_buffer =
      Some (acc, del, b') \<and> buf_inv b' \<and>
    contents sample_buffer @ acc = del @ contents b' \<and> length (contents b') \<le> capacity sample_buffer"
  by (rule SPBuffer_stream) (simp_all add: sample_buffer_inv)

text \<open>
  The windows that system calls use are exact. A call may store up to \<open>distanceWrite\<close>
  bytes at \<open>writePtr\<close> and commit them without touching stored bytes; a second window after a
  full first one covers all remaining free space, so two calls can fill the buffer.
\<close>

theorem SPBuffer_fill_twice:
  assumes "buf_inv b" "length xs \<le> capacity b - length (contents b)"
  shows "\<exists>b1 b2. buf_put_lin (take (unat (SPBuffer_distanceWrite b)) xs) b = Some b1 \<and>
    buf_put_lin (drop (unat (SPBuffer_distanceWrite b)) xs) b1 = Some b2 \<and>
    buf_inv b2 \<and> contents b2 = contents b @ xs"
  by (rule buf.two_puts [OF assms])

theorem SPBuffer_fill_twice_witness:
  "\<exists>b1 b2. buf_put_lin (take (unat (SPBuffer_distanceWrite sample_buffer)) [6, 7, 8]) sample_buffer = Some b1 \<and>
    buf_put_lin (drop (unat (SPBuffer_distanceWrite sample_buffer)) [6, 7, 8]) b1 = Some b2 \<and>
    buf_inv b2 \<and> contents b2 = contents sample_buffer @ [6, 7, 8]"
  by (rule SPBuffer_fill_twice) (simp_all add: sample_buffer_inv)

end
