(* ===== verification/SP_Controller.thy ===== *)
theory SP_Controller
  imports SP_Buffer
begin

text \<open>
  \<open>SOCKController\<close> of \<open>SPController.h\<close> and \<open>SPController.cpp\<close>: a connection with its read and
  write buffer, and its non-blocking system calls.

  The kernel side of a socket is \<open>ksock\<close>: the bytes that have arrived, the bytes it has
  accepted for sending, and a script of the outcomes of the next calls. Every partial
  transfer, interruption, congestion and error is a script; an exhausted script answers
  \<open>EAGAIN\<close>. The functions \<open>funcEvent\<close> and \<open>funcClose\<close>, which are pointers set by \<open>SPSockTcp\<close>,
  are arguments that act on an outside state.
\<close>

section \<open>System calls\<close>

datatype errno = EINTR | EAGAIN | EPIPE | ECONNRESET | EMFILE | EOTHER

datatype outcome = Transfer nat | Fails errno

record ksock =
  k_in :: "byte list"
  k_out :: "byte list"
  k_script :: "outcome list"

definition next_outcome :: "ksock \<Rightarrow> outcome \<times> ksock" where
  "next_outcome k = (case k_script k of [] \<Rightarrow> (Fails EAGAIN, k) | r # rs \<Rightarrow> (r, k\<lparr>k_script := rs\<rparr>))"

text \<open>
  \<open>recv\<close> hands over at most \<open>len\<close> of the bytes that have arrived, none at the end of the
  stream; \<open>send\<close> accepts a prefix of the data.
\<close>

definition sys_recv :: "nat \<Rightarrow> ksock \<Rightarrow> (errno + byte list) \<times> ksock" where
  "sys_recv len k = (case next_outcome k of
     (Fails e, k1) \<Rightarrow> (Inl e, k1)
   | (Transfer n, k1) \<Rightarrow> (Inr (take (min n len) (k_in k1)), k1\<lparr>k_in := drop (min n len) (k_in k1)\<rparr>))"

definition sys_send :: "byte list \<Rightarrow> ksock \<Rightarrow> (errno + nat) \<times> ksock" where
  "sys_send data k = (case next_outcome k of
     (Fails e, k1) \<Rightarrow> (Inl e, k1)
   | (Transfer n, k1) \<Rightarrow> (Inr (min n (length data)), k1\<lparr>k_out := k_out k1 @ take n data\<rparr>))"

lemma next_outcome_script:
  "next_outcome k = (r, k') \<Longrightarrow> k_in k' = k_in k \<and> k_out k' = k_out k \<and>
    (r = Fails EAGAIN \<and> k_script k = [] \<and> k' = k \<or> k_script k = r # k_script k')"
  by (auto simp: next_outcome_def split: list.splits)

function readInner :: "nat \<Rightarrow> ksock \<Rightarrow> int \<times> byte list \<times> ksock" where
  "readInner len k = (case sys_recv len k of
     (Inl e, k1) \<Rightarrow> if e = EINTR then readInner len k1
                    else if e = EAGAIN then (0, [], k1)
                    else (-1, [], k1)
   | (Inr xs, k1) \<Rightarrow> (int (length xs), xs, k1))"
  by pat_completeness auto
termination
  by (relation "measure (\<lambda>(len, k). length (k_script k))")
    (auto simp: sys_recv_def split: prod.splits outcome.splits dest!: next_outcome_script)

declare readInner.simps [simp del]

function writeInner :: "byte list \<Rightarrow> ksock \<Rightarrow> int \<times> ksock" where
  "writeInner data k = (case sys_send data k of
     (Inl e, k1) \<Rightarrow> if e = EINTR then writeInner data k1
                    else if e = EAGAIN then (0, k1)
                    else (-1, k1)
   | (Inr n, k1) \<Rightarrow> (int n, k1))"
  by pat_completeness auto
termination
  by (relation "measure (\<lambda>(data, k). length (k_script k))")
    (auto simp: sys_send_def split: prod.splits outcome.splits dest!: next_outcome_script)

declare writeInner.simps [simp del]

text \<open>What the retry loops return: a transfer, nothing, or an error, always with fewer outcomes left.\<close>

lemma readInner_cases:
  assumes "readInner len k = (r, xs, k')"
  shows "r = int (length xs) \<and> length xs \<le> len \<and> k_in k = xs @ k_in k' \<and> k_out k' = k_out k \<and>
      (0 < r \<longrightarrow> length (k_script k') < length (k_script k)) \<or>
    r = -1 \<and> xs = [] \<and> k_in k' = k_in k \<and> k_out k' = k_out k"
  using assms
proof (induction len k rule: readInner.induct)
  case (1 len k)
  obtain o' k1 where o: "next_outcome k = (o', k1)" by (cases "next_outcome k")
  note N = next_outcome_script [OF o]
  show ?case
  proof (cases o')
    case (Transfer n)
    with o N 1(2) show ?thesis by (auto simp: readInner.simps [of len k] sys_recv_def min_def)
  next
    case (Fails e)
    with o have s: "sys_recv len k = (Inl e, k1)" by (simp add: sys_recv_def)
    show ?thesis
    proof (cases "e = EINTR")
      case True
      with 1(1) [OF s [symmetric] refl True] 1(2) s N Fails show ?thesis
        by (auto simp: readInner.simps [of len k])
    next
      case False
      with 1(2) s N show ?thesis by (auto simp: readInner.simps [of len k] split: if_splits)
    qed
  qed
qed

lemma writeInner_cases:
  assumes "writeInner data k = (r, k')"
  shows "(\<exists>n \<le> length data. r = int n \<and> k_out k' = k_out k @ take n data \<and> k_in k' = k_in k \<and>
      (0 < n \<longrightarrow> length (k_script k') < length (k_script k))) \<or>
    r = -1 \<and> k_out k' = k_out k \<and> k_in k' = k_in k"
  using assms
proof (induction data k rule: writeInner.induct)
  case (1 data k)
  obtain o' k1 where o: "next_outcome k = (o', k1)" by (cases "next_outcome k")
  note N = next_outcome_script [OF o]
  show ?case
  proof (cases o')
    case (Transfer n)
    with o N 1(2) show ?thesis
      by (intro disjI1 exI [of _ "min n (length data)"]) (auto simp: writeInner.simps [of data k] sys_send_def min_def)
  next
    case (Fails e)
    with o have s: "sys_send data k = (Inl e, k1)" by (simp add: sys_send_def)
    show ?thesis
    proof (cases "e = EINTR")
      case True
      with 1(1) [OF s [symmetric] refl True] 1(2) s N Fails show ?thesis
        by (fastforce simp: writeInner.simps [of data k])
    next
      case False
      with 1(2) s N show ?thesis by (auto simp: writeInner.simps [of data k] split: if_splits)
    qed
  qed
qed

section \<open>The controller\<close>

record SOCKController =
  c_fd :: int
  c_events :: u32
  c_peerClosed :: bool
  c_ctx :: addr
  c_info :: addr
  c_ip :: string
  c_port :: u16
  c_ipPort :: string
  c_readBuf :: SPBuffer
  c_writeBuf :: SPBuffer

text \<open>\<open>std::to_string\<close> of an unsigned number.\<close>

function decimal :: "nat \<Rightarrow> string" where
  "decimal n = (if n < 10 then [char_of (48 + n)] else decimal (n div 10) @ [char_of (48 + n mod 10)])"
  by pat_completeness auto
termination
  by (relation "measure (\<lambda>n. n)") auto

declare decimal.simps [simp del]

text \<open>
  \<open>init\<close> takes the two buffers from the pool. When the second one is not available the first
  one stays with the controller, for the destructor to return.
\<close>

definition ctrl_init :: "malloc_fun \<Rightarrow> SPTcpConfig \<Rightarrow> int \<Rightarrow> addr \<Rightarrow> addr \<Rightarrow> SOCKController \<Rightarrow> bpool \<Rightarrow>
    (bool \<times> SOCKController \<times> bpool) option" where
  "ctrl_init mal cfg fd ctx info c p = do {
     (ok1, rb, p1) \<leftarrow> SPBuffer_Init mal cfg (c_readBuf c) p;
     if \<not> ok1 then Some (False, c\<lparr>c_readBuf := rb\<rparr>, p1)
     else do {
       (ok2, wb, p2) \<leftarrow> SPBuffer_Init mal cfg (c_writeBuf c) p1;
       if \<not> ok2 then Some (False, c\<lparr>c_readBuf := rb, c_writeBuf := wb\<rparr>, p2)
       else Some (True, c\<lparr>c_readBuf := rb, c_writeBuf := wb, c_fd := fd, c_info := info, c_ctx := ctx,
                          c_events := EPOLL_DEFAULT_EVENT cfg, c_peerClosed := False,
                          c_ipPort := ''['' @ c_ip c @ '']:'' @ decimal (unat (c_port c))\<rparr>, p2)
     }
   }"

text \<open>The implicit destructor destroys the members in reverse order of declaration.\<close>

definition ctrl_destroy :: "SPTcpConfig \<Rightarrow> SOCKController \<Rightarrow> bpool \<Rightarrow> bpool option" where
  "ctrl_destroy cfg c p = do {
     p1 \<leftarrow> SPBuffer_destroy cfg (c_writeBuf c) p;
     SPBuffer_destroy cfg (c_readBuf c) p1
   }"

section \<open>Receiving\<close>

text \<open>The loop of \<open>readSocket\<close>. The range given to \<open>recv\<close> has to lie in the buffer.\<close>

function readSocket_loop :: "SPBuffer \<Rightarrow> ksock \<Rightarrow> (bool \<times> SPBuffer \<times> ksock) option" where
  "readSocket_loop b k =
     (let len = SPBuffer_distanceWrite b in
      if len = 0 then Some (True, b, k)
      else if length (b_mem b) < SPBuffer_writePtr b + unat len then None
      else case readInner (unat len) k of (bytes, xs, k1) \<Rightarrow>
        if bytes > 0 then
          (case Option.bind (fill xs b) (SPBuffer_commitWrite (word_of_int bytes)) of
             None \<Rightarrow> None
           | Some b1 \<Rightarrow> if bytes < int (unat len) then Some (True, b1, k1) else readSocket_loop b1 k1)
        else if bytes = 0 then Some (True, b, k1)
        else Some (False, b, k1))"
  by pat_completeness auto
termination
  by (relation "measure (\<lambda>(b, k). length (k_script k))") (auto dest!: sym [THEN readInner_cases])

declare readSocket_loop.simps [simp del]

definition readSocket :: "SOCKController \<Rightarrow> ksock \<Rightarrow> (bool \<times> SOCKController \<times> ksock) option" where
  "readSocket c k = map_option (\<lambda>(ok, b, k'). (ok, c\<lparr>c_readBuf := b\<rparr>, k')) (readSocket_loop (c_readBuf c) k)"

section \<open>Access to the buffers\<close>

definition getCtx :: "SOCKController \<Rightarrow> addr" where
  "getCtx c = c_ctx c"

definition isPeerClosed :: "SOCKController \<Rightarrow> bool" where
  "isPeerClosed c = c_peerClosed c"

text \<open>The length is a \<open>size_t\<close>; \<open>SPBuffer\<close> takes an \<open>unsigned int\<close>: the conversion truncates.\<close>

definition ctrl_read :: "byte list \<Rightarrow> u64 \<Rightarrow> SOCKController \<Rightarrow> (u64 \<times> byte list \<times> SOCKController) option" where
  "ctrl_read dst len c = map_option (\<lambda>(n, dst', b). (ucast n, dst', c\<lparr>c_readBuf := b\<rparr>))
     (SPBuffer_read dst (ucast len) (c_readBuf c))"

definition ctrl_peek :: "byte list \<Rightarrow> u64 \<Rightarrow> SOCKController \<Rightarrow> (u64 \<times> byte list) option" where
  "ctrl_peek dst len c = map_option (\<lambda>(n, dst'). (ucast n, dst')) (SPBuffer_peek dst (ucast len) (c_readBuf c))"

definition ctrl_writeTemp :: "byte list \<Rightarrow> u64 \<Rightarrow> SOCKController \<Rightarrow> (u64 \<times> SOCKController) option" where
  "ctrl_writeTemp src len c = map_option (\<lambda>(n, b). (ucast n, c\<lparr>c_writeBuf := b\<rparr>))
     (SPBuffer_write src (ucast len) (c_writeBuf c))"

definition getReadBufferSize :: "SOCKController \<Rightarrow> u64" where
  "getReadBufferSize c = ucast (SPBuffer_bytesRead (c_readBuf c))"

definition getWriteBufferSize :: "SOCKController \<Rightarrow> u64" where
  "getWriteBufferSize c = ucast (SPBuffer_bytesRead (c_writeBuf c))"

definition getReadBuffer :: "SOCKController \<Rightarrow> SPBuffer" where
  "getReadBuffer c = c_readBuf c"

definition getWriteBuffer :: "SOCKController \<Rightarrow> SPBuffer" where
  "getWriteBuffer c = c_writeBuf c"

definition getReadBufferCapacity :: "SPTcpConfig \<Rightarrow> nat" where
  "getReadBufferCapacity cfg = to_size_t (READ_BSIZE cfg)"

definition getWriteBufferCapacity :: "SPTcpConfig \<Rightarrow> nat" where
  "getWriteBufferCapacity cfg = to_size_t (WRITE_BSIZE cfg)"

section \<open>Sending\<close>

text \<open>\<open>write\<close> sends directly; \<open>data\<close> is the caller's buffer of \<open>len\<close> bytes.\<close>

function ctrl_write :: "byte list \<Rightarrow> SOCKController \<Rightarrow> ksock \<Rightarrow> int \<times> SOCKController \<times> ksock" where
  "ctrl_write data c k = (case sys_send data k of
     (Inl e, k1) \<Rightarrow> if e = EINTR then ctrl_write data c k1
                    else if e = EAGAIN then (0, c, k1)
                    else if e = EPIPE \<or> e = ECONNRESET then (-2, c\<lparr>c_peerClosed := True\<rparr>, k1)
                    else (-1, c, k1)
   | (Inr n, k1) \<Rightarrow> (int n, c, k1))"
  by pat_completeness auto
termination
  by (relation "measure (\<lambda>(data, c, k). length (k_script k))")
    (auto simp: sys_send_def split: prod.splits outcome.splits dest!: next_outcome_script)

declare ctrl_write.simps [simp del]

text \<open>The loop of \<open>commitWrite\<close>. \<open>bytesRead\<close> is an \<open>unsigned int\<close> converted to \<open>ssize_t\<close>.\<close>

function commitWrite_loop :: "SPBuffer \<Rightarrow> ksock \<Rightarrow> (int \<times> SPBuffer \<times> ksock) option" where
  "commitWrite_loop b k =
     (let len = SPBuffer_distanceRead b in
      if len = 0 then Some (0, b, k)
      else case buf_peek_lin (unat len) b of
        None \<Rightarrow> None
      | Some data \<Rightarrow> (case writeInner data k of (bytes, k1) \<Rightarrow>
          if bytes > 0 then
            (case SPBuffer_commitRead (word_of_int bytes) b of
               None \<Rightarrow> None
             | Some b1 \<Rightarrow> if bytes < int (unat len) then Some (int (unat (SPBuffer_bytesRead b1)), b1, k1)
                          else commitWrite_loop b1 k1)
          else if bytes = 0 then Some (int (unat (SPBuffer_bytesRead b)), b, k1)
          else Some (bytes, b, k1)))"
  by pat_completeness auto
termination
  by (relation "measure (\<lambda>(b, k). length (k_script k))") (auto dest!: sym [THEN writeInner_cases])

declare commitWrite_loop.simps [simp del]

definition ctrl_commitWrite :: "SOCKController \<Rightarrow> ksock \<Rightarrow> (int \<times> SOCKController \<times> ksock) option" where
  "ctrl_commitWrite c k = map_option (\<lambda>(r, b, k'). (r, c\<lparr>c_writeBuf := b\<rparr>, k')) (commitWrite_loop (c_writeBuf c) k)"

function writeBack_loop :: "int \<Rightarrow> SPBuffer \<Rightarrow> ksock \<Rightarrow> (int \<times> SPBuffer \<times> ksock) option" where
  "writeBack_loop writeResult b k =
     (let chunk = SPBuffer_distanceRead b in
      if chunk = 0 then Some (writeResult, b, k)
      else case buf_peek_lin (unat chunk) b of
        None \<Rightarrow> None
      | Some data \<Rightarrow> (case writeInner data k of (sent, k1) \<Rightarrow>
          if sent > 0 then
            (case SPBuffer_commitRead (word_of_int sent) b of
               None \<Rightarrow> None
             | Some b1 \<Rightarrow> writeBack_loop (writeResult + sent) b1 k1)
          else if sent = 0 then Some (writeResult, b, k1)
          else Some (sent, b, k1)))"
  by pat_completeness auto
termination
  by (relation "measure (\<lambda>(r, b, k). length (k_script k))") (auto dest!: sym [THEN writeInner_cases])

declare writeBack_loop.simps [simp del]

definition writeBack :: "SOCKController \<Rightarrow> ksock \<Rightarrow> (int \<times> SOCKController \<times> ksock) option" where
  "writeBack c k = do {
     (writeResult, c1, k1) \<leftarrow> ctrl_commitWrite c k;
     if writeResult \<noteq> 0 then Some (writeResult, c1, k1)
     else do {
       (r, rb, k2) \<leftarrow> writeBack_loop writeResult (c_readBuf c1) k1;
       Some (r, c1\<lparr>c_readBuf := rb\<rparr>, k2)
     }
   }"

section \<open>Moving between the buffers\<close>

text \<open>
  The loop of \<open>moveToWriteBuffer\<close>; that it ends is a theorem. The copy reads \<open>chunk\<close> bytes at
  the read pointer of one buffer and stores them at the write pointer of the other.
\<close>

partial_function (option) move_loop :: "u32 \<Rightarrow> u32 \<Rightarrow> SPBuffer \<Rightarrow> SPBuffer \<Rightarrow> (u32 \<times> SPBuffer \<times> SPBuffer) option" where
  "move_loop moved maxMove rb wb =
     (if moved < maxMove then
        let chunk = min (SPBuffer_distanceRead rb) (SPBuffer_distanceWrite wb) in
        if chunk = 0 then Some (moved, rb, wb)
        else Option.bind (buf_peek_lin (unat chunk) rb) (\<lambda>data.
             Option.bind (fill data wb) (\<lambda>wb1.
             Option.bind (SPBuffer_commitRead chunk rb) (\<lambda>rb1.
             Option.bind (SPBuffer_commitWrite chunk wb1) (\<lambda>wb2.
               move_loop (moved + chunk) maxMove rb1 wb2))))
      else Some (moved, rb, wb))"

definition moveToWriteBuffer :: "SOCKController \<Rightarrow> (u64 \<times> SOCKController) option" where
  "moveToWriteBuffer c = do {
     let maxMove = min (SPBuffer_bytesRead (c_readBuf c)) (SPBuffer_bytesWrite (c_writeBuf c));
     (moved, rb, wb) \<leftarrow> move_loop 0 maxMove (c_readBuf c) (c_writeBuf c);
     Some (ucast moved, c\<lparr>c_readBuf := rb, c_writeBuf := wb\<rparr>)
   }"

section \<open>Events\<close>

text \<open>The functions that the pointers \<open>funcEvent\<close> and \<open>funcClose\<close> stand for; calling a null pointer is \<^term>\<open>None\<close>.\<close>

type_synonym 'w func_event = "SOCKController \<Rightarrow> bool \<Rightarrow> bool \<Rightarrow> 'w \<Rightarrow> (bool \<times> 'w) option"
type_synonym 'w func_close = "SOCKController \<Rightarrow> 'w \<Rightarrow> 'w option"

definition enableEvents ::
  "'w func_event \<Rightarrow> bool \<Rightarrow> bool \<Rightarrow> SOCKController \<Rightarrow> 'w \<Rightarrow> (bool \<times> SOCKController \<times> 'w) option" where
  "enableEvents funcEvent read write c w = do {
     (ret, w') \<leftarrow> funcEvent c read write w;
     let ev = (if ret then (if read then EPOLLIN else 0) OR (if write then EPOLLOUT else 0) else 0);
     Some (ret, c\<lparr>c_events := ev\<rparr>, w')
   }"

definition renableEvents :: "'w func_event \<Rightarrow> SOCKController \<Rightarrow> 'w \<Rightarrow> (bool \<times> SOCKController \<times> 'w) option" where
  "renableEvents funcEvent c w = do {
     (ret, w') \<leftarrow> funcEvent c (c_events c AND EPOLLIN \<noteq> 0) (c_events c AND EPOLLOUT \<noteq> 0) w;
     Some (ret, if ret then c else c\<lparr>c_events := 0\<rparr>, w')
   }"

definition ctrl_close :: "'w func_close \<Rightarrow> SOCKController \<Rightarrow> 'w \<Rightarrow> 'w option" where
  "ctrl_close funcClose c w = funcClose c w"

text \<open>\<open>SPDefered::REnableFunc\<close> of \<open>SPDeferred.cpp\<close>.\<close>

definition REnableFunc :: "'w func_event \<Rightarrow> 'w func_close \<Rightarrow> SOCKController \<Rightarrow> 'w \<Rightarrow> (SOCKController \<times> 'w) option" where
  "REnableFunc funcEvent funcClose c w = do {
     (ret, c1, w1) \<leftarrow> renableEvents funcEvent c w;
     if ret then Some (c1, w1)
     else do { w2 \<leftarrow> ctrl_close funcClose c1 w1; Some (c1, w2) }
   }"

section \<open>Lemmas on the loops\<close>

lemma distanceWrite_zero: "buf_inv b \<Longrightarrow> SPBuffer_distanceWrite b = 0 \<longleftrightarrow> length (contents b) = capacity b"
  using buf_invD(5,7) [of b]
  by (auto simp: u32_eq_0_iff distanceWrite_nat length_contents capacity_def min_def)

lemma distanceRead_zero: "buf_inv b \<Longrightarrow> SPBuffer_distanceRead b = 0 \<longleftrightarrow> contents b = []"
  using buf_invD(4) [of b] by (auto simp: u32_eq_0_iff distanceRead_nat min_def)

lemma write_window:
  "buf_inv b \<Longrightarrow> SPBuffer_writePtr b + unat (SPBuffer_distanceWrite b) \<le> length (b_mem b)"
  using buf_invD(1,7) [of b] distanceWrite_nat [of b] by (simp add: SPBuffer_writePtr_def min_def split: if_splits)

lemma word_of_length: "word_of_int (int n) = (of_nat n :: u32)"
  by simp

text \<open>Receiving \<open>xs\<close> into the window, and sending the window, as one step each.\<close>

lemma receive_step:
  assumes "buf_inv b" "length xs \<le> unat (SPBuffer_distanceWrite b)"
  shows "\<exists>b'. Option.bind (fill xs b) (SPBuffer_commitWrite (word_of_int (int (length xs)))) = Some b' \<and>
    buf_inv b' \<and> contents b' = contents b @ xs \<and> capacity b' = capacity b"
  using buf.put_lin_law [OF assms] unfolding buf_put_lin_def word_of_length by blast

lemma send_step:
  assumes "buf_inv b" "n \<le> unat (SPBuffer_distanceRead b)"
  shows "\<exists>b'. SPBuffer_commitRead (word_of_int (int n)) b = Some b' \<and> buf_inv b' \<and>
    contents b' = drop n (contents b) \<and> capacity b' = capacity b"
  using buf.drop_lin_law [OF assms] unfolding buf_drop_lin_def word_of_length by blast

lemma readSocket_loop_ok:
  assumes "buf_inv b"
  shows "\<exists>ok b' k'. readSocket_loop b k = Some (ok, b', k') \<and> buf_inv b' \<and> capacity b' = capacity b \<and>
    contents b' @ k_in k' = contents b @ k_in k \<and> k_out k' = k_out k"
  using assms
proof (induction b k rule: readSocket_loop.induct)
  case (1 b k)
  let ?len = "SPBuffer_distanceWrite b"
  show ?case
  proof (cases "?len = 0")
    case True
    with 1(2) show ?thesis by (intro exI [of _ True]) (simp add: readSocket_loop.simps)
  next
    case False
    have v: "\<not> length (b_mem b) < SPBuffer_writePtr b + unat ?len" using write_window [OF 1(2)] by simp
    obtain bytes xs k1 where r: "readInner (unat ?len) k = (bytes, xs, k1)" by (cases "readInner (unat ?len) k")
    note R = readInner_cases [OF r]
    show ?thesis
    proof (cases "bytes > 0")
      case True
      then have xs: "bytes = int (length xs)" "length xs \<le> unat ?len" "k_in k = xs @ k_in k1" "k_out k1 = k_out k"
        using R by auto
      from receive_step [OF 1(2) xs(2)] obtain b1 where
        b1: "Option.bind (fill xs b) (SPBuffer_commitWrite (word_of_int bytes)) = Some b1" "buf_inv b1"
          "contents b1 = contents b @ xs" "capacity b1 = capacity b" unfolding xs(1) by blast
      show ?thesis
      proof (cases "bytes < int (unat ?len)")
        case short: True
        with False v r True b1 xs show ?thesis
          by (intro exI [of _ True]) (simp add: readSocket_loop.simps [of b k] Let_def)
      next
        case full: False
        from 1(1) [OF refl False v r [symmetric] refl True b1(1) full b1(2)] False v r True b1 xs full show ?thesis
          by (simp add: readSocket_loop.simps [of b k] Let_def)
      qed
    next
      case no: False
      with False v r R 1(2) show ?thesis by (auto simp: readSocket_loop.simps [of b k] Let_def)
    qed
  qed
qed

lemma commitWrite_loop_ok:
  assumes "buf_inv b"
  shows "\<exists>r b' k'. commitWrite_loop b k = Some (r, b', k') \<and> buf_inv b' \<and> capacity b' = capacity b \<and>
    k_out k' @ contents b' = k_out k @ contents b \<and> k_in k' = k_in k \<and>
    (r = int (length (contents b')) \<or> r = -1)"
  using assms
proof (induction b k rule: commitWrite_loop.induct)
  case (1 b k)
  let ?len = "SPBuffer_distanceRead b"
  show ?case
  proof (cases "?len = 0")
    case True
    with 1(2) show ?thesis by (simp add: commitWrite_loop.simps distanceRead_zero)
  next
    case False
    let ?data = "take (unat ?len) (contents b)"
    have d: "buf_peek_lin (unat ?len) b = Some ?data" by (rule buf.peek_lin_law [OF 1(2) order_refl])
    obtain bytes k1 where w: "writeInner ?data k = (bytes, k1)" by (cases "writeInner ?data k")
    note R = writeInner_cases [OF w]
    show ?thesis
    proof (cases "bytes > 0")
      case True
      then obtain n where n: "bytes = int n" "n \<le> unat ?len" "k_out k1 = k_out k @ take n ?data" "k_in k1 = k_in k"
        using R by auto
      from send_step [OF 1(2) n(2)] obtain b1 where
        b1: "SPBuffer_commitRead (word_of_int bytes) b = Some b1" "buf_inv b1" "contents b1 = drop n (contents b)"
          "capacity b1 = capacity b" unfolding n(1) by blast
      have o: "k_out k1 @ contents b1 = k_out k @ contents b" using n(2,3) b1(3) by (simp add: min_def)
      show ?thesis
      proof (cases "bytes < int (unat ?len)")
        case short: True
        with False d w True b1 n(4) o show ?thesis
          by (simp add: commitWrite_loop.simps [of b k] Let_def SPBuffer_bytesRead_def length_contents)
      next
        case full: False
        from 1(1) [OF refl False d w [symmetric] True b1(1) full b1(2)] False d w True b1 n(4) o full show ?thesis
          by (simp add: commitWrite_loop.simps [of b k] Let_def)
      qed
    next
      case no: False
      with False d w R 1(2) show ?thesis
        by (auto simp: commitWrite_loop.simps [of b k] Let_def SPBuffer_bytesRead_def length_contents)
    qed
  qed
qed

lemma writeBack_loop_ok:
  assumes "buf_inv b"
  shows "\<exists>r b' k'. writeBack_loop res b k = Some (r, b', k') \<and> buf_inv b' \<and> capacity b' = capacity b \<and>
    k_out k' @ contents b' = k_out k @ contents b \<and> k_in k' = k_in k \<and> length (contents b') \<le> length (contents b) \<and>
    (r = res + int (length (contents b)) - int (length (contents b')) \<or> r = -1)"
  using assms
proof (induction res b k rule: writeBack_loop.induct)
  case (1 res b k)
  let ?len = "SPBuffer_distanceRead b"
  show ?case
  proof (cases "?len = 0")
    case True
    with 1(2) show ?thesis by (simp add: writeBack_loop.simps)
  next
    case False
    let ?data = "take (unat ?len) (contents b)"
    have d: "buf_peek_lin (unat ?len) b = Some ?data" by (rule buf.peek_lin_law [OF 1(2) order_refl])
    obtain sent k1 where w: "writeInner ?data k = (sent, k1)" by (cases "writeInner ?data k")
    note R = writeInner_cases [OF w]
    show ?thesis
    proof (cases "sent > 0")
      case True
      then obtain n where n: "sent = int n" "n \<le> unat ?len" "k_out k1 = k_out k @ take n ?data" "k_in k1 = k_in k"
        using R by auto
      from send_step [OF 1(2) n(2)] obtain b1 where
        b1: "SPBuffer_commitRead (word_of_int sent) b = Some b1" "buf_inv b1" "contents b1 = drop n (contents b)"
          "capacity b1 = capacity b" unfolding n(1) by blast
      have o: "k_out k1 @ contents b1 = k_out k @ contents b" using n(2,3) b1(3) by (simp add: min_def)
      have l: "n \<le> length (contents b)" using n(2) buf.rwin_le [OF 1(2)] by simp
      from 1(1) [OF refl False d w [symmetric] True b1(1,2)] obtain r b' k' where
        i: "writeBack_loop (res + sent) b1 k1 = Some (r, b', k')" "buf_inv b'" "capacity b' = capacity b1"
          "k_out k' @ contents b' = k_out k1 @ contents b1" "k_in k' = k_in k1"
          "length (contents b') \<le> length (contents b1)" "r = res + sent + int (length (contents b1)) - int (length (contents b')) \<or> r = -1" by blast
      have "int (length (contents b1)) + sent = int (length (contents b))" using b1(3) l n(1) by simp
      then have "r = res + int (length (contents b)) - int (length (contents b')) \<or> r = -1" using i(7) by linarith
      moreover have "writeBack_loop res b k = Some (r, b', k')" using False d w True b1(1) i(1)
        by (simp add: writeBack_loop.simps [of res b k] Let_def)
      ultimately show ?thesis using b1(3,4) n(4) o i(2-6) by auto
    next
      case no: False
      with False d w R 1(2) show ?thesis by (auto simp: writeBack_loop.simps [of res b k] Let_def)
    qed
  qed
qed

text \<open>
  \<open>moveToWriteBuffer\<close>: \<open>n\<close> is what the two buffers still allow. Every iteration moves at least
  one byte and no more than \<open>n\<close>, so the count reaches \<open>maxMove\<close> exactly.
\<close>

lemma move_loop_ok:
  assumes "buf_inv rb" "buf_inv wb" "n = min (length (contents rb)) (capacity wb - length (contents wb))"
    "unat maxMove = unat moved + n"
  shows "\<exists>rb' wb'. move_loop moved maxMove rb wb = Some (maxMove, rb', wb') \<and> buf_inv rb' \<and> buf_inv wb' \<and>
    contents wb' = contents wb @ take n (contents rb) \<and> contents rb' = drop n (contents rb) \<and>
    capacity rb' = capacity rb \<and> capacity wb' = capacity wb"
  using assms
proof (induction n arbitrary: moved rb wb rule: less_induct)
  case (less n)
  show ?case
  proof (cases "n = 0")
    case True
    with less.prems(4) have "moved = maxMove" by (simp add: unat_eq_u32)
    with True less.prems show ?thesis by (simp add: move_loop.simps)
  next
    case False
    let ?c = "min (SPBuffer_distanceRead rb) (SPBuffer_distanceWrite wb)" and ?k = "unat (min (SPBuffer_distanceRead rb) (SPBuffer_distanceWrite wb))"
    have lt: "moved < maxMove" using less.prems(4) False by (simp add: word_less_nat_alt)
    have "SPBuffer_distanceRead rb \<noteq> 0" "SPBuffer_distanceWrite wb \<noteq> 0"
      using distanceRead_zero [OF less.prems(1)] distanceWrite_zero [OF less.prems(2)] less.prems(3) False by auto
    then have c0: "?c \<noteq> 0" by (simp add: min_def)
    have kr: "?k \<le> unat (SPBuffer_distanceRead rb)" and kw: "?k \<le> unat (SPBuffer_distanceWrite wb)"
      by (simp_all add: unat_min_u32)
    have kn: "?k \<le> n" using kr kw less.prems(3) buf.rwin_le [OF less.prems(1)] buf.wwin_le [OF less.prems(2)] by simp
    let ?d = "take ?k (contents rb)"
    have d: "buf_peek_lin ?k rb = Some ?d" by (rule buf.peek_lin_law [OF less.prems(1) kr])
    have dl: "length ?d = ?k" using kn less.prems(3) by simp
    obtain wb1 wb2 where w: "fill ?d wb = Some wb1" "SPBuffer_commitWrite ?c wb1 = Some wb2" "buf_inv wb2"
      "contents wb2 = contents wb @ ?d" "capacity wb2 = capacity wb"
      using commitWrite_ok [OF less.prems(2) kw dl] by blast
    obtain rb1 where r: "SPBuffer_commitRead ?c rb = Some rb1" "buf_inv rb1" "contents rb1 = drop ?k (contents rb)"
      "capacity rb1 = capacity rb"
      using commitRead_ok [OF less.prems(1), of ?c] kn less.prems(3) by auto
    have kp: "0 < ?k" using c0 by (simp add: unat_gt_0)
    have m: "unat (moved + ?c) = unat moved + ?k"
      using kn less.prems(4) le_unat_u32 [of "unat moved + ?k" maxMove] by (intro unat_add_small) simp
    have "n - ?k < n" using kp False by simp
    moreover have "n - ?k = min (length (contents rb1)) (capacity wb2 - length (contents wb2))"
    proof -
      have "min a (c - x) - k = min (a - k) (c - (x + k))" for a c x k :: nat by simp
      moreover have "length (contents rb1) = length (contents rb) - ?k" using r(3) by simp
      moreover have "length (contents wb2) = length (contents wb) + ?k" using w(4) dl by simp
      ultimately show ?thesis using less.prems(3) w(5) by presburger
    qed
    moreover have "unat maxMove = unat (moved + ?c) + (n - ?k)" using m kn less.prems(4) by simp
    ultimately obtain rb' wb' where i: "move_loop (moved + ?c) maxMove rb1 wb2 = Some (maxMove, rb', wb')"
      "buf_inv rb'" "buf_inv wb'" "contents wb' = contents wb2 @ take (n - ?k) (contents rb1)"
      "contents rb' = drop (n - ?k) (contents rb1)" "capacity rb' = capacity rb1" "capacity wb' = capacity wb2"
      using less.IH [OF _ r(2) w(3)] by blast
    have "move_loop moved maxMove rb wb = Some (maxMove, rb', wb')"
      using lt c0 d w(1,2) r(1) i(1) by (subst move_loop.simps) (simp add: Let_def)
    moreover have "take n (contents rb) = ?d @ take (n - ?k) (drop ?k (contents rb))"
      using kn take_add [of ?k "n - ?k" "contents rb"] by simp
    moreover have "drop (n - ?k) (drop ?k (contents rb)) = drop n (contents rb)" using kn by simp
    ultimately show ?thesis using i r w by simp
  qed
qed

section \<open>Life cycle\<close>

text \<open>A controller as \<open>HandleConnect\<close> creates it, before \<open>init\<close>.\<close>

definition ctrl_new :: "string \<Rightarrow> u16 \<Rightarrow> SOCKController" where
  "ctrl_new ip port = \<lparr>c_fd = 0, c_events = 0, c_peerClosed = False, c_ctx = null, c_info = null, c_ip = ip, c_port = port,
     c_ipPort = [], c_readBuf = SPBuffer_new BUFFER_TYPE_READ, c_writeBuf = SPBuffer_new BUFFER_TYPE_WRITE\<rparr>"

definition ctrl_inv :: "SOCKController \<Rightarrow> bool" where
  "ctrl_inv c \<longleftrightarrow> buf_inv (c_readBuf c) \<and> buf_inv (c_writeBuf c)"

text \<open>The pool buffers a controller holds.\<close>

definition ctrl_holds :: "SOCKController \<Rightarrow> (BUFFER_TYPE \<times> addr) set" where
  "ctrl_holds c = {(t, r). r \<noteq> null \<and> (t = BUFFER_TYPE_READ \<and> r = b_buffer (c_readBuf c) \<or>
     t = BUFFER_TYPE_WRITE \<and> r = b_buffer (c_writeBuf c))}"

lemma ctrl_init_ok:
  assumes p: "pool_ready mal cfg H p"
  shows "\<exists>ok c p'. ctrl_init mal cfg fd ctx info (ctrl_new ip port) p = Some (ok, c, p') \<and>
    b_type (c_readBuf c) = BUFFER_TYPE_READ \<and> b_type (c_writeBuf c) = BUFFER_TYPE_WRITE \<and>
    ctrl_holds c \<inter> H = {} \<and> pool_ready mal cfg (H \<union> ctrl_holds c) p' \<and>
    (ok \<longrightarrow> ctrl_inv c \<and> contents (c_readBuf c) = [] \<and> contents (c_writeBuf c) = [] \<and> c_fd c = fd \<and>
       c_events c = EPOLL_DEFAULT_EVENT cfg \<and> c_info c = info \<and> c_ctx c = ctx) \<and>
    (\<not> ok \<longrightarrow> c_fd c = 0)"
proof -
  let ?R = BUFFER_TYPE_READ and ?W = BUFFER_TYPE_WRITE
  obtain ok1 rb p1 where r: "SPBuffer_Init mal cfg (SPBuffer_new ?R) p = Some (ok1, rb, p1)" "b_type rb = ?R"
    "if ok1 then b_buffer rb \<noteq> null \<and> buf_inv rb \<and> contents rb = [] \<and> capacity rb = nat (cfg_bsize cfg ?R) \<and>
       (?R, b_buffer rb) \<notin> H \<and> pool_ready mal cfg (insert (?R, b_buffer rb) H) p1
     else b_buffer rb = null \<and> p1 = p"
    using Init_ok [OF p refl, of ?R] by blast
  show ?thesis
  proof (cases ok1)
    case False
    let ?c = "ctrl_new ip port\<lparr>c_readBuf := rb\<rparr>"
    have "ctrl_holds ?c = {}" using r(3) False by (auto simp: ctrl_holds_def ctrl_new_def SPBuffer_new_def)
    moreover have "ctrl_init mal cfg fd ctx info (ctrl_new ip port) p = Some (False, ?c, p1)"
      using r(1) False by (simp add: ctrl_init_def ctrl_new_def)
    ultimately show ?thesis using r False p by (auto simp: ctrl_new_def SPBuffer_new_def)
  next
    case True
    then have r1: "b_buffer rb \<noteq> null" "buf_inv rb" "contents rb = []" "(?R, b_buffer rb) \<notin> H"
      and p1: "pool_ready mal cfg (insert (?R, b_buffer rb) H) p1" using r(3) by simp_all
    obtain ok2 wb p2 where w: "SPBuffer_Init mal cfg (SPBuffer_new ?W) p1 = Some (ok2, wb, p2)" "b_type wb = ?W"
      "if ok2 then b_buffer wb \<noteq> null \<and> buf_inv wb \<and> contents wb = [] \<and> capacity wb = nat (cfg_bsize cfg ?W) \<and>
         (?W, b_buffer wb) \<notin> insert (?R, b_buffer rb) H \<and>
         pool_ready mal cfg (insert (?W, b_buffer wb) (insert (?R, b_buffer rb) H)) p2
       else b_buffer wb = null \<and> p2 = p1"
      using Init_ok [OF p1 refl, of ?W] by blast
    have hold: "ctrl_holds c = (if ok2 then {(?W, b_buffer wb), (?R, b_buffer rb)} else {(?R, b_buffer rb)})"
      if "c_readBuf c = rb" "c_writeBuf c = wb" for c
      using that w(3) r1(1) by (auto simp: ctrl_holds_def)
    have H: "H \<union> {(?W, b_buffer wb), (?R, b_buffer rb)} = insert (?W, b_buffer wb) (insert (?R, b_buffer rb) H)"
      "H \<union> {(?R, b_buffer rb)} = insert (?R, b_buffer rb) H" by auto
    show ?thesis
    proof (cases ok2)
      case False
      let ?c = "ctrl_new ip port\<lparr>c_readBuf := rb, c_writeBuf := wb\<rparr>"
      have "ctrl_init mal cfg fd ctx info (ctrl_new ip port) p = Some (False, ?c, p2)"
        using r(1) w(1) True False by (simp add: ctrl_init_def ctrl_new_def)
      with hold [of ?c] r(2) w(2,3) r1 p1 False H(2) show ?thesis by (auto simp: ctrl_new_def)
    next
      case ok2: True
      let ?c = "ctrl_new ip port\<lparr>c_readBuf := rb, c_writeBuf := wb, c_fd := fd, c_info := info, c_ctx := ctx,
        c_events := EPOLL_DEFAULT_EVENT cfg, c_peerClosed := False, c_ipPort := ''['' @ ip @ '']:'' @ decimal (unat port)\<rparr>"
      have "ctrl_init mal cfg fd ctx info (ctrl_new ip port) p = Some (True, ?c, p2)"
        using r(1) w(1) True ok2 by (simp add: ctrl_init_def ctrl_new_def)
      with hold [of ?c] r(2) w(2,3) r1 ok2 H(1) show ?thesis by (auto simp: ctrl_inv_def)
    qed
  qed
qed

lemma ctrl_destroy_ok:
  assumes p: "pool_ready mal cfg (H \<union> ctrl_holds c) p" and d: "ctrl_holds c \<inter> H = {}"
    and t: "b_type (c_readBuf c) = BUFFER_TYPE_READ" "b_type (c_writeBuf c) = BUFFER_TYPE_WRITE"
  shows "\<exists>p'. ctrl_destroy cfg c p = Some p' \<and> pool_ready mal cfg H p'"
proof -
  let ?rb = "c_readBuf c" and ?wb = "c_writeBuf c" and ?H = "H \<union> ctrl_holds c"
  let ?H1 = "if b_buffer ?wb = null then ?H else ?H - {(BUFFER_TYPE_WRITE, b_buffer ?wb)}"
  have "b_buffer ?wb \<noteq> null \<Longrightarrow> (b_type ?wb, b_buffer ?wb) \<in> ?H" using t(2) by (auto simp: ctrl_holds_def)
  from destroy_ok [OF p this] obtain p1 where 1: "SPBuffer_destroy cfg ?wb p = Some p1" "pool_ready mal cfg ?H1 p1"
    unfolding t by blast
  have "b_buffer ?rb \<noteq> null \<Longrightarrow> (b_type ?rb, b_buffer ?rb) \<in> ?H1" using t(1) by (auto simp: ctrl_holds_def)
  from destroy_ok [OF 1(2) this] obtain p2 where 2: "SPBuffer_destroy cfg ?rb p1 = Some p2"
    "pool_ready mal cfg (if b_buffer ?rb = null then ?H1 else ?H1 - {(BUFFER_TYPE_READ, b_buffer ?rb)}) p2"
    unfolding t by blast
  have "(if b_buffer ?rb = null then ?H1 else ?H1 - {(BUFFER_TYPE_READ, b_buffer ?rb)}) = H"
    using d by (auto simp: ctrl_holds_def)
  with 1 2 show ?thesis by (simp add: ctrl_destroy_def)
qed

section \<open>Properties\<close>

text \<open>A controller with data in both buffers, on eight-byte buffers.\<close>

definition sample_ctrl :: SOCKController where
  "sample_ctrl = ctrl_new ''10.0.0.1'' 8080\<lparr>c_fd := 5, c_readBuf := sample_buffer,
     c_writeBuf := sample_buffer\<lparr>b_type := BUFFER_TYPE_WRITE, b_buffer := 200\<rparr>\<rparr>"

definition sample_sock :: ksock where
  "sample_sock = \<lparr>k_in = [6, 7, 8, 9], k_out = [], k_script = [Fails EINTR, Transfer 2, Transfer 9]\<rparr>"

lemma sample_ctrl_inv: "ctrl_inv sample_ctrl" "contents (c_writeBuf sample_ctrl) = [1, 2, 3, 4, 5]"
  "contents (c_readBuf sample_ctrl) = [1, 2, 3, 4, 5]" "capacity (c_writeBuf sample_ctrl) = 8"
  using sample_buffer_inv by (simp_all add: ctrl_inv_def sample_ctrl_def buf_inv_def contents_def capacity_def)

text \<open>
  C19. \<open>readSocket\<close> terminates, stays inside the buffer and neither loses nor reorders a byte,
  whatever sequence of partial reads, interruptions and errors the kernel answers: the stored
  bytes followed by the bytes still in the kernel are the same before and after. Nothing is sent.
\<close>

theorem readSocket_conserves:
  assumes "ctrl_inv c"
  shows "\<exists>ok c' k'. readSocket c k = Some (ok, c', k') \<and> ctrl_inv c' \<and> c_writeBuf c' = c_writeBuf c \<and>
    contents (c_readBuf c') @ k_in k' = contents (c_readBuf c) @ k_in k \<and> k_out k' = k_out k"
  using readSocket_loop_ok [of "c_readBuf c" k] assms by (auto simp: readSocket_def ctrl_inv_def)

theorem readSocket_conserves_witness:
  "\<exists>ok c' k'. readSocket sample_ctrl sample_sock = Some (ok, c', k') \<and> ctrl_inv c' \<and>
    c_writeBuf c' = c_writeBuf sample_ctrl \<and>
    contents (c_readBuf c') @ k_in k' = contents (c_readBuf sample_ctrl) @ k_in sample_sock \<and> k_out k' = k_out sample_sock"
  by (rule readSocket_conserves [OF sample_ctrl_inv(1)])

text \<open>
  C20. \<open>commitWrite\<close> terminates and neither loses nor reorders a byte: what was sent followed by
  what is stored is the same before and after. It returns the number of bytes left in the write
  buffer, or -1 after an error. In particular it never returns -2, although the
  documentation announces that value for a peer that has closed.
\<close>

theorem commitWrite_conserves:
  assumes "ctrl_inv c"
  shows "\<exists>r c' k'. ctrl_commitWrite c k = Some (r, c', k') \<and> ctrl_inv c' \<and> c_readBuf c' = c_readBuf c \<and>
    k_out k' @ contents (c_writeBuf c') = k_out k @ contents (c_writeBuf c) \<and>
    (r = int (length (contents (c_writeBuf c'))) \<or> r = -1) \<and> r \<noteq> -2"
  using commitWrite_loop_ok [of "c_writeBuf c" k] assms by (fastforce simp: ctrl_commitWrite_def ctrl_inv_def)

theorem commitWrite_conserves_witness:
  "\<exists>r c' k'. ctrl_commitWrite sample_ctrl sample_sock = Some (r, c', k') \<and> ctrl_inv c' \<and>
    c_readBuf c' = c_readBuf sample_ctrl \<and>
    k_out k' @ contents (c_writeBuf c') = k_out sample_sock @ contents (c_writeBuf sample_ctrl) \<and>
    (r = int (length (contents (c_writeBuf c'))) \<or> r = -1) \<and> r \<noteq> -2"
  by (rule commitWrite_conserves [OF sample_ctrl_inv(1)])



lemma moveToWriteBuffer_ok:
  assumes "ctrl_inv c" "n = min (length (contents (c_readBuf c))) (capacity (c_writeBuf c) - length (contents (c_writeBuf c)))"
  shows "\<exists>c'. moveToWriteBuffer c = Some (of_nat n, c') \<and> ctrl_inv c' \<and>
    contents (c_writeBuf c') = contents (c_writeBuf c) @ take n (contents (c_readBuf c)) \<and>
    contents (c_readBuf c') = drop n (contents (c_readBuf c))"
proof -
  from assms(1) have inv: "buf_inv (c_readBuf c)" "buf_inv (c_writeBuf c)" by (simp_all add: ctrl_inv_def)
  let ?m = "min (SPBuffer_bytesRead (c_readBuf c)) (SPBuffer_bytesWrite (c_writeBuf c))"
  have m: "unat ?m = n"
    using bytesWrite_nat [OF inv(2)] assms(2) by (simp add: unat_min_u32 SPBuffer_bytesRead_def length_contents)
  obtain rb wb where "move_loop 0 ?m (c_readBuf c) (c_writeBuf c) = Some (?m, rb, wb)" "buf_inv rb" "buf_inv wb"
    "contents wb = contents (c_writeBuf c) @ take n (contents (c_readBuf c))" "contents rb = drop n (contents (c_readBuf c))"
    using move_loop_ok [OF inv assms(2), of ?m 0] m by auto
  moreover have "ucast ?m = (of_nat n :: u64)" unfolding m [symmetric] by simp
  ultimately show ?thesis by (simp add: moveToWriteBuffer_def ctrl_inv_def Let_def)
qed

text \<open>
  C22. \<open>moveToWriteBuffer\<close> terminates, moves as many bytes as both buffers allow, in order, and
  returns that number.
\<close>

theorem moveToWriteBuffer_moves:
  assumes "ctrl_inv c" "n = min (length (contents (c_readBuf c))) (capacity (c_writeBuf c) - length (contents (c_writeBuf c)))"
  shows "\<exists>c'. moveToWriteBuffer c = Some (of_nat n, c') \<and> ctrl_inv c' \<and>
    contents (c_writeBuf c') = contents (c_writeBuf c) @ take n (contents (c_readBuf c)) \<and>
    contents (c_readBuf c') = drop n (contents (c_readBuf c))"
  by (rule moveToWriteBuffer_ok [OF assms])

theorem moveToWriteBuffer_moves_witness:
  "\<exists>c'. moveToWriteBuffer sample_ctrl = Some (of_nat 3, c') \<and> ctrl_inv c' \<and>
    contents (c_writeBuf c') = contents (c_writeBuf sample_ctrl) @ take 3 (contents (c_readBuf sample_ctrl)) \<and>
    contents (c_readBuf c') = drop 3 (contents (c_readBuf sample_ctrl))"
  by (rule moveToWriteBuffer_moves) (simp_all add: sample_ctrl_inv)

text \<open>
  C23. A controller leaks no buffer. Whether \<open>init\<close> succeeds or fails on either buffer, the
  buffers it took are new ones, and destroying the controller returns exactly them to the pool.
\<close>

theorem controller_lifecycle:
  assumes "pool_ready mal cfg H p"
  shows "\<exists>ok c p1 p2. ctrl_init mal cfg fd ctx info (ctrl_new ip port) p = Some (ok, c, p1) \<and>
    ctrl_holds c \<inter> H = {} \<and> (ok \<longrightarrow> ctrl_inv c \<and> pool_ready mal cfg (H \<union> ctrl_holds c) p1) \<and>
    ctrl_destroy cfg c p1 = Some p2 \<and> pool_ready mal cfg H p2"
  using ctrl_init_ok [OF assms, of fd ctx info ip port] ctrl_destroy_ok by metis

theorem controller_lifecycle_witness:
  "\<exists>ok c p1 p2. ctrl_init bump_malloc tcp_config_default 5 0 0 (ctrl_new ''::1'' 80) (pool_init (\<lambda>_. 0)) = Some (ok, c, p1) \<and>
    ctrl_holds c \<inter> {} = {} \<and>
    (ok \<longrightarrow> ctrl_inv c \<and> pool_ready bump_malloc tcp_config_default ({} \<union> ctrl_holds c) p1) \<and>
    ctrl_destroy tcp_config_default c p1 = Some p2 \<and> pool_ready bump_malloc tcp_config_default {} p2"
  by (rule controller_lifecycle [OF pool_ready_init [OF bump_malloc_ok pool_config_default]])

text \<open>
  The lengths of \<open>read\<close>, \<open>peek\<close> and \<open>writeTemp\<close> are \<open>size_t\<close>, but only their low 32 bits are
  used: a request for a multiple of 4 GiB transfers nothing, although data is available.
\<close>

theorem controller_read_truncates:
  "ctrl_read dst (2 ^ 32) c = Some (0, dst, c) \<and> ctrl_peek dst (2 ^ 32) c = Some (0, dst) \<and>
   ctrl_writeTemp src (2 ^ 32) c = Some (0, c)"
proof -
  have "(ucast (2 ^ 32 :: u64) :: u32) = 0" by simp
  then show ?thesis
    by (cases c) (simp add: ctrl_read_def ctrl_peek_def ctrl_writeTemp_def SPBuffer_read_def SPBuffer_peek_def SPBuffer_write_def)
qed

end
