(* ===== verification/SP_Kernel.thy ===== *)
theory SP_Kernel
  imports SP_Controller
begin

text \<open>
  The part of the operating system that \<open>SPSock.cpp\<close> calls: the descriptor table, socket options,
  the interest lists of epoll, and socket addresses.

  Descriptors are allocated as POSIX prescribes, the lowest free number first. Which calls fail
  and with which error is a script of outcomes, \<^term>\<open>None\<close> for success; an exhausted script
  lets every further call succeed. \<open>inet_pton\<close> is an argument.
\<close>

section \<open>State\<close>

datatype sockopt = SO_LINGER int int | SO_KEEPALIVE int | TCP_KEEPIDLE int | TCP_KEEPCNT int | TCP_KEEPINTVL int
  | SO_REUSEADDR int | SO_REUSEPORT int | SO_RCVBUF int | SO_RCVTIMEO int

record sockaddr =
  sa_family :: ADDRESS_FAMILY
  sa_port :: u16
  sa_addr :: "byte list"

text \<open>
  \<open>kn_backlog\<close> holds the connections waiting to be accepted, with the text form of the peer
  address that \<open>inet_ntop\<close> produces, the port and the stream. \<open>kn_interest\<close> maps an epoll
  descriptor and a registered descriptor to the armed events, \<open>0\<close> after a one-shot event.
\<close>

record kern =
  kn_fds :: "int list"
  kn_script :: "errno option list"
  kn_backlog :: "(string \<times> u16 \<times> ksock) list"
  kn_interest :: "int \<times> int \<Rightarrow> u32 option"
  kn_opts :: "(int \<times> sockopt) list"
  kn_nonblock :: "int list"
  kn_bound :: "(int \<times> sockaddr) list"
  kn_listening :: "int list"
  kn_signalled :: "int list"
  kn_handlers :: "int list"
  kn_sock :: "int \<Rightarrow> ksock"

definition kcall :: "kern \<Rightarrow> errno option \<times> kern" where
  "kcall k = (case kn_script k of [] \<Rightarrow> (None, k) | r # rs \<Rightarrow> (r, k\<lparr>kn_script := rs\<rparr>))"

section \<open>Descriptors\<close>

definition first_free :: "int list \<Rightarrow> int" where
  "first_free fds = hd (filter (\<lambda>n. n \<notin> set fds) (map int [0..<Suc (length fds)]))"

definition new_fd :: "kern \<Rightarrow> (errno + int) \<times> kern" where
  "new_fd k = (case kcall k of
     (Some e, k1) \<Rightarrow> (Inl e, k1)
   | (None, k1) \<Rightarrow> let fd = first_free (kn_fds k1) in (Inr fd, k1\<lparr>kn_fds := fd # kn_fds k1\<rparr>))"

text \<open>\<open>close\<close> also removes the descriptor from every interest list; on another number it fails without effect.\<close>

definition sys_close :: "int \<Rightarrow> kern \<Rightarrow> kern" where
  "sys_close fd k = k\<lparr>kn_fds := removeAll fd (kn_fds k),
     kn_interest := (\<lambda>(e, f). if e = fd \<or> f = fd then None else kn_interest k (e, f)),
     kn_nonblock := removeAll fd (kn_nonblock k), kn_listening := removeAll fd (kn_listening k),
     kn_bound := filter (\<lambda>(f, a). f \<noteq> fd) (kn_bound k)\<rparr>"

definition sys_accept :: "kern \<Rightarrow> (errno + int \<times> string \<times> u16) \<times> kern" where
  "sys_accept k = (case kcall k of
     (Some e, k1) \<Rightarrow> (Inl e, k1)
   | (None, k1) \<Rightarrow> (case kn_backlog k1 of
       [] \<Rightarrow> (Inl EAGAIN, k1)
     | (ip, port, s) # bs \<Rightarrow>
         let fd = first_free (kn_fds k1) in
         (Inr (fd, ip, port), k1\<lparr>kn_fds := fd # kn_fds k1, kn_backlog := bs, kn_sock := (kn_sock k1)(fd := s)\<rparr>)))"

definition sys_setsockopt :: "int \<Rightarrow> sockopt \<Rightarrow> kern \<Rightarrow> bool \<times> kern" where
  "sys_setsockopt fd opt k = (case kcall k of
     (Some e, k1) \<Rightarrow> (False, k1) | (None, k1) \<Rightarrow> (True, k1\<lparr>kn_opts := kn_opts k1 @ [(fd, opt)]\<rparr>))"

definition sys_getfl :: "int \<Rightarrow> kern \<Rightarrow> bool \<times> kern" where
  "sys_getfl fd k = (case kcall k of (e, k1) \<Rightarrow> (e = None, k1))"

definition sys_set_nonblock :: "int \<Rightarrow> kern \<Rightarrow> bool \<times> kern" where
  "sys_set_nonblock fd k = (case kcall k of
     (Some e, k1) \<Rightarrow> (False, k1) | (None, k1) \<Rightarrow> (True, k1\<lparr>kn_nonblock := fd # kn_nonblock k1\<rparr>))"

definition sys_bind :: "int \<Rightarrow> sockaddr \<Rightarrow> kern \<Rightarrow> bool \<times> kern" where
  "sys_bind fd a k = (case kcall k of
     (Some e, k1) \<Rightarrow> (False, k1) | (None, k1) \<Rightarrow> (True, k1\<lparr>kn_bound := (fd, a) # kn_bound k1\<rparr>))"

definition sys_listen :: "int \<Rightarrow> kern \<Rightarrow> bool \<times> kern" where
  "sys_listen fd k = (case kcall k of
     (Some e, k1) \<Rightarrow> (False, k1) | (None, k1) \<Rightarrow> (True, k1\<lparr>kn_listening := fd # kn_listening k1\<rparr>))"

definition sys_sigaction :: "int \<Rightarrow> kern \<Rightarrow> bool \<times> kern" where
  "sys_sigaction sg k = (case kcall k of
     (Some e, k1) \<Rightarrow> (False, k1) | (None, k1) \<Rightarrow> (True, k1\<lparr>kn_handlers := sg # kn_handlers k1\<rparr>))"

text \<open>The eight-byte write that makes an eventfd readable.\<close>

definition sys_notify :: "int \<Rightarrow> kern \<Rightarrow> kern" where
  "sys_notify fd k = (case kcall k of
     (Some e, k1) \<Rightarrow> k1 | (None, k1) \<Rightarrow> k1\<lparr>kn_signalled := fd # kn_signalled k1\<rparr>)"

section \<open>Epoll\<close>

text \<open>\<open>EPOLL_CTL_ADD\<close> fails on a registered descriptor, \<open>EPOLL_CTL_MOD\<close> and \<open>EPOLL_CTL_DEL\<close> on another one.\<close>

definition epoll_add :: "int \<Rightarrow> int \<Rightarrow> u32 \<Rightarrow> kern \<Rightarrow> bool \<times> kern" where
  "epoll_add ep fd ev k = (case kcall k of
     (Some e, k1) \<Rightarrow> (False, k1)
   | (None, k1) \<Rightarrow> if ep \<in> set (kn_fds k1) \<and> fd \<in> set (kn_fds k1) \<and> kn_interest k1 (ep, fd) = None
       then (True, k1\<lparr>kn_interest := (kn_interest k1)((ep, fd) := Some ev)\<rparr>) else (False, k1))"

definition epoll_mod :: "int \<Rightarrow> int \<Rightarrow> u32 \<Rightarrow> kern \<Rightarrow> bool \<times> kern" where
  "epoll_mod ep fd ev k = (case kcall k of
     (Some e, k1) \<Rightarrow> (False, k1)
   | (None, k1) \<Rightarrow> if kn_interest k1 (ep, fd) \<noteq> None
       then (True, k1\<lparr>kn_interest := (kn_interest k1)((ep, fd) := Some ev)\<rparr>) else (False, k1))"

definition epoll_del :: "int \<Rightarrow> int \<Rightarrow> kern \<Rightarrow> bool \<times> kern" where
  "epoll_del ep fd k = (case kcall k of
     (Some e, k1) \<Rightarrow> (False, k1)
   | (None, k1) \<Rightarrow> if kn_interest k1 (ep, fd) \<noteq> None
       then (True, k1\<lparr>kn_interest := (kn_interest k1)((ep, fd) := None)\<rparr>) else (False, k1))"

text \<open>The delivery of a one-shot event disarms the registration.\<close>

definition epoll_fire :: "int \<Rightarrow> int \<Rightarrow> kern \<Rightarrow> kern" where
  "epoll_fire ep fd k = k\<lparr>kn_interest := (kn_interest k)((ep, fd) := map_option (\<lambda>_. 0) (kn_interest k (ep, fd)))\<rparr>"

section \<open>Socket addresses\<close>

text \<open>The byte order conversion of a little-endian machine.\<close>

definition htons :: "u16 \<Rightarrow> u16" where
  "htons x = push_bit 8 x OR drop_bit 8 x"

definition SOCKADDR_INIT ::
  "(ADDRESS_FAMILY \<Rightarrow> string \<Rightarrow> byte list option) \<Rightarrow> ADDRESS_FAMILY \<Rightarrow> string option \<Rightarrow> u16 \<Rightarrow> sockaddr option" where
  "SOCKADDR_INIT pton family ip port = (case ip of
     Some s \<Rightarrow> map_option (\<lambda>a. \<lparr>sa_family = family, sa_port = htons port, sa_addr = a\<rparr>) (pton family s)
   | None \<Rightarrow> Some \<lparr>sa_family = family, sa_port = htons port,
       sa_addr = replicate (case family of ADDRESS_FAMILY_INET \<Rightarrow> 4 | ADDRESS_FAMILY_INET6 \<Rightarrow> 16) 0\<rparr>)"

lemma htons_involution: "htons (htons x) = x"
  by (rule bit_word_eqI) (auto simp: htons_def bit_or_iff bit_push_bit_iff bit_drop_bit_eq)

section \<open>Lemmas\<close>

lemma first_free_fresh: "first_free fds \<notin> set fds" "0 \<le> first_free fds"
proof -
  let ?cs = "map int [0..<Suc (length fds)]" and ?P = "\<lambda>n. n \<notin> set fds"
  have "\<not> set ?cs \<subseteq> set fds"
  proof
    assume "set ?cs \<subseteq> set fds"
    from card_mono [OF finite_set this] have "card (set ?cs) \<le> length fds" using card_length [of fds] by linarith
    moreover have "card (set ?cs) = Suc (length fds)" by (simp add: card_image del: upt_Suc)
    ultimately show False by simp
  qed
  then have ne: "filter ?P ?cs \<noteq> []" by (auto simp: filter_empty_conv simp del: upt_Suc)
  from hd_in_set [OF ne] show "first_free fds \<notin> set fds" "0 \<le> first_free fds"
    unfolding first_free_def by (auto simp del: upt_Suc)
qed

text \<open>What a call leaves as it was.\<close>

definition same_files :: "kern \<Rightarrow> kern \<Rightarrow> bool" where
  "same_files k k' \<longleftrightarrow> kn_fds k' = kn_fds k \<and> kn_interest k' = kn_interest k \<and> kn_sock k' = kn_sock k"

lemma same_files_refl [simp]: "same_files k k"
  by (simp add: same_files_def)

lemma same_files_trans: "same_files k k' \<Longrightarrow> same_files k' k'' \<Longrightarrow> same_files k k''"
  by (simp add: same_files_def)

named_theorems kern_simps \<open>definitions of the system calls\<close>

declare new_fd_def [kern_simps] sys_accept_def [kern_simps] sys_setsockopt_def [kern_simps] sys_getfl_def [kern_simps]
  sys_set_nonblock_def [kern_simps] sys_bind_def [kern_simps] sys_listen_def [kern_simps] sys_sigaction_def [kern_simps]
  sys_notify_def [kern_simps] epoll_add_def [kern_simps] epoll_mod_def [kern_simps] epoll_del_def [kern_simps]

lemma kcall_same: "same_files k (snd (kcall k))"
  by (simp add: kcall_def same_files_def split: list.splits)

lemma kcall_files [simp]: "kn_fds (snd (kcall k)) = kn_fds k" "kn_interest (snd (kcall k)) = kn_interest k"
  "kn_sock (snd (kcall k)) = kn_sock k"
  using kcall_same [of k] by (simp_all add: same_files_def)

lemma simple_calls_same:
  "same_files k (snd (sys_setsockopt fd opt k))" "same_files k (snd (sys_getfl fd k))" "same_files k (snd (sys_set_nonblock fd k))"
  "same_files k (snd (sys_bind fd a k))" "same_files k (snd (sys_listen fd k))" "same_files k (snd (sys_sigaction sg k))"
  "same_files k (sys_notify fd k)"
  by (cases "kcall k"; use kcall_same [of k] in \<open>auto simp: kern_simps same_files_def split: option.splits\<close>)+

lemma sys_close_fds [simp]: "kn_fds (sys_close fd k) = removeAll fd (kn_fds k)" "kn_sock (sys_close fd k) = kn_sock k"
  by (simp_all add: sys_close_def)

lemma new_fd_cases:
  "(\<exists>e k. new_fd k0 = (Inl e, k) \<and> same_files k0 k) \<or>
   (\<exists>fd k. new_fd k0 = (Inr fd, k) \<and> kn_fds k = fd # kn_fds k0 \<and> fd \<notin> set (kn_fds k0) \<and> 0 \<le> fd \<and> kn_interest k = kn_interest k0 \<and>
      kn_sock k = kn_sock k0)"
proof -
  obtain e k1 where k: "kcall k0 = (e, k1)" by (cases "kcall k0")
  have f: "same_files k0 k1" "kn_fds k1 = kn_fds k0" "kn_interest k1 = kn_interest k0" "kn_sock k1 = kn_sock k0"
    using kcall_same [of k0] k by (simp_all add: same_files_def)
  show ?thesis
    using k f first_free_fresh [of "kn_fds k0"] by (cases e) (auto simp: new_fd_def Let_def)
qed

lemma simple_calls_fds:
  "sys_setsockopt fd opt k = (b, k') \<Longrightarrow> kn_fds k' = kn_fds k" "sys_bind fd a k = (b, k') \<Longrightarrow> kn_fds k' = kn_fds k"
  "sys_listen fd k = (b, k') \<Longrightarrow> kn_fds k' = kn_fds k"
  using simple_calls_same [of k] by (metis same_files_def snd_conv)+

end
