(* ===== verification/TP_Block_Queue.thy ===== *)
theory TP_Block_Queue
  imports SP_Fifo
begin

text \<open>
  \<open>TPBlockQueue\<close> of \<open>base/TPBlockQueue.hpp\<close>: the bounded blocking queue of the thread pool,
  a circular list of preallocated nodes under one mutex and one condition variable.

  The nodes of the memory block are two lists, the element slots \<open>q_data\<close> (\<^term>\<open>None\<close> where no
  element is constructed) and the indices \<open>q_next\<close> of the next nodes; an access to a node
  outside the block, or a read of a slot that holds no element, is the result \<^term>\<open>None\<close>.
  The condition variable is the number of threads that sleep on it and the number of
  threads that were woken and still have to reacquire the mutex. Every critical section is
  one definition; the notification that follows it after \<open>unlock\<close> is a separate one, so that
  the step relation at the end interleaves them as the code allows.
\<close>

section \<open>State\<close>

record 'a TPBlockQueue =
  q_memoryBlock :: addr
  q_isStopped :: bool
  q_size :: u32
  q_maxSize :: u32
  q_head :: nat
  q_tail :: nat
  q_data :: "'a option list"
  q_next :: "nat list"
  q_waiting :: nat
  q_woken :: nat

definition queue_new :: "'a TPBlockQueue" where
  "queue_new = \<lparr>q_memoryBlock = null, q_isStopped = False, q_size = 0, q_maxSize = 0, q_head = 0, q_tail = 0,
     q_data = [], q_next = [], q_waiting = 0, q_woken = 0\<rparr>"

section \<open>Initialisation\<close>

text \<open>
  The size of the block: \<open>sizeof(Node) * capacity\<close> truncated to 32 bits and rounded up
  to a multiple of 64, in 32-bit arithmetic. \<open>nsz\<close> is \<open>sizeof(Node)\<close>, which depends on
  the element type.
\<close>

definition block_bytes :: "nat \<Rightarrow> u32 \<Rightarrow> u32" where
  "block_bytes nsz capacity = (of_nat (nsz * unat capacity) + 64 - 1) AND NOT (64 - 1)"

function link_next :: "nat \<Rightarrow> nat \<Rightarrow> nat list \<Rightarrow> nat list option" where
  "link_next i n nexts =
     (if i < n then if i < length nexts then link_next (Suc i) n (nexts[i := Suc i]) else None
      else Some nexts)"
  by pat_completeness auto
termination
  by (relation "measure (\<lambda>(i, n, nexts). n - i)") auto

declare link_next.simps [simp del]

definition queue_init :: "(nat \<Rightarrow> addr) \<Rightarrow> nat \<Rightarrow> u32 \<Rightarrow> 'a TPBlockQueue \<Rightarrow> (bool \<times> 'a TPBlockQueue) option" where
  "queue_init amal nsz capacity q =
     (if q_memoryBlock q \<noteq> null \<or> capacity = 0 then Some (False, q)
      else let totalSize = block_bytes nsz capacity;
               block = amal (unat totalSize);
               slots = unat totalSize div nsz
        in if block = null then Some (False, q)
        else do {
          nexts \<leftarrow> link_next 0 (unat (capacity - 1)) (replicate slots 0);
          if unat (capacity - 1) < length nexts then
            Some (True, q\<lparr>q_memoryBlock := block, q_size := 0, q_maxSize := capacity, q_head := 0, q_tail := 0,
                          q_data := replicate slots None, q_next := nexts[unat (capacity - 1) := 0]\<rparr>)
          else None
        })"

section \<open>The condition variable\<close>

definition notify_one :: "'a TPBlockQueue \<Rightarrow> 'a TPBlockQueue" where
  "notify_one q = (if q_waiting q = 0 then q else q\<lparr>q_waiting := q_waiting q - 1, q_woken := Suc (q_woken q)\<rparr>)"

definition notify_all :: "'a TPBlockQueue \<Rightarrow> 'a TPBlockQueue" where
  "notify_all q = q\<lparr>q_waiting := 0, q_woken := q_woken q + q_waiting q\<rparr>"

definition wait_ready :: "'a TPBlockQueue \<Rightarrow> bool" where
  "wait_ready q \<longleftrightarrow> q_size q \<noteq> 0 \<or> q_isStopped q"

definition block_on :: "'a TPBlockQueue \<Rightarrow> 'a TPBlockQueue" where
  "block_on q = q\<lparr>q_waiting := Suc (q_waiting q)\<rparr>"

section \<open>Insertion\<close>

definition put_tail :: "'a \<Rightarrow> 'a TPBlockQueue \<Rightarrow> 'a TPBlockQueue option" where
  "put_tail x q =
     (if q_memoryBlock q \<noteq> null \<and> q_tail q < length (q_data q) \<and> q_tail q < length (q_next q)
      then Some (q\<lparr>q_data := (q_data q)[q_tail q := Some x], q_tail := q_next q ! q_tail q\<rparr>)
      else None)"

definition push_locked :: "'a \<Rightarrow> 'a TPBlockQueue \<Rightarrow> (bool \<times> 'a TPBlockQueue) option" where
  "push_locked x q =
     (if q_memoryBlock q = null then None
      else if q_size q = q_maxSize q then Some (False, q)
      else do {
        q1 \<leftarrow> put_tail x q;
        Some (True, q1\<lparr>q_size := q_size q1 + 1\<rparr>)
      })"

definition queue_emplace :: "'a \<Rightarrow> 'a TPBlockQueue \<Rightarrow> (bool \<times> 'a TPBlockQueue) option" where
  "queue_emplace x q = do {
     (ok, q1) \<leftarrow> push_locked x q;
     Some (ok, if ok then notify_one q1 else q1)
   }"

definition queue_push :: "'a \<Rightarrow> 'a TPBlockQueue \<Rightarrow> (bool \<times> 'a TPBlockQueue) option" where
  "queue_push x q = do {
     (ok, q1) \<leftarrow> push_locked x q;
     Some (ok, if ok then notify_one q1 else q1)
   }"

function push_loop :: "'a list \<Rightarrow> nat \<Rightarrow> nat \<Rightarrow> 'a TPBlockQueue \<Rightarrow> 'a TPBlockQueue option" where
  "push_loop elements i n q =
     (if i < n then
        if i < length elements
        then Option.bind (put_tail (elements ! i) q) (push_loop elements (Suc i) n)
        else None
      else Some q)"
  by pat_completeness auto
termination
  by (relation "measure (\<lambda>(elements, i, n, q). n - i)") auto

declare push_loop.simps [simp del]

definition pushBulk_locked :: "'a list \<Rightarrow> u32 \<Rightarrow> 'a TPBlockQueue \<Rightarrow> (u32 \<times> 'a TPBlockQueue) option" where
  "pushBulk_locked elements count q =
     (if q_memoryBlock q = null then None
      else let available = q_maxSize q - q_size q in
        if available = 0 then Some (0, q)
        else do {
          let toPush = min count available;
          q1 \<leftarrow> push_loop elements 0 (unat toPush) q;
          Some (toPush, q1\<lparr>q_size := q_size q1 + toPush\<rparr>)
        })"

definition queue_pushBulk :: "'a list \<Rightarrow> u32 \<Rightarrow> 'a TPBlockQueue \<Rightarrow> (u32 \<times> 'a TPBlockQueue) option" where
  "queue_pushBulk elements count q =
     (if count = 0 then Some (0, q)
      else do {
        (toPush, q1) \<leftarrow> pushBulk_locked elements count q;
        if toPush = 0 then Some (0, q1)
        else if toPush = 1 then Some (toPush, notify_one q1)
        else Some (toPush, notify_all q1)
      })"

section \<open>Removal\<close>

definition extract_head :: "'a TPBlockQueue \<Rightarrow> ('a \<times> 'a TPBlockQueue) option" where
  "extract_head q =
     (if q_memoryBlock q \<noteq> null \<and> q_head q < length (q_data q) \<and> q_head q < length (q_next q)
      then (case q_data q ! q_head q of
              None \<Rightarrow> None
            | Some x \<Rightarrow> Some (x, q\<lparr>q_data := (q_data q)[q_head q := None], q_head := q_next q ! q_head q\<rparr>))
      else None)"

primrec extract_loop :: "nat \<Rightarrow> 'a TPBlockQueue \<Rightarrow> ('a list \<times> 'a TPBlockQueue) option" where
  "extract_loop 0 q = Some ([], q)"
| "extract_loop (Suc n) q = do {
     (x, q1) \<leftarrow> extract_head q;
     (xs, q2) \<leftarrow> extract_loop n q1;
     Some (x # xs, q2)
   }"

text \<open>The part after the emptiness test that \<open>pop\<close> and \<open>wait_pop\<close> share, and its bulk version.\<close>

definition pop_one :: "'a TPBlockQueue \<Rightarrow> ('a \<times> 'a TPBlockQueue) option" where
  "pop_one q = extract_head (q\<lparr>q_size := q_size q - 1\<rparr>)"

definition pop_many :: "u32 \<Rightarrow> 'a TPBlockQueue \<Rightarrow> ('a list \<times> 'a TPBlockQueue) option" where
  "pop_many count q = do {
     let toPop = min count (q_size q);
     (xs, q1) \<leftarrow> extract_loop (unat toPop) q;
     Some (xs, q1\<lparr>q_size := q_size q1 - toPop\<rparr>)
   }"

definition queue_pop :: "'a TPBlockQueue \<Rightarrow> ('a option \<times> 'a TPBlockQueue) option" where
  "queue_pop q =
     (if q_memoryBlock q = null then None
      else if q_size q = 0 then Some (None, q)
      else do { (x, q1) \<leftarrow> pop_one q; Some (Some x, q1) })"

definition queue_popBulk :: "u32 \<Rightarrow> 'a TPBlockQueue \<Rightarrow> ('a list \<times> 'a TPBlockQueue) option" where
  "queue_popBulk count q =
     (if count = 0 then Some ([], q)
      else if q_memoryBlock q = null then None
      else if q_size q = 0 then Some ([], q)
      else pop_many count q)"

text \<open>
  A waiting operation either blocks or returns. \<open>expired\<close> tells whether the timeout of a
  timed wait has passed when the mutex is reacquired; an untimed wait never expires. A timed
  wait returns the value of the predicate.
\<close>

datatype 'r waited = Blocked | Returned 'r

definition queue_wait_pop :: "'a TPBlockQueue \<Rightarrow> ('a option waited \<times> 'a TPBlockQueue) option" where
  "queue_wait_pop q =
     (if q_memoryBlock q = null then None
      else if \<not> wait_ready q then Some (Blocked, block_on q)
      else if q_size q = 0 then Some (Returned None, q)
      else do { (x, q1) \<leftarrow> pop_one q; Some (Returned (Some x), q1) })"

definition queue_wait_pop_for :: "bool \<Rightarrow> 'a TPBlockQueue \<Rightarrow> ('a option waited \<times> 'a TPBlockQueue) option" where
  "queue_wait_pop_for expired q =
     (if q_memoryBlock q = null then None
      else if \<not> wait_ready q \<and> \<not> expired then Some (Blocked, block_on q)
      else let success = wait_ready q in
        if \<not> success \<or> q_size q = 0 then Some (Returned None, q)
        else do { (x, q1) \<leftarrow> pop_one q; Some (Returned (Some x), q1) })"

definition wait_popBulk_locked :: "u32 \<Rightarrow> 'a TPBlockQueue \<Rightarrow> ('a list waited \<times> 'a TPBlockQueue) option" where
  "wait_popBulk_locked count q =
     (if q_memoryBlock q = null then None
      else if \<not> wait_ready q then Some (Blocked, block_on q)
      else if q_size q = 0 then Some (Returned [], q)
      else do { (xs, q1) \<leftarrow> pop_many count q; Some (Returned xs, q1) })"

definition queue_wait_popBulk :: "u32 \<Rightarrow> 'a TPBlockQueue \<Rightarrow> ('a list waited \<times> 'a TPBlockQueue) option" where
  "queue_wait_popBulk count q = (if count = 0 then Some (Returned [], q) else wait_popBulk_locked count q)"

definition wait_popBulk_for_locked ::
  "bool \<Rightarrow> u32 \<Rightarrow> 'a TPBlockQueue \<Rightarrow> ('a list waited \<times> 'a TPBlockQueue) option" where
  "wait_popBulk_for_locked expired count q =
     (if q_memoryBlock q = null then None
      else if \<not> wait_ready q \<and> \<not> expired then Some (Blocked, block_on q)
      else let success = wait_ready q in
        if \<not> success \<or> q_size q = 0 then Some (Returned [], q)
        else do { (xs, q1) \<leftarrow> pop_many count q; Some (Returned xs, q1) })"

definition queue_wait_popBulk_for ::
  "bool \<Rightarrow> u32 \<Rightarrow> 'a TPBlockQueue \<Rightarrow> ('a list waited \<times> 'a TPBlockQueue) option" where
  "queue_wait_popBulk_for expired count q =
     (if count = 0 then Some (Returned [], q) else wait_popBulk_for_locked expired count q)"

section \<open>Stopping and releasing\<close>

definition stop_locked :: "'a TPBlockQueue \<Rightarrow> 'a TPBlockQueue" where
  "stop_locked q = q\<lparr>q_isStopped := True\<rparr>"

definition queue_stopWait :: "'a TPBlockQueue \<Rightarrow> 'a TPBlockQueue" where
  "queue_stopWait q = notify_all (stop_locked q)"

text \<open>\<open>release\<close> destroys the stored elements, which the model returns, and frees the block.\<close>

definition destroy_at :: "nat \<Rightarrow> 'a TPBlockQueue \<Rightarrow> ('a \<times> nat \<times> 'a TPBlockQueue) option" where
  "destroy_at i q =
     (if i < length (q_data q) \<and> i < length (q_next q)
      then (case q_data q ! i of
              None \<Rightarrow> None
            | Some x \<Rightarrow> Some (x, q_next q ! i, q\<lparr>q_data := (q_data q)[i := None]\<rparr>))
      else None)"

primrec destroy_loop :: "nat \<Rightarrow> nat \<Rightarrow> 'a TPBlockQueue \<Rightarrow> ('a list \<times> 'a TPBlockQueue) option" where
  "destroy_loop 0 cur q = Some ([], q)"
| "destroy_loop (Suc n) cur q = do {
     (x, cur', q1) \<leftarrow> destroy_at cur q;
     (xs, q2) \<leftarrow> destroy_loop n cur' q1;
     Some (x # xs, q2)
   }"

definition queue_release :: "'a TPBlockQueue \<Rightarrow> ('a list \<times> 'a TPBlockQueue) option" where
  "queue_release q =
     (if q_memoryBlock q \<noteq> null then do {
        (xs, q1) \<leftarrow> destroy_loop (unat (q_size q)) (q_head q) q;
        Some (xs, q1\<lparr>q_isStopped := False, q_memoryBlock := null, q_data := [], q_next := []\<rparr>)
      }
      else Some ([], q))"

section \<open>Invariant and abstraction\<close>

text \<open>
  \<open>shape q n k\<close>: the first \<open>n\<close> nodes form a ring in index order, and exactly the \<open>k\<close> slots
  from the head on hold elements. The loops of the bulk operations move \<open>k\<close> before they
  update \<open>size\<close>, so \<open>k\<close> is a parameter.
\<close>

definition slot :: "'a TPBlockQueue \<Rightarrow> nat \<Rightarrow> nat \<Rightarrow> 'a option" where
  "slot q n i = q_data q ! ((q_head q + i) mod n)"

definition shape :: "'a TPBlockQueue \<Rightarrow> nat \<Rightarrow> nat \<Rightarrow> bool" where
  "shape q n k \<longleftrightarrow> q_memoryBlock q \<noteq> null \<and> 0 < n \<and> n \<le> length (q_data q) \<and> length (q_next q) = length (q_data q) \<and>
     q_head q < n \<and> k \<le> n \<and> q_tail q = (q_head q + k) mod n \<and>
     (\<forall>i < n. q_next q ! i = Suc i mod n) \<and> (\<forall>i < n. slot q n i \<noteq> None \<longleftrightarrow> i < k)"

definition elems :: "'a TPBlockQueue \<Rightarrow> nat \<Rightarrow> nat \<Rightarrow> 'a list" where
  "elems q n k = map (\<lambda>i. the (slot q n i)) [0..<k]"

definition queue_inv :: "'a TPBlockQueue \<Rightarrow> bool" where
  "queue_inv q \<longleftrightarrow> shape q (unat (q_maxSize q)) (unat (q_size q))"

definition queue_items :: "'a TPBlockQueue \<Rightarrow> 'a list" where
  "queue_items q = elems q (unat (q_maxSize q)) (unat (q_size q))"

definition queue_cap :: "'a TPBlockQueue \<Rightarrow> nat" where
  "queue_cap q = unat (q_maxSize q)"

lemma length_elems [simp]: "length (elems q n k) = k"
  by (simp add: elems_def)

lemma length_queue_items: "length (queue_items q) = unat (q_size q)"
  by (simp add: queue_items_def)

lemma shapeD:
  assumes "shape q n k"
  shows "q_memoryBlock q \<noteq> null" "0 < n" "n \<le> length (q_data q)" "length (q_next q) = length (q_data q)"
    "q_head q < n" "k \<le> n" "q_tail q = (q_head q + k) mod n" "\<And>i. i < n \<Longrightarrow> q_next q ! i = Suc i mod n"
    "\<And>i. i < n \<Longrightarrow> slot q n i \<noteq> None \<longleftrightarrow> i < k"
  using assms by (simp_all add: shape_def)

text \<open>The fields of the ring decide \<open>shape\<close> and \<open>elems\<close>.\<close>

lemma shape_cong:
  assumes "q_memoryBlock q' = q_memoryBlock q" "q_head q' = q_head q" "q_tail q' = q_tail q"
    "q_data q' = q_data q" "q_next q' = q_next q"
  shows "shape q' n k = shape q n k" "elems q' n k = elems q n k"
  using assms by (simp_all add: shape_def elems_def slot_def)

lemma shape_update [simp]:
  "shape (q\<lparr>q_size := x\<rparr>) n k = shape q n k" "elems (q\<lparr>q_size := x\<rparr>) n k = elems q n k"
  by (rule shape_cong; simp)+

lemma mod_index_inj:
  assumes "(h :: nat) < n" "i < n" "j < n"
  shows "(h + i) mod n = (h + j) mod n \<longleftrightarrow> i = j"
  using assms by (auto simp: mod_once split: if_splits)

text \<open>The other fields are untouched by moves in the ring.\<close>

definition same_meta :: "'a TPBlockQueue \<Rightarrow> 'a TPBlockQueue \<Rightarrow> bool" where
  "same_meta q q' \<longleftrightarrow> q_memoryBlock q' = q_memoryBlock q \<and> q_size q' = q_size q \<and> q_maxSize q' = q_maxSize q \<and>
     q_isStopped q' = q_isStopped q \<and> q_waiting q' = q_waiting q \<and> q_woken q' = q_woken q"

lemma same_meta_refl [simp]: "same_meta q q"
  by (simp add: same_meta_def)

lemma same_meta_trans [trans]: "same_meta a b \<Longrightarrow> same_meta b c \<Longrightarrow> same_meta a c"
  by (simp add: same_meta_def)

lemma put_tail_ok:
  assumes s: "shape q n k" and k: "k < n"
  shows "\<exists>q'. put_tail x q = Some q' \<and> shape q' n (Suc k) \<and> elems q' n (Suc k) = elems q n k @ [x] \<and> same_meta q q'"
proof -
  note D = shapeD [OF s]
  let ?q = "q\<lparr>q_data := (q_data q)[q_tail q := Some x], q_tail := q_next q ! q_tail q\<rparr>"
  have t: "q_tail q < n" using D(2,7) by simp
  then have "put_tail x q = Some ?q" using D(1,3,4) by (simp add: put_tail_def)
  moreover have slot: "slot ?q n i = (if i = k then Some x else slot q n i)" if "i < n" for i
    using mod_index_inj [OF D(5) that k] D(3,7) t by (auto simp: slot_def nth_list_update)
  have "q_next q ! q_tail q = (q_head q + Suc k) mod n" using D(8) [OF t] D(7) by (simp add: mod_Suc_eq)
  then have "shape ?q n (Suc k)"
    using D k slot by (auto simp: shape_def)
  moreover have "elems ?q n (Suc k) = elems q n k @ [x]" using slot k by (simp add: elems_def)
  ultimately show ?thesis by (auto simp: same_meta_def)
qed

lemma extract_head_ok:
  assumes s: "shape q n (Suc k)"
  shows "\<exists>x q'. extract_head q = Some (x, q') \<and> shape q' n k \<and> elems q n (Suc k) = x # elems q' n k \<and> same_meta q q'"
proof -
  note D = shapeD [OF s]
  from D(9) [of 0] D(2,5) obtain x where x: "q_data q ! q_head q = Some x" by (auto simp: slot_def)
  let ?q = "q\<lparr>q_data := (q_data q)[q_head q := None], q_head := q_next q ! q_head q\<rparr>"
  have e: "extract_head q = Some (x, ?q)" using D(1,3,4,5) x by (simp add: extract_head_def)
  have h: "q_head ?q = Suc (q_head q) mod n" using D(8) [OF D(5)] by simp
  have m: "(q_head ?q + i) mod n = (q_head q + Suc i) mod n" for i
    by (simp add: h mod_add_left_eq)
  have slot: "slot ?q n i = (if Suc i = n then None else slot q n (Suc i))" if "i < n" for i
  proof (cases "Suc i = n")
    case True
    then have "(q_head q + Suc i) mod n = q_head q" using D(5) by simp
    with D(3,5) True m [of i] show ?thesis by (simp add: slot_def)
  next
    case False
    then have "(q_head q + Suc i) mod n \<noteq> q_head q"
      using mod_index_inj [OF D(5) _ D(2), of "Suc i"] that D(5) by simp
    with m [of i] False show ?thesis by (simp add: slot_def)
  qed
  have "q_tail q = (q_head ?q + k) mod n" using D(7) m [of k] by simp
  moreover have "(slot ?q n i \<noteq> None) = (i < k)" if "i < n" for i
    using D(9) [of "Suc i"] D(6) slot [OF that] that by (cases "Suc i = n") auto
  ultimately have sh: "shape ?q n k" using D h by (simp add: shape_def)
  have "elems q n (Suc k) = the (slot q n 0) # map (\<lambda>i. the (slot q n (Suc i))) [0..<k]"
    by (simp only: elems_def upt_conv_Cons zero_less_Suc list.map map_Suc_upt [symmetric] map_map comp_def)
  also have "map (\<lambda>i. the (slot q n (Suc i))) [0..<k] = elems ?q n k"
    using slot D(6) by (auto simp: elems_def)
  also have "the (slot q n 0) = x" using x D(5) by (simp add: slot_def)
  finally show ?thesis using e sh by (simp add: same_meta_def)
qed

lemma push_loop_ok:
  assumes "shape q n k" "k + (m - i) \<le> n" "i \<le> m" "m \<le> length xs"
  shows "\<exists>q'. push_loop xs i m q = Some q' \<and> shape q' n (k + (m - i)) \<and>
    elems q' n (k + (m - i)) = elems q n k @ take (m - i) (drop i xs) \<and> same_meta q q'"
  using assms
proof (induction xs i m q arbitrary: k rule: push_loop.induct)
  case (1 xs i m q)
  show ?case
  proof (cases "i < m")
    case False
    with 1(2,4) show ?thesis by (simp add: push_loop.simps)
  next
    case True
    have k: "k < n" using 1(3) True by linarith
    obtain q1 where q1: "put_tail (xs ! i) q = Some q1" "shape q1 n (Suc k)"
      "elems q1 n (Suc k) = elems q n k @ [xs ! i]" "same_meta q q1"
      using put_tail_ok [OF 1(2), of "xs ! i"] k by auto
    have i: "i < length xs" using True 1(5) by simp
    have "Suc k + (m - Suc i) \<le> n" "Suc i \<le> m" using 1(3) True by linarith+
    from 1(1) [OF True i q1(1,2) this 1(5)] obtain q' where
      q': "push_loop xs (Suc i) m q1 = Some q'" "shape q' n (Suc k + (m - Suc i))"
        "elems q' n (Suc k + (m - Suc i)) = elems q1 n (Suc k) @ take (m - Suc i) (drop (Suc i) xs)" "same_meta q1 q'"
      by auto
    have "take (m - i) (drop i xs) = xs ! i # take (m - Suc i) (drop (Suc i) xs)"
      using i True by (simp add: Cons_nth_drop_Suc [symmetric] take_Cons' Suc_diff_Suc [symmetric])
    moreover have "Suc k + (m - Suc i) = k + (m - i)" using True by simp
    ultimately show ?thesis using True i q1(1,3) q'(1-3) same_meta_trans [OF q1(4) q'(4)]
      by (simp add: push_loop.simps [of xs i m q])
  qed
qed

lemma extract_loop_ok:
  assumes "shape q n k" "m \<le> k"
  shows "\<exists>q'. extract_loop m q = Some (take m (elems q n k), q') \<and> shape q' n (k - m) \<and>
    elems q' n (k - m) = drop m (elems q n k) \<and> same_meta q q'"
  using assms
proof (induction m arbitrary: q k)
  case 0
  then show ?case by simp
next
  case (Suc m)
  then obtain j where j: "k = Suc j" by (cases k) auto
  with Suc.prems extract_head_ok [of q n j] obtain x q1 where
    q1: "extract_head q = Some (x, q1)" "shape q1 n j" "elems q n k = x # elems q1 n j" "same_meta q q1" by auto
  from Suc.IH [OF q1(2)] Suc.prems(2) j obtain q' where
    "extract_loop m q1 = Some (take m (elems q1 n j), q')" "shape q' n (j - m)"
    "elems q' n (j - m) = drop m (elems q1 n j)" "same_meta q1 q'" by auto
  with q1 j same_meta_trans [OF q1(4)] show ?case by simp
qed

section \<open>Behaviour of the operations\<close>

text \<open>The condition variable does not concern the stored elements.\<close>

lemma cond_updates:
  "queue_inv (q\<lparr>q_waiting := w\<rparr>) = queue_inv q" "queue_items (q\<lparr>q_waiting := w\<rparr>) = queue_items q"
  "queue_inv (q\<lparr>q_woken := w\<rparr>) = queue_inv q" "queue_items (q\<lparr>q_woken := w\<rparr>) = queue_items q"
  "queue_inv (q\<lparr>q_isStopped := st\<rparr>) = queue_inv q" "queue_items (q\<lparr>q_isStopped := st\<rparr>) = queue_items q"
  by (simp_all add: queue_inv_def queue_items_def shape_def elems_def slot_def)

lemma notify_keeps [simp]:
  "queue_inv (notify_one q) = queue_inv q" "queue_items (notify_one q) = queue_items q"
  "queue_inv (notify_all q) = queue_inv q" "queue_items (notify_all q) = queue_items q"
  "queue_inv (block_on q) = queue_inv q" "queue_items (block_on q) = queue_items q"
  "queue_inv (stop_locked q) = queue_inv q" "queue_items (stop_locked q) = queue_items q"
  "queue_cap (notify_one q) = queue_cap q" "queue_cap (notify_all q) = queue_cap q"
  "queue_cap (block_on q) = queue_cap q" "queue_cap (stop_locked q) = queue_cap q"
  by (simp_all add: notify_one_def notify_all_def block_on_def stop_locked_def cond_updates queue_cap_def)

lemma queue_inv_block: "queue_inv q \<Longrightarrow> q_memoryBlock q \<noteq> null"
  by (simp add: queue_inv_def shape_def)

lemma queue_bounded: "queue_inv q \<Longrightarrow> length (queue_items q) \<le> queue_cap q"
  by (simp add: queue_inv_def shape_def length_queue_items queue_cap_def)

text \<open>What a locked section leaves of the waiting threads.\<close>

definition same_cond :: "'a TPBlockQueue \<Rightarrow> 'a TPBlockQueue \<Rightarrow> bool" where
  "same_cond q q' \<longleftrightarrow> q_isStopped q' = q_isStopped q \<and> q_waiting q' = q_waiting q \<and> q_woken q' = q_woken q"

lemma same_cond_refl [simp]: "same_cond q q"
  by (simp add: same_cond_def)

lemma push_locked_ok:
  assumes inv: "queue_inv q"
  shows "\<exists>q'. push_locked x q = Some (length (queue_items q) < queue_cap q, q') \<and> queue_inv q' \<and> same_cond q q' \<and>
    queue_cap q' = queue_cap q \<and>
    queue_items q' = (if length (queue_items q) < queue_cap q then queue_items q @ [x] else queue_items q)"
proof (cases "q_size q = q_maxSize q")
  case True
  with inv queue_inv_block [OF inv] show ?thesis by (simp add: push_locked_def length_queue_items queue_cap_def)
next
  case False
  let ?n = "unat (q_maxSize q)" and ?k = "unat (q_size q)"
  have s: "shape q ?n ?k" using inv by (simp add: queue_inv_def)
  have lt: "?k < ?n" using shapeD(6) [OF s] False by (metis le_neq_implies_less unat_eq_u32)
  from put_tail_ok [OF s lt, of x] obtain q1 where
    q1: "put_tail x q = Some q1" "shape q1 ?n (Suc ?k)" "elems q1 ?n (Suc ?k) = elems q ?n ?k @ [x]" "same_meta q q1"
    by blast
  have w: "unat (q_size q + 1) = Suc ?k"
    using lt le_less_trans [OF lt [THEN Suc_leI] unat_less_u32] by (subst unat_add_small) simp_all
  show ?thesis using False q1 lt w queue_inv_block [OF inv]
    by (simp add: push_locked_def same_meta_def same_cond_def queue_inv_def queue_items_def queue_cap_def)
qed

lemma pushBulk_locked_ok:
  assumes inv: "queue_inv q" and n: "n = min (unat count) (queue_cap q - length (queue_items q))" "n \<le> length xs"
  shows "\<exists>q'. pushBulk_locked xs count q = Some (of_nat n, q') \<and> queue_inv q' \<and> same_cond q q' \<and>
    queue_cap q' = queue_cap q \<and> queue_items q' = queue_items q @ take n xs"
proof -
  let ?N = "unat (q_maxSize q)" and ?k = "unat (q_size q)"
  have s: "shape q ?N ?k" using inv by (simp add: queue_inv_def)
  have a: "unat (q_maxSize q - q_size q) = queue_cap q - length (queue_items q)"
    using shapeD(6) [OF s] by (simp add: unat_diff_small queue_cap_def length_queue_items)
  show ?thesis
  proof (cases "q_maxSize q - q_size q = 0")
    case True
    with a n(1) have "n = 0" by simp
    with True inv queue_inv_block [OF inv] show ?thesis by (simp add: pushBulk_locked_def)
  next
    case False
    let ?m = "min count (q_maxSize q - q_size q)"
    have m: "unat ?m = n" using a n(1) by (simp only: unat_min_u32)
    then have m': "?m = of_nat n" by (rule u32_of_unat)
    have le: "?k + n \<le> ?N" using n(1) shapeD(6) [OF s] by (simp add: queue_cap_def length_queue_items)
    from push_loop_ok [OF s _ _ n(2), of 0] le obtain q1 where
      q1: "push_loop xs 0 n q = Some q1" "shape q1 ?N (?k + n)" "elems q1 ?N (?k + n) = elems q ?N ?k @ take n xs"
        "same_meta q q1" by auto
    have w: "unat (q_size q + of_nat n) = ?k + n"
      using m m' le_less_trans [OF le unat_less_u32] by (subst unat_add_small) auto
    have "pushBulk_locked xs count q = Some (?m, q1\<lparr>q_size := q_size q1 + ?m\<rparr>)"
      using False q1(1) m queue_inv_block [OF inv] by (simp add: pushBulk_locked_def Let_def)
    with q1 w m' show ?thesis
      by (simp add: same_meta_def same_cond_def queue_inv_def queue_items_def queue_cap_def)
  qed
qed

lemma pop_one_ok:
  assumes inv: "queue_inv q" and ne: "q_size q \<noteq> 0"
  shows "\<exists>x q'. pop_one q = Some (x, q') \<and> queue_inv q' \<and> same_cond q q' \<and> queue_cap q' = queue_cap q \<and>
    queue_items q = x # queue_items q'"
proof -
  let ?N = "unat (q_maxSize q)"
  obtain k where k: "unat (q_size q) = Suc k" using ne by (metis not0_implies_Suc unat_eq_0)
  have w: "unat (q_size q - 1) = k" using k by (subst unat_diff_small) auto
  have "shape (q\<lparr>q_size := q_size q - 1\<rparr>) ?N (Suc k)" using inv k by (simp add: queue_inv_def)
  from extract_head_ok [OF this] obtain x q' where "pop_one q = Some (x, q')" "shape q' ?N k"
    "elems q ?N (Suc k) = x # elems q' ?N k" "same_meta (q\<lparr>q_size := q_size q - 1\<rparr>) q'" by (auto simp: pop_one_def)
  with w k show ?thesis by (simp add: same_meta_def same_cond_def queue_inv_def queue_items_def queue_cap_def)
qed

lemma pop_many_ok:
  assumes inv: "queue_inv q"
  shows "\<exists>q'. pop_many count q = Some (take (unat count) (queue_items q), q') \<and> queue_inv q' \<and> same_cond q q' \<and>
    queue_cap q' = queue_cap q \<and> queue_items q' = drop (unat count) (queue_items q)"
proof -
  let ?N = "unat (q_maxSize q)" and ?k = "unat (q_size q)" and ?m = "min count (q_size q)"
  let ?j = "min (unat count) ?k"
  have s: "shape q ?N ?k" using inv by (simp add: queue_inv_def)
  from extract_loop_ok [OF s, of ?j] obtain q1 where
    q1: "extract_loop ?j q = Some (take ?j (elems q ?N ?k), q1)" "shape q1 ?N (?k - ?j)"
      "elems q1 ?N (?k - ?j) = drop ?j (elems q ?N ?k)" "same_meta q q1" by auto
  have w: "unat (q_size q - ?m) = ?k - ?j" by (simp add: unat_diff_small unat_min_u32)
  have t: "take ?j (elems q ?N ?k) = take (unat count) (elems q ?N ?k)"
    "drop ?j (elems q ?N ?k) = drop (unat count) (elems q ?N ?k)" by (simp_all add: min_def)
  have "pop_many count q = Some (take (unat count) (elems q ?N ?k), q1\<lparr>q_size := q_size q1 - ?m\<rparr>)"
    using q1(1) t(1) by (simp add: pop_many_def Let_def unat_min_u32)
  with q1(2-4) w t(2) show ?thesis
    by (simp add: same_meta_def same_cond_def queue_inv_def queue_items_def queue_cap_def)
qed

subsection \<open>Initialisation and release\<close>

lemma link_next_ok:
  assumes "i \<le> n" "n \<le> length xs" "\<forall>j < i. xs ! j = Suc j"
  shows "\<exists>ys. link_next i n xs = Some ys \<and> length ys = length xs \<and> (\<forall>j < n. ys ! j = Suc j)"
  using assms
proof (induction i n xs rule: link_next.induct)
  case (1 i n xs)
  show ?case
  proof (cases "i < n")
    case False
    with 1(2,4) show ?thesis by (simp add: link_next.simps)
  next
    case True
    then have i: "i < length xs" using 1(3) by simp
    have "\<forall>j < Suc i. xs[i := Suc i] ! j = Suc j" using 1(4) i by (auto simp: nth_list_update less_Suc_eq)
    with 1(1) [OF True i] True 1(3) i show ?thesis by (simp add: link_next.simps [of i n xs])
  qed
qed

lemma block_bytes_ok:
  assumes "nsz * unat capacity + 63 < 2 ^ 32"
  shows "nsz * unat capacity \<le> unat (block_bytes nsz capacity)"
proof -
  let ?x = "nsz * unat capacity"
  have e: "(of_nat ?x + 64 - 1 :: u32) = of_nat (?x + 63)" by simp
  have u: "unat (of_nat (?x + 63) :: u32) = ?x + 63" by (rule unat_of_nat_u32) (use assms in simp)
  have "unat (block_bytes nsz capacity) = (?x + 63) div 64 * 64"
    unfolding block_bytes_def e using unat_and_not_63 [of "of_nat (?x + 63)"] unfolding u by simp
  then show ?thesis by linarith
qed

lemma queue_init_ok:
  assumes q: "q_memoryBlock q = null" and c: "capacity \<noteq> 0" and sz: "0 < nsz" "nsz * unat capacity + 63 < 2 ^ 32"
  shows "\<exists>ok q'. queue_init amal nsz capacity q = Some (ok, q') \<and>
    ok = (amal (unat (block_bytes nsz capacity)) \<noteq> null) \<and>
    (if ok then queue_inv q' \<and> queue_items q' = [] \<and> queue_cap q' = unat capacity \<and> same_cond q q' else q' = q)"
proof -
  let ?slots = "unat (block_bytes nsz capacity) div nsz"
  let ?N = "unat capacity"
  obtain k where k: "?N = Suc k" using c by (metis not0_implies_Suc unat_eq_0)
  have w: "unat (capacity - 1) = k" using k by (subst unat_diff_small) auto
  have "nsz * ?N div nsz \<le> ?slots" by (rule div_le_mono [OF block_bytes_ok [OF sz(2)]])
  then have slots: "?N \<le> ?slots" using sz(1) by simp
  from link_next_ok [of 0 k "replicate ?slots 0"] slots k obtain nx where
    nx: "link_next 0 k (replicate ?slots 0) = Some nx" "length nx = ?slots" "\<forall>j < k. nx ! j = Suc j" by auto
  let ?q = "q\<lparr>q_memoryBlock := amal (unat (block_bytes nsz capacity)), q_size := 0, q_maxSize := capacity, q_head := 0,
      q_tail := 0, q_data := replicate ?slots None, q_next := nx[k := 0]\<rparr>"
  have nx': "(nx[k := 0]) ! i = Suc i mod ?N" if "i < ?N" for i
    using that nx(2,3) slots k by (cases "i = k") (simp_all add: nth_list_update)
  have "queue_inv ?q" if "amal (unat (block_bytes nsz capacity)) \<noteq> null"
  proof -
    have "(0 + i) mod ?N < ?slots" for i
      by (rule less_le_trans [OF _ slots]) (use k in simp)
    then show ?thesis using that slots k nx(2) nx' unfolding queue_inv_def shape_def slot_def by simp
  qed
  then show ?thesis
    using q c w nx(1,2) slots k
    by (simp add: queue_init_def Let_def queue_items_def elems_def queue_cap_def same_cond_def)
qed

text \<open>\<open>release\<close> walks the list without moving the head; the result is the same as extracting.\<close>

lemma destroy_loop_eq:
  assumes "q_memoryBlock q \<noteq> null" "q_data q' = q_data q" "q_next q' = q_next q"
  shows "map_option fst (destroy_loop n (q_head q) q') = map_option fst (extract_loop n q)"
  using assms
proof (induction n arbitrary: q q')
  case 0
  then show ?case by simp
next
  case (Suc n)
  show ?case
  proof (cases "extract_head q")
    case None
    then have "destroy_at (q_head q) q' = None"
      using Suc.prems by (auto simp: extract_head_def destroy_at_def split: if_splits option.splits)
    with None show ?thesis by simp
  next
    case (Some r)
    obtain x q1 where r: "r = (x, q1)" by (cases r)
    from Some r Suc.prems have d: "destroy_at (q_head q) q' = Some (x, q_head q1, q'\<lparr>q_data := q_data q1\<rparr>)"
      and m: "q_memoryBlock q1 \<noteq> null" "q_next q1 = q_next q"
      by (auto simp: extract_head_def destroy_at_def split: if_splits option.splits)
    have "map_option fst (destroy_loop n (q_head q1) (q'\<lparr>q_data := q_data q1\<rparr>)) = map_option fst (extract_loop n q1)"
      by (rule Suc.IH) (use m Suc.prems in simp_all)
    with d Some r show ?thesis
      by (cases "extract_loop n q1"; cases "destroy_loop n (q_head q1) (q'\<lparr>q_data := q_data q1\<rparr>)") auto
  qed
qed

lemma queue_release_ok:
  assumes "queue_inv q"
  shows "\<exists>q'. queue_release q = Some (queue_items q, q') \<and> q_memoryBlock q' = null \<and> \<not> q_isStopped q'"
proof -
  let ?k = "unat (q_size q)"
  have s: "shape q (unat (q_maxSize q)) ?k" using assms by (simp add: queue_inv_def)
  from extract_loop_ok [OF s order_refl] have "map_option fst (extract_loop ?k q) = Some (queue_items q)"
    by (auto simp: queue_items_def)
  with destroy_loop_eq [OF shapeD(1) [OF s], of q ?k]
  have "map_option fst (destroy_loop ?k (q_head q) q) = Some (queue_items q)" by simp
  then obtain q1 where "destroy_loop ?k (q_head q) q = Some (queue_items q, q1)" by auto
  with queue_inv_block [OF assms] show ?thesis by (simp add: queue_release_def)
qed

subsection \<open>The queue contract\<close>

definition queue_put :: "'a list \<Rightarrow> 'a TPBlockQueue \<Rightarrow> (nat \<times> 'a TPBlockQueue) option" where
  "queue_put xs q = map_option (\<lambda>(n, q'). (unat n, q')) (queue_pushBulk xs (of_nat (length xs)) q)"

definition queue_get :: "nat \<Rightarrow> 'a TPBlockQueue \<Rightarrow> ('a list \<times> 'a TPBlockQueue) option" where
  "queue_get n q = queue_popBulk (of_nat n) q"

lemma queue_pushBulk_ok:
  assumes inv: "queue_inv q" and n: "n = min (unat count) (queue_cap q - length (queue_items q))" "n \<le> length xs"
  shows "\<exists>q'. queue_pushBulk xs count q = Some (of_nat n, q') \<and> queue_inv q' \<and>
    queue_cap q' = queue_cap q \<and> queue_items q' = queue_items q @ take n xs"
proof (cases "count = 0")
  case True
  with n inv show ?thesis by (simp add: queue_pushBulk_def)
next
  case False
  from pushBulk_locked_ok [OF assms] obtain q1 where q1: "pushBulk_locked xs count q = Some (of_nat n, q1)"
    "queue_inv q1" "queue_cap q1 = queue_cap q" "queue_items q1 = queue_items q @ take n xs" by blast
  with False show ?thesis by (simp add: queue_pushBulk_def)
qed

lemma queue_popBulk_ok:
  assumes inv: "queue_inv q"
  shows "\<exists>q'. queue_popBulk count q = Some (take (unat count) (queue_items q), q') \<and> queue_inv q' \<and> same_cond q q' \<and>
    queue_cap q' = queue_cap q \<and> queue_items q' = drop (unat count) (queue_items q)"
proof (cases "count = 0 \<or> q_size q = 0")
  case True
  then have "take (unat count) (queue_items q) = []" "drop (unat count) (queue_items q) = queue_items q"
    using length_queue_items [of q] by auto
  with True inv queue_inv_block [OF inv] show ?thesis by (auto simp: queue_popBulk_def)
next
  case False
  with pop_many_ok [OF inv, of count] queue_inv_block [OF inv] show ?thesis by (simp add: queue_popBulk_def)
qed

interpretation tpq: bounded_fifo queue_inv queue_items queue_cap "2 ^ 32" queue_put queue_get
proof
  fix q :: "'a TPBlockQueue" and xs :: "'a list" and n k :: nat
  assume inv: "queue_inv q"
  show "length (queue_items q) \<le> queue_cap q" by (rule queue_bounded [OF inv])
  { assume "length xs < 2 ^ 32" and k: "k = min (length xs) (queue_cap q - length (queue_items q))"
    moreover from this have "k < 2 ^ 32" by simp
    ultimately show "\<exists>s'. queue_put xs q = Some (k, s') \<and> queue_inv s' \<and>
        queue_items s' = queue_items q @ take k xs \<and> queue_cap s' = queue_cap q"
      using queue_pushBulk_ok [OF inv, of k "of_nat (length xs)" xs]
      by (auto simp: queue_put_def unat_of_nat_u32 simp del: of_nat_min) }
  { assume "n < 2 ^ 32"
    then show "\<exists>s'. queue_get n q = Some (take n (queue_items q), s') \<and> queue_inv s' \<and>
        queue_items s' = drop n (queue_items q) \<and> queue_cap s' = queue_cap q"
      using queue_popBulk_ok [OF inv, of "of_nat n"] by (auto simp: queue_get_def unat_of_nat_u32) }
qed

section \<open>Concurrent use\<close>

text \<open>
  Threads share a queue. A step is one critical section, or one notification sent after a
  critical section has ended, or a wake-up (spurious or by timeout). The state adds the
  notifications that are still to be sent. A step is labelled with the elements it inserts
  and the elements it removes.
\<close>

record 'a qsys =
  s_queue :: "'a TPBlockQueue"
  s_pend_one :: nat
  s_pend_all :: nat

definition resumed :: "'a TPBlockQueue \<Rightarrow> 'a TPBlockQueue" where
  "resumed q = q\<lparr>q_woken := q_woken q - 1\<rparr>"

definition ret_items :: "'a list waited \<Rightarrow> 'a list" where
  "ret_items r = (case r of Blocked \<Rightarrow> [] | Returned xs \<Rightarrow> xs)"

definition ret_item :: "'a option waited \<Rightarrow> 'a list" where
  "ret_item r = (case r of Returned (Some x) \<Rightarrow> [x] | _ \<Rightarrow> [])"

inductive qstep :: "'a qsys \<Rightarrow> 'a list \<Rightarrow> 'a list \<Rightarrow> 'a qsys \<Rightarrow> bool" where
  push: "push_locked x (s_queue s) = Some (ok, q') \<Longrightarrow>
    qstep s (if ok then [x] else []) [] (s\<lparr>s_queue := q', s_pend_one := s_pend_one s + of_bool ok\<rparr>)"
| bulk: "count \<noteq> 0 \<Longrightarrow> unat count \<le> length xs \<Longrightarrow> pushBulk_locked xs count (s_queue s) = Some (n, q') \<Longrightarrow>
    qstep s (take (unat n) xs) [] (s\<lparr>s_queue := q', s_pend_one := s_pend_one s + of_bool (n = 1),
      s_pend_all := s_pend_all s + of_bool (n \<noteq> 0 \<and> n \<noteq> 1)\<rparr>)"
| pop: "queue_pop (s_queue s) = Some (r, q') \<Longrightarrow>
    qstep s [] (case r of None \<Rightarrow> [] | Some x \<Rightarrow> [x]) (s\<lparr>s_queue := q'\<rparr>)"
| popBulk: "queue_popBulk count (s_queue s) = Some (xs, q') \<Longrightarrow> qstep s [] xs (s\<lparr>s_queue := q'\<rparr>)"
| wait: "queue_wait_pop_for False (s_queue s) = Some (r, q') \<Longrightarrow> qstep s [] (ret_item r) (s\<lparr>s_queue := q'\<rparr>)"
| wait_resume: "0 < q_woken (s_queue s) \<Longrightarrow> queue_wait_pop_for expired (resumed (s_queue s)) = Some (r, q') \<Longrightarrow>
    qstep s [] (ret_item r) (s\<lparr>s_queue := q'\<rparr>)"
| wait_bulk: "count \<noteq> 0 \<Longrightarrow> wait_popBulk_for_locked False count (s_queue s) = Some (r, q') \<Longrightarrow>
    qstep s [] (ret_items r) (s\<lparr>s_queue := q'\<rparr>)"
| wait_bulk_resume: "count \<noteq> 0 \<Longrightarrow> 0 < q_woken (s_queue s) \<Longrightarrow>
    wait_popBulk_for_locked expired count (resumed (s_queue s)) = Some (r, q') \<Longrightarrow>
    qstep s [] (ret_items r) (s\<lparr>s_queue := q'\<rparr>)"
| wake: "qstep s [] [] (s\<lparr>s_queue := notify_one (s_queue s)\<rparr>)"
| send_one: "0 < s_pend_one s \<Longrightarrow>
    qstep s [] [] (s\<lparr>s_queue := notify_one (s_queue s), s_pend_one := s_pend_one s - 1\<rparr>)"
| send_all: "0 < s_pend_all s \<Longrightarrow>
    qstep s [] [] (s\<lparr>s_queue := notify_all (s_queue s), s_pend_all := s_pend_all s - 1\<rparr>)"
| stop: "qstep s [] [] (s\<lparr>s_queue := stop_locked (s_queue s), s_pend_all := Suc (s_pend_all s)\<rparr>)"

inductive qreach :: "'a qsys \<Rightarrow> 'a list \<Rightarrow> 'a list \<Rightarrow> 'a qsys \<Rightarrow> bool" where
  qstart: "qreach s [] [] s"
| qmore: "qreach s ins outs s' \<Longrightarrow> qstep s' i o' s'' \<Longrightarrow> qreach s (ins @ i) (outs @ o') s''"

text \<open>An untimed wait is a timed wait that has not expired.\<close>

lemma queue_wait_pop_eq: "queue_wait_pop q = queue_wait_pop_for False q"
  by (simp add: queue_wait_pop_def queue_wait_pop_for_def Let_def)

lemma wait_popBulk_eq: "wait_popBulk_locked count q = wait_popBulk_for_locked False count q"
  by (simp add: wait_popBulk_locked_def wait_popBulk_for_locked_def Let_def)

text \<open>
  The invariant: a thread sleeps only while every element has a thread that was woken or
  will be notified for it, and no thread sleeps on a stopped queue unless a broadcast is due.
\<close>

definition covered :: "'a qsys \<Rightarrow> bool" where
  "covered s \<longleftrightarrow> (0 < q_waiting (s_queue s) \<and> s_pend_all s = 0 \<longrightarrow>
     \<not> q_isStopped (s_queue s) \<and> unat (q_size (s_queue s)) \<le> q_woken (s_queue s) + s_pend_one s)"

definition qsys_inv :: "'a qsys \<Rightarrow> bool" where
  "qsys_inv s \<longleftrightarrow> queue_inv (s_queue s) \<and> covered s"

lemma resumed_simps [simp]: "queue_inv (resumed q) = queue_inv q" "queue_items (resumed q) = queue_items q"
  "queue_cap (resumed q) = queue_cap q" "q_size (resumed q) = q_size q" "q_waiting (resumed q) = q_waiting q"
  "q_isStopped (resumed q) = q_isStopped q" "q_woken (resumed q) = q_woken q - 1"
  "q_memoryBlock (resumed q) = q_memoryBlock q"
  by (simp_all add: resumed_def cond_updates queue_cap_def)

text \<open>
  One lemma for the four waiting operations: either the thread goes to sleep on an empty
  running queue, or it returns the first elements, at least one if there is one.
\<close>

definition took :: "'a TPBlockQueue \<Rightarrow> 'a list \<Rightarrow> 'a TPBlockQueue \<Rightarrow> bool" where
  "took q xs q' \<longleftrightarrow> queue_inv q' \<and> queue_cap q' = queue_cap q \<and> queue_items q = xs @ queue_items q' \<and>
     (q' = block_on q \<and> xs = [] \<and> q_size q = 0 \<and> \<not> q_isStopped q \<or>
      same_cond q q' \<and> (xs = [] \<longrightarrow> q_size q = 0))"

lemma wait_pop_took:
  assumes "queue_inv q" "queue_wait_pop_for expired q = Some (r, q')"
  shows "took q (ret_item r) q'"
  using assms pop_one_ok [OF assms(1)] queue_inv_block [OF assms(1)]
  by (auto simp: queue_wait_pop_for_def took_def ret_item_def wait_ready_def Let_def split: if_splits option.splits
      Option.bind_splits)

lemma wait_popBulk_took:
  assumes "queue_inv q" "count \<noteq> 0" "wait_popBulk_for_locked expired count q = Some (r, q')"
  shows "took q (ret_items r) q'"
proof (cases "\<not> wait_ready q \<or> q_size q = 0")
  case True
  with assms queue_inv_block [OF assms(1)] show ?thesis
    by (auto simp: wait_popBulk_for_locked_def took_def ret_items_def wait_ready_def Let_def split: if_splits)
next
  case False
  obtain q1 where q1: "pop_many count q = Some (take (unat count) (queue_items q), q1)" "queue_inv q1"
    "same_cond q q1" "queue_cap q1 = queue_cap q" "queue_items q1 = drop (unat count) (queue_items q)" using pop_many_ok [OF assms(1), of count] by blast
  have "r = Returned (take (unat count) (queue_items q))" "q' = q1"
    using False assms(3) q1(1) queue_inv_block [OF assms(1)] by (simp_all add: wait_popBulk_for_locked_def Let_def)
  moreover have "take (unat count) (queue_items q) \<noteq> []"
    using False assms(2) length_queue_items [of q] by (auto simp: unat_eq_0)
  ultimately show ?thesis using q1 by (simp add: took_def ret_items_def)
qed

lemma took_covered:
  assumes "took q xs q'" "qsys_inv s" "s_queue s = q0" "q_size q = q_size q0" "q_waiting q = q_waiting q0"
    "q_isStopped q = q_isStopped q0" "q_woken q = q_woken q0 \<or> 0 < q_woken q0 \<and> q_woken q = q_woken q0 - 1"
  shows "covered (s\<lparr>s_queue := q'\<rparr>)"
proof -
  have len: "unat (q_size q) = length xs + unat (q_size q')"
    using assms(1) length_queue_items [of q] length_queue_items [of q'] by (simp add: took_def)
  have c: "covered s" using assms(2) by (simp add: qsys_inv_def)
  show ?thesis
  proof (cases "q' = block_on q \<and> q_size q = 0 \<and> \<not> q_isStopped q")
    case True
    then show ?thesis by (simp add: covered_def block_on_def)
  next
    case False
    then have sc: "same_cond q q'" "xs = [] \<longrightarrow> q_size q = 0" using assms(1) by (auto simp: took_def)
    have "unat (q_size q') \<le> q_woken q' + s_pend_one s"
      if "unat (q_size q0) \<le> q_woken q0 + s_pend_one s"
    proof (cases "xs = []")
      case True
      with sc(2) len show ?thesis by simp
    next
      case False
      then have "1 \<le> length xs" by (cases xs) simp_all
      moreover have "q_woken q' = q_woken q" using sc(1) by (simp add: same_cond_def)
      moreover have "unat (q_size q0) = length xs + unat (q_size q')" using len assms(4) by simp
      ultimately show ?thesis using that assms(7) by linarith
    qed
    with c sc(1) assms(3-6) show ?thesis by (auto simp: covered_def same_cond_def)
  qed
qed

lemma qstep_push:
  assumes inv: "qsys_inv s" and e: "push_locked x (s_queue s) = Some (ok, q')"
  shows "qsys_inv (s\<lparr>s_queue := q', s_pend_one := s_pend_one s + of_bool ok\<rparr>)"
    "queue_items q' = queue_items (s_queue s) @ (if ok then [x] else [])" "queue_cap q' = queue_cap (s_queue s)"
proof -
  have qi: "queue_inv (s_queue s)" and c: "covered s" using inv by (simp_all add: qsys_inv_def)
  from push_locked_ok [OF qi, of x] e have p: "queue_inv q'" "same_cond (s_queue s) q'"
    "queue_items q' = queue_items (s_queue s) @ (if ok then [x] else [])" "queue_cap q' = queue_cap (s_queue s)" by auto
  from arg_cong [OF p(3), of length] have "unat (q_size q') = unat (q_size (s_queue s)) + of_bool ok"
    by (simp add: length_queue_items)
  with c p(2) have "covered (s\<lparr>s_queue := q', s_pend_one := s_pend_one s + of_bool ok\<rparr>)"
    by (auto simp: covered_def same_cond_def)
  with p show "qsys_inv (s\<lparr>s_queue := q', s_pend_one := s_pend_one s + of_bool ok\<rparr>)"
    "queue_items q' = queue_items (s_queue s) @ (if ok then [x] else [])" "queue_cap q' = queue_cap (s_queue s)"
    by (simp_all add: qsys_inv_def)
qed

lemma qstep_bulk:
  assumes inv: "qsys_inv s" and le: "unat count \<le> length xs"
    and e: "pushBulk_locked xs count (s_queue s) = Some (n, q')"
  shows "qsys_inv (s\<lparr>s_queue := q', s_pend_one := s_pend_one s + of_bool (n = 1),
      s_pend_all := s_pend_all s + of_bool (n \<noteq> 0 \<and> n \<noteq> 1)\<rparr>)"
    "queue_items q' = queue_items (s_queue s) @ take (unat n) xs" "queue_cap q' = queue_cap (s_queue s)"
proof -
  have qi: "queue_inv (s_queue s)" and c: "covered s" using inv by (simp_all add: qsys_inv_def)
  let ?m = "min (unat count) (queue_cap (s_queue s) - length (queue_items (s_queue s)))"
  have "?m \<le> length xs" using le by simp
  from pushBulk_locked_ok [OF qi refl this] e have n: "n = of_nat ?m" and p: "queue_inv q'" "same_cond (s_queue s) q'"
    "queue_items q' = queue_items (s_queue s) @ take ?m xs" "queue_cap q' = queue_cap (s_queue s)" by auto
  from p(4) show "queue_cap q' = queue_cap (s_queue s)" .
  have m: "unat n = ?m" unfolding n by (intro unat_of_nat_u32 le_unat_u32 [of _ count]) simp
  with p(3) show items: "queue_items q' = queue_items (s_queue s) @ take (unat n) xs" by simp
  from arg_cong [OF items, of length] m \<open>?m \<le> length xs\<close>
  have s': "unat (q_size q') = unat (q_size (s_queue s)) + unat n" by (simp add: length_queue_items)
  have "covered (s\<lparr>s_queue := q', s_pend_one := s_pend_one s + of_bool (n = 1),
      s_pend_all := s_pend_all s + of_bool (n \<noteq> 0 \<and> n \<noteq> 1)\<rparr>)"
    using c p(2) s' by (auto simp: covered_def same_cond_def)
  with p(1) show "qsys_inv (s\<lparr>s_queue := q', s_pend_one := s_pend_one s + of_bool (n = 1),
      s_pend_all := s_pend_all s + of_bool (n \<noteq> 0 \<and> n \<noteq> 1)\<rparr>)" by (simp add: qsys_inv_def)
qed

text \<open>A removal that does not wait.\<close>

lemma qstep_removed:
  assumes "qsys_inv s" "queue_inv q'" "same_cond (s_queue s) q'" "queue_items (s_queue s) = xs @ queue_items q'"
  shows "qsys_inv (s\<lparr>s_queue := q'\<rparr>)"
proof -
  have "unat (q_size q') \<le> unat (q_size (s_queue s))"
    using arg_cong [OF assms(4), of length] by (simp add: length_queue_items)
  with assms(1-3) show ?thesis by (auto simp: qsys_inv_def covered_def same_cond_def)
qed

lemma queue_pop_ok:
  assumes "queue_inv q"
  shows "\<exists>q'. queue_pop q = Some (if queue_items q = [] then None else Some (hd (queue_items q)), q') \<and> queue_inv q' \<and>
    same_cond q q' \<and> queue_cap q' = queue_cap q \<and> queue_items q' = tl (queue_items q)"
proof (cases "q_size q = 0")
  case True
  then have "queue_items q = []" using length_queue_items [of q] by simp
  with True assms queue_inv_block [OF assms] show ?thesis by (simp add: queue_pop_def)
next
  case False
  with pop_one_ok [OF assms False] queue_inv_block [OF assms] show ?thesis by (auto simp: queue_pop_def)
qed

lemma qstep_inv:
  assumes "qstep s i outs s'" "qsys_inv s"
  shows "qsys_inv s' \<and> queue_items (s_queue s) @ i = outs @ queue_items (s_queue s') \<and>
    queue_cap (s_queue s') = queue_cap (s_queue s)"
  using assms
proof (induction rule: qstep.induct)
  case (push x s ok q')
  from qstep_push [OF push(2,1)] show ?case by simp
next
  case (bulk count xs s n q')
  from qstep_bulk [OF bulk(4,2,3)] show ?case by simp
next
  case (pop s r q')
  then have inv: "queue_inv (s_queue s)" by (simp add: qsys_inv_def)
  from queue_pop_ok [OF inv] pop(1) have p: "queue_inv q'" "same_cond (s_queue s) q'"
    "queue_items (s_queue s) = (case r of None \<Rightarrow> [] | Some x \<Rightarrow> [x]) @ queue_items q'"
    and "queue_cap q' = queue_cap (s_queue s)"
    by (auto split: if_splits)
  with qstep_removed [OF pop(2) p] show ?case by simp
next
  case (popBulk count s xs q')
  then have inv: "queue_inv (s_queue s)" by (simp add: qsys_inv_def)
  from queue_popBulk_ok [OF inv, of count] popBulk(1) have p: "queue_inv q'" "same_cond (s_queue s) q'"
    "queue_items (s_queue s) = xs @ queue_items q'" and "queue_cap q' = queue_cap (s_queue s)" by auto
  with qstep_removed [OF popBulk(2) p] show ?case by simp
next
  case (wait s r q')
  then have t: "took (s_queue s) (ret_item r) q'" by (auto simp: qsys_inv_def intro: wait_pop_took)
  with took_covered [OF t wait(2) refl] show ?case by (simp add: qsys_inv_def took_def)
next
  case (wait_resume s expired r q')
  then have t: "took (resumed (s_queue s)) (ret_item r) q'" by (auto simp: qsys_inv_def intro: wait_pop_took)
  with took_covered [OF t wait_resume(3) refl] wait_resume(1) show ?case by (simp add: qsys_inv_def took_def)
next
  case (wait_bulk count s r q')
  then have t: "took (s_queue s) (ret_items r) q'" by (auto simp: qsys_inv_def intro: wait_popBulk_took)
  with took_covered [OF t wait_bulk(3) refl] show ?case by (simp add: qsys_inv_def took_def)
next
  case (wait_bulk_resume count s expired r q')
  then have t: "took (resumed (s_queue s)) (ret_items r) q'" by (auto simp: qsys_inv_def intro: wait_popBulk_took)
  with took_covered [OF t wait_bulk_resume(4) refl] wait_bulk_resume(2) show ?case by (simp add: qsys_inv_def took_def)
qed (auto simp: qsys_inv_def covered_def notify_one_def notify_all_def stop_locked_def cond_updates queue_cap_def)

lemma qreach_inv:
  assumes "qreach s ins outs s'" "qsys_inv s"
  shows "qsys_inv s' \<and> queue_items (s_queue s) @ ins = outs @ queue_items (s_queue s') \<and>
    queue_cap (s_queue s') = queue_cap (s_queue s)"
  using assms
proof (induction rule: qreach.induct)
  case (qstart s)
  then show ?case by simp
next
  case (qmore s ins outs s' i o' s'')
  then have 1: "qsys_inv s'" "queue_items (s_queue s) @ ins = outs @ queue_items (s_queue s')"
    "queue_cap (s_queue s') = queue_cap (s_queue s)" by simp_all
  from qstep_inv [OF qmore(2) 1(1)] 1(2,3) show ?case by (metis append.assoc)
qed

lemma queue_total:
  assumes "queue_inv q"
  shows "push_locked x q \<noteq> None" "queue_pop q \<noteq> None" "queue_popBulk count q \<noteq> None"
    "queue_wait_pop_for expired q \<noteq> None" "wait_popBulk_for_locked expired count q \<noteq> None"
proof -
  show "push_locked x q \<noteq> None" using push_locked_ok [OF assms, of x] by auto
  show "queue_pop q \<noteq> None" using queue_pop_ok [OF assms] by auto
  show "queue_popBulk count q \<noteq> None" using queue_popBulk_ok [OF assms, of count] by auto
  have "q_size q \<noteq> 0 \<Longrightarrow> pop_one q \<noteq> None" using pop_one_ok [OF assms] by auto
  then show "queue_wait_pop_for expired q \<noteq> None"
    using queue_inv_block [OF assms] by (auto simp: queue_wait_pop_for_def Let_def)
  have "pop_many count q \<noteq> None" using pop_many_ok [OF assms, of count] by auto
  then show "wait_popBulk_for_locked expired count q \<noteq> None"
    using queue_inv_block [OF assms] by (auto simp: wait_popBulk_for_locked_def Let_def)
qed

section \<open>Properties\<close>

text \<open>A queue fresh from \<open>init\<close>, on its own.\<close>

definition fresh_sys :: "'a TPBlockQueue \<Rightarrow> 'a qsys" where
  "fresh_sys q = \<lparr>s_queue = q, s_pend_one = 0, s_pend_all = 0\<rparr>"

lemma fresh_sys_inv:
  fixes q :: "'a TPBlockQueue"
  assumes "queue_init amal nsz capacity queue_new = Some (True, q)" "0 < nsz" "nsz * unat capacity + 63 < 2 ^ 32"
  shows "qsys_inv (fresh_sys q)" "queue_items q = []" "queue_cap q = unat capacity" "queue_inv q"
proof -
  have "capacity \<noteq> 0" using assms(1) by (auto simp: queue_init_def)
  moreover have "q_memoryBlock (queue_new :: 'a TPBlockQueue) = null" by (simp add: queue_new_def)
  ultimately have "queue_inv q" "queue_items q = []" "queue_cap q = unat capacity" "same_cond queue_new q"
    using queue_init_ok [OF _ _ assms(2,3), of "queue_new :: 'a TPBlockQueue" amal] assms(1) by auto
  then show "qsys_inv (fresh_sys q)" "queue_items q = []" "queue_cap q = unat capacity" "queue_inv q"
    by (simp_all add: qsys_inv_def fresh_sys_def covered_def same_cond_def queue_new_def)
qed

lemma sample_init: "\<exists>q. queue_init (\<lambda>_. 64) 16 3 (queue_new :: nat TPBlockQueue) = Some (True, q)"
  using queue_init_ok [of "queue_new :: nat TPBlockQueue" 3 16 "\<lambda>_. 64"] by (auto simp: queue_new_def)

text \<open>
  C5. The blocking queue is linearizable to a FIFO queue. For a queue of any capacity whose
  block size fits in 32 bits, under every interleaving of insertions, removals, waits,
  notifications, wake-ups and stops: the elements inserted so far are the elements removed so
  far followed by the stored ones, in order; the capacity is respected; and no operation
  touches a node outside the block or reads an empty slot.
\<close>

theorem queue_linearizable:
  assumes "queue_init amal nsz capacity queue_new = Some (True, q)" "0 < nsz" "nsz * unat capacity + 63 < 2 ^ 32"
    and "qreach (fresh_sys q) ins outs s"
  shows "ins = outs @ queue_items (s_queue s) \<and> length (queue_items (s_queue s)) \<le> unat capacity \<and>
    push_locked x (s_queue s) \<noteq> None \<and> queue_pop (s_queue s) \<noteq> None \<and> queue_popBulk n (s_queue s) \<noteq> None \<and>
    queue_wait_pop_for e (s_queue s) \<noteq> None \<and> wait_popBulk_for_locked e n (s_queue s) \<noteq> None"
proof -
  note F = fresh_sys_inv [OF assms(1-3)]
  from qreach_inv [OF assms(4) F(1)] have "queue_inv (s_queue s)" "queue_cap (s_queue s) = unat capacity"
    "ins = outs @ queue_items (s_queue s)"
    using F(2,3) by (simp_all add: qsys_inv_def fresh_sys_def)
  with queue_total [of "s_queue s"] queue_bounded [of "s_queue s"] show ?thesis by simp
qed

theorem queue_linearizable_witness:
  "\<exists>q. queue_init (\<lambda>_. 64) 16 3 (queue_new :: nat TPBlockQueue) = Some (True, q) \<and>
    [] = [] @ queue_items (s_queue (fresh_sys q)) \<and> length (queue_items (s_queue (fresh_sys q))) \<le> unat (3 :: u32) \<and>
    push_locked 7 (s_queue (fresh_sys q)) \<noteq> None \<and> queue_pop (s_queue (fresh_sys q)) \<noteq> None \<and>
    queue_popBulk 1 (s_queue (fresh_sys q)) \<noteq> None \<and> queue_wait_pop_for False (s_queue (fresh_sys q)) \<noteq> None \<and>
    wait_popBulk_for_locked False 1 (s_queue (fresh_sys q)) \<noteq> None"
proof -
  obtain q where q: "queue_init (\<lambda>_. 64) 16 3 (queue_new :: nat TPBlockQueue) = Some (True, q)"
    using sample_init by blast
  have "0 < (16 :: nat)" "16 * unat (3 :: u32) + 63 < 2 ^ 32" by simp_all
  from queue_linearizable [OF q this qstart, of 7 1 False] q show ?thesis by blast
qed


text \<open>A thread sleeps on the empty queue, then another one inserts an element.\<close>

lemma sample_sleep:
  assumes "queue_init (\<lambda>_. 64) 16 3 (queue_new :: nat TPBlockQueue) = Some (True, q)"
  shows "\<exists>s. qreach (fresh_sys q) [7] [] s \<and> 0 < q_waiting (s_queue s) \<and> wait_ready (s_queue s)"
proof -
  note F = fresh_sys_inv [OF assms]
  have z: "q_size q = 0" using F(2) length_queue_items [of q] by (simp add: u32_eq_0_iff)
  have st: "\<not> q_isStopped q" using assms by (auto simp: queue_init_def queue_new_def Let_def split: if_splits Option.bind_splits)
  have b: "queue_inv (block_on q)" "queue_items (block_on q) = []" "queue_cap (block_on q) = 3" using F by simp_all
  have "queue_wait_pop_for False q = Some (Blocked, block_on q)"
    using F(4) z st by (simp add: queue_wait_pop_for_def wait_ready_def queue_inv_block)
  then have "qstep (fresh_sys q) [] (ret_item Blocked) (fresh_sys q\<lparr>s_queue := block_on q\<rparr>)"
    by (intro qstep.wait) (simp add: fresh_sys_def)
  then have 1: "qreach (fresh_sys q) [] [] (fresh_sys (block_on q))"
    using qreach.qmore [OF qreach.qstart] by (fastforce simp: fresh_sys_def ret_item_def)
  from push_locked_ok [OF b(1), of 7] b(2,3) obtain q' where
    q': "push_locked 7 (block_on q) = Some (True, q')" "queue_items q' = [7]" "same_cond (block_on q) q'" by auto
  from qreach.qmore [OF 1 qstep.push [of 7 "fresh_sys (block_on q)" True q']] q'(1)
  have "qreach (fresh_sys q) [7] [] (fresh_sys (block_on q)\<lparr>s_queue := q', s_pend_one := 1\<rparr>)"
    by (simp add: fresh_sys_def)
  moreover have "0 < q_waiting q'" using q'(3) by (simp add: same_cond_def block_on_def)
  moreover have "q_size q' \<noteq> 0" using q'(2) length_queue_items [of q'] by auto
  ultimately show ?thesis by (intro exI) (auto simp: wait_ready_def)
qed


text \<open>
  \<open>release\<close> destroys exactly the elements that are still stored, each once and in order, and
  leaves the queue ready for a new \<open>init\<close>.
\<close>

theorem queue_release_destroys:
  assumes "queue_inv q"
  shows "\<exists>q'. queue_release q = Some (queue_items q, q') \<and> q_memoryBlock q' = null \<and> \<not> q_isStopped q'"
  by (rule queue_release_ok [OF assms])

theorem queue_release_destroys_witness:
  "\<exists>q q'. queue_init (\<lambda>_. 64) 16 3 (queue_new :: nat TPBlockQueue) = Some (True, q) \<and>
    queue_release q = Some (queue_items q, q') \<and> q_memoryBlock q' = null \<and> \<not> q_isStopped q'"
proof -
  obtain q where q: "queue_init (\<lambda>_. 64) 16 3 (queue_new :: nat TPBlockQueue) = Some (True, q)"
    using sample_init by blast
  with queue_release_destroys [of q] fresh_sys_inv(4) [OF q] show ?thesis by auto
qed

end
