(* ===== verification/Thread_Pool.thy ===== *)
theory Thread_Pool
  imports TP_Block_Queue "HOL-Library.Multiset"
begin

text \<open>
  \<open>ThreadPool\<close> of \<open>base/ThreadPool.hpp\<close>: one blocking queue and one worker thread per index,
  round-robin submission with an overflow queue, work stealing, and shutdown.

  A worker is the control state of \<open>process_single\<close> (batch size 1) or \<open>process_bulk\<close>: where it
  stands, the steal position, and the tasks it has popped and not yet executed. One step of a
  worker is one access to shared state. The reads of a queue's \<open>size\<close> outside its mutex are
  arguments of the operations (\<open>seen\<close>), so that every outcome of the race is covered.
  \<open>tp_executed\<close> and \<open>tp_dropped\<close> record the tasks that were executed and the tasks that were
  destroyed unexecuted when the queues were deleted.
\<close>

section \<open>State\<close>

datatype worker_pc =
    WStart
  | WOnly
  | WOnlySleep
  | WLoop
  | WSteal nat
  | WWait
  | WSleep
  | WCheck
  | WDrain
  | WDone

record 'a worker =
  w_batch :: u32
  w_pc :: worker_pc
  w_index :: nat
  w_hold :: "'a list"

record 'a ThreadPool =
  tp_shutdownPolicy :: bool
  tp_threadNum :: u32
  tp_queueLength :: u32
  tp_queues :: "'a TPBlockQueue list option"
  tp_workers :: "'a worker list"
  tp_index :: u32
  tp_executed :: "'a list"
  tp_dropped :: "'a list"

text \<open>The atomic counter \<open>index\<close> is not initialised by the constructor: its value is an argument.\<close>

definition tp_new :: "u32 \<Rightarrow> 'a ThreadPool" where
  "tp_new idx = \<lparr>tp_shutdownPolicy = True, tp_threadNum = 0, tp_queueLength = 0, tp_queues = None,
     tp_workers = [], tp_index = idx, tp_executed = [], tp_dropped = []\<rparr>"

section \<open>Initialisation\<close>

text \<open>
  The queues are initialised in order; \<open>amal i\<close> is the aligned allocator as the \<open>i\<close>-th queue
  finds it. A failure deletes all of them.
\<close>

fun init_queues :: "(nat \<Rightarrow> nat \<Rightarrow> addr) \<Rightarrow> nat \<Rightarrow> u32 \<Rightarrow> nat \<Rightarrow> nat \<Rightarrow> 'a TPBlockQueue list option option" where
  "init_queues amal nsz len i 0 = Some (Some [])"
| "init_queues amal nsz len i (Suc n) = do {
     (ok, q) \<leftarrow> queue_init (amal i) nsz len queue_new;
     if ok then do {
       r \<leftarrow> init_queues amal nsz len (Suc i) n;
       Some (map_option (\<lambda>qs. q # qs) r)
     } else Some None
   }"

definition worker_new :: "u32 \<Rightarrow> 'a worker" where
  "worker_new batchSize = \<lparr>w_batch = batchSize, w_pc = WStart, w_index = 0, w_hold = []\<rparr>"

definition tp_init ::
  "bool \<Rightarrow> (nat \<Rightarrow> nat \<Rightarrow> addr) \<Rightarrow> nat \<Rightarrow> u32 \<Rightarrow> u32 \<Rightarrow> u32 \<Rightarrow> u32 \<Rightarrow> 'a ThreadPool \<Rightarrow> (bool \<times> 'a ThreadPool) option" where
  "tp_init new_ok amal nsz cores queueLength threadNum batchSize tp =
     (if batchSize = 0 \<or> threadNum = 0 \<or> batchSize > queueLength then Some (False, tp)
      else if \<not> new_ok then Some (False, tp\<lparr>tp_queues := None\<rparr>)
      else do {
        r \<leftarrow> init_queues amal nsz queueLength 0 (unat threadNum);
        case r of
          None \<Rightarrow> Some (False, tp\<lparr>tp_queues := None\<rparr>)
        | Some qs \<Rightarrow>
            if cores = 0 then Some (False, tp\<lparr>tp_queues := None\<rparr>)
            else Some (True, tp\<lparr>tp_queues := Some qs, tp_threadNum := threadNum, tp_queueLength := queueLength,
                                tp_workers := tp_workers tp @ replicate (unat threadNum) (worker_new batchSize)\<rparr>)
      })"

section \<open>Submission\<close>

text \<open>The remainder by \<open>threadNum\<close> is undefined when the pool is not initialised.\<close>

definition next_index :: "'a ThreadPool \<Rightarrow> (u32 \<times> 'a ThreadPool) option" where
  "next_index tp =
     (if tp_threadNum tp = 0 then None
      else Some (tp_index tp mod tp_threadNum tp, tp\<lparr>tp_index := tp_index tp + 1\<rparr>))"

text \<open>An operation on queue \<open>i\<close> of the array; the array must exist and contain the index.\<close>

definition on_queue :: "nat \<Rightarrow> ('a TPBlockQueue \<Rightarrow> ('r \<times> 'a TPBlockQueue) option) \<Rightarrow>
    'a ThreadPool \<Rightarrow> ('r \<times> 'a ThreadPool) option" where
  "on_queue i f tp = (case tp_queues tp of
     None \<Rightarrow> None
   | Some qs \<Rightarrow> if i < length qs then do {
       (r, q') \<leftarrow> f (qs ! i);
       Some (r, tp\<lparr>tp_queues := Some (qs[i := q'])\<rparr>)
     } else None)"

text \<open>The fallback index: half of the queues further on.\<close>

definition half_index :: "u32 \<Rightarrow> 'a ThreadPool \<Rightarrow> nat" where
  "half_index index tp = unat ((index + tp_threadNum tp div 2) mod tp_threadNum tp)"

definition tp_emplace :: "u32 \<Rightarrow> 'a \<Rightarrow> 'a ThreadPool \<Rightarrow> (bool \<times> 'a ThreadPool) option" where
  "tp_emplace seen x tp = do {
     (index, tp1) \<leftarrow> next_index tp;
     if seen < tp_queueLength tp1
     then on_queue (unat index) (queue_emplace x) tp1
     else on_queue (half_index index tp1) (queue_emplace x) tp1
   }"

definition tp_append :: "u32 \<Rightarrow> 'a \<Rightarrow> 'a ThreadPool \<Rightarrow> (bool \<times> 'a ThreadPool) option" where
  "tp_append seen task tp = do {
     (index, tp1) \<leftarrow> next_index tp;
     if seen < tp_queueLength tp1
     then on_queue (unat index) (queue_push task) tp1
     else on_queue (half_index index tp1) (queue_push task) tp1
   }"

text \<open>A failing \<open>assert\<close> is \<^term>\<open>None\<close> too: the process aborts.\<close>

definition tp_append_bulk :: "u32 \<Rightarrow> 'a list \<Rightarrow> u32 \<Rightarrow> 'a ThreadPool \<Rightarrow> (u32 \<times> 'a ThreadPool) option" where
  "tp_append_bulk seen tasks cnt tp =
     (if cnt > tp_queueLength tp then None
      else do {
        (index, tp1) \<leftarrow> next_index tp;
        if seen + cnt div 2 \<le> tp_queueLength tp1
        then on_queue (unat index) (queue_pushBulk tasks cnt) tp1
        else on_queue (half_index index tp1) (queue_pushBulk tasks cnt) tp1
      })"

section \<open>Workers\<close>

definition others :: "nat \<Rightarrow> 'a ThreadPool \<Rightarrow> nat list" where
  "others i tp = filter (\<lambda>j. j \<noteq> i) [0 ..< unat (tp_threadNum tp)]"

text \<open>\<open>Stealer::threshold\<close>.\<close>

definition threshold :: "'a worker \<Rightarrow> nat \<Rightarrow> 'a TPBlockQueue \<Rightarrow> u32" where
  "threshold w n q =
     (if w_batch w = 1 then min (of_nat n) (q_maxSize q) else min (w_batch w * of_nat n) (q_maxSize q))"

text \<open>The pops of the two variants, as lists of tasks.\<close>

definition own_pop :: "'a worker \<Rightarrow> 'a TPBlockQueue \<Rightarrow> ('a list \<times> 'a TPBlockQueue) option" where
  "own_pop w q =
     (if w_batch w = 1
      then map_option (\<lambda>(r, q'). (case r of None \<Rightarrow> [] | Some x \<Rightarrow> [x], q')) (queue_pop q)
      else queue_popBulk (w_batch w) q)"

definition as_list :: "'a option waited \<Rightarrow> 'a list waited" where
  "as_list r = (case r of Blocked \<Rightarrow> Blocked | Returned None \<Rightarrow> Returned [] | Returned (Some x) \<Rightarrow> Returned [x])"

definition own_wait :: "'a worker \<Rightarrow> 'a TPBlockQueue \<Rightarrow> ('a list waited \<times> 'a TPBlockQueue) option" where
  "own_wait w q =
     (if w_batch w = 1 then map_option (\<lambda>(r, q'). (as_list r, q')) (queue_wait_pop q)
      else queue_wait_popBulk (w_batch w) q)"

definition own_wait_for :: "bool \<Rightarrow> 'a worker \<Rightarrow> 'a TPBlockQueue \<Rightarrow> ('a list waited \<times> 'a TPBlockQueue) option" where
  "own_wait_for expired w q =
     (if w_batch w = 1 then map_option (\<lambda>(r, q'). (as_list r, q')) (queue_wait_pop_for expired q)
      else queue_wait_popBulk_for expired (w_batch w) q)"

definition set_worker :: "nat \<Rightarrow> 'a worker \<Rightarrow> 'a ThreadPool \<Rightarrow> 'a ThreadPool" where
  "set_worker i w tp = tp\<lparr>tp_workers := (tp_workers tp)[i := w]\<rparr>"

text \<open>After a pop: execute what was popped, or go on at \<open>idle\<close> when nothing was.\<close>

definition after_pop :: "nat \<Rightarrow> 'a worker \<Rightarrow> worker_pc \<Rightarrow> worker_pc \<Rightarrow> 'a list \<times> 'a ThreadPool \<Rightarrow> 'a ThreadPool option" where
  "after_pop i w again idle r = (case r of (xs, tp) \<Rightarrow>
     Some (set_worker i (w\<lparr>w_hold := xs, w_pc := (if xs = [] then idle else again)\<rparr>) tp))"

definition after_wait ::
  "nat \<Rightarrow> 'a worker \<Rightarrow> worker_pc \<Rightarrow> worker_pc \<Rightarrow> worker_pc \<Rightarrow> 'a list waited \<times> 'a ThreadPool \<Rightarrow> 'a ThreadPool option" where
  "after_wait i w sleep again idle r = (case r of
     (Blocked, tp) \<Rightarrow> Some (set_worker i (w\<lparr>w_pc := sleep\<rparr>) tp)
   | (Returned xs, tp) \<Rightarrow> after_pop i w again idle (xs, tp))"

text \<open>
  One step of worker \<open>i\<close>. \<open>seen\<close> is the value of an unlocked read of a queue size, \<open>expired\<close>
  whether the timeout of a wait has passed. Tasks that are held are executed first.
\<close>

definition worker_step :: "u32 \<Rightarrow> bool \<Rightarrow> nat \<Rightarrow> 'a ThreadPool \<Rightarrow> 'a ThreadPool option" where
  "worker_step seen expired i tp =
     (if i < length (tp_workers tp) then
        let w = tp_workers tp ! i in
        case w_hold w of
          x # xs \<Rightarrow> Some (set_worker i (w\<lparr>w_hold := xs\<rparr>) (tp\<lparr>tp_executed := tp_executed tp @ [x]\<rparr>))
        | [] \<Rightarrow> (case w_pc w of
            WStart \<Rightarrow> Some (set_worker i (w\<lparr>w_pc := (if others i tp = [] then WOnly else WLoop)\<rparr>) tp)
          | WOnly \<Rightarrow> Option.bind (on_queue i (own_wait w) tp) (after_wait i w WOnlySleep WOnly WDrain)
          | WOnlySleep \<Rightarrow> Option.bind (on_queue i (\<lambda>q. own_wait w (resumed q)) tp) (after_wait i w WOnlySleep WOnly WDrain)
          | WLoop \<Rightarrow> Option.bind (on_queue i (own_pop w) tp) (after_pop i w WLoop (WSteal 0))
          | WSteal k \<Rightarrow>
              (case tp_queues tp of None \<Rightarrow> None
               | Some qs \<Rightarrow>
                 let total = length (others i tp) in
                 if k < total then
                   let now = (w_index w + k) mod total in
                   if threshold w total (qs ! i) \<le> seen
                   then Option.bind (on_queue (others i tp ! now) (own_pop w) tp)
                          (\<lambda>(xs, tp'). after_pop i (if xs = [] then w else w\<lparr>w_index := now\<rparr>) WLoop (WSteal (Suc k)) (xs, tp'))
                   else Some (set_worker i (w\<lparr>w_pc := WSteal (Suc k)\<rparr>) tp)
                 else Some (set_worker i (w\<lparr>w_pc := WWait\<rparr>) tp))
          | WWait \<Rightarrow> Option.bind (on_queue i (own_wait_for False w) tp) (after_wait i w WSleep WLoop WCheck)
          | WSleep \<Rightarrow> Option.bind (on_queue i (\<lambda>q. own_wait_for expired w (resumed q)) tp) (after_wait i w WSleep WLoop WCheck)
          | WCheck \<Rightarrow> Option.bind (on_queue i (\<lambda>q. Some (q_isStopped q, q)) tp)
              (\<lambda>(stopped, tp'). Some (set_worker i (w\<lparr>w_pc :=
                 (if stopped then if w_batch w = 1 then WDone else WDrain else WLoop)\<rparr>) tp'))
          | WDrain \<Rightarrow>
              if tp_shutdownPolicy tp
              then Option.bind (on_queue i (own_pop w) tp) (after_pop i w WDrain WDone)
              else Some (set_worker i (w\<lparr>w_pc := WDone\<rparr>) tp)
          | WDone \<Rightarrow> Some tp)
      else None)"

section \<open>Shutdown\<close>

text \<open>
  \<open>exit\<close> in three parts: store the policy and stop every queue; wait for the workers (the
  join is the guard of the last part); clear the pool and delete the queues, which destroys
  the tasks that are still stored.
\<close>

definition exit_policy :: "bool \<Rightarrow> 'a ThreadPool \<Rightarrow> 'a ThreadPool" where
  "exit_policy policy tp = tp\<lparr>tp_shutdownPolicy := policy\<rparr>"

definition exit_stop :: "nat \<Rightarrow> 'a ThreadPool \<Rightarrow> 'a ThreadPool option" where
  "exit_stop i tp = map_option snd (on_queue i (\<lambda>q. Some ((), queue_stopWait q)) tp)"

fun release_queues :: "'a TPBlockQueue list \<Rightarrow> 'a list option" where
  "release_queues [] = Some []"
| "release_queues (q # qs) = do {
     (xs, q') \<leftarrow> queue_release q;
     ys \<leftarrow> release_queues qs;
     Some (xs @ ys)
   }"

definition joined :: "'a ThreadPool \<Rightarrow> bool" where
  "joined tp \<longleftrightarrow> list_all (\<lambda>w. w_pc w = WDone \<and> w_hold w = []) (tp_workers tp)"

definition exit_finish :: "'a ThreadPool \<Rightarrow> 'a ThreadPool option" where
  "exit_finish tp = (case tp_queues tp of
     None \<Rightarrow> Some tp
   | Some qs \<Rightarrow> do {
       xs \<leftarrow> release_queues qs;
       Some (tp\<lparr>tp_workers := [], tp_threadNum := 0, tp_queueLength := 0, tp_queues := None,
                tp_dropped := tp_dropped tp @ xs\<rparr>)
     })"

section \<open>Operations of a worker on a queue\<close>

lemma queue_items_empty: "queue_items q = [] \<longleftrightarrow> q_size q = 0"
  by (metis length_0_conv length_queue_items u32_eq_0_iff)

lemma own_pop_ok:
  assumes "queue_inv q" "w_batch w \<noteq> 0"
  shows "\<exists>xs q'. own_pop w q = Some (xs, q') \<and> queue_inv q' \<and> same_cond q q' \<and> queue_cap q' = queue_cap q \<and>
    queue_items q = xs @ queue_items q' \<and> (xs = [] \<longrightarrow> queue_items q = [])"
proof (cases "w_batch w = 1")
  case True
  from queue_pop_ok [OF assms(1)] show ?thesis
    by (cases "queue_items q") (auto simp: own_pop_def True)
next
  case False
  from queue_popBulk_ok [OF assms(1), of "w_batch w"] obtain q' where
    "queue_popBulk (w_batch w) q = Some (take (unat (w_batch w)) (queue_items q), q')" "queue_inv q'" "same_cond q q'"
    "queue_cap q' = queue_cap q" "queue_items q' = drop (unat (w_batch w)) (queue_items q)" by blast
  moreover have "take (unat (w_batch w)) (queue_items q) = [] \<longrightarrow> queue_items q = []"
    using assms(2) by (simp add: u32_eq_0_iff)
  ultimately show ?thesis using False by (simp add: own_pop_def)
qed

text \<open>What a wait does: sleep on an empty running queue, or return elements in order.\<close>

definition wait_result :: "bool \<Rightarrow> 'a TPBlockQueue \<Rightarrow> 'a list waited \<Rightarrow> 'a TPBlockQueue \<Rightarrow> bool" where
  "wait_result expired q r q' \<longleftrightarrow> (case r of
     Blocked \<Rightarrow> q' = block_on q \<and> queue_items q = [] \<and> \<not> q_isStopped q
   | Returned xs \<Rightarrow> queue_inv q' \<and> same_cond q q' \<and> queue_cap q' = queue_cap q \<and> queue_items q = xs @ queue_items q' \<and>
       (xs = [] \<longrightarrow> queue_items q = [] \<and> (\<not> expired \<longrightarrow> q_isStopped q)))"

lemma own_wait_for_ok:
  assumes inv: "queue_inv q" and b: "w_batch w \<noteq> 0"
  shows "\<exists>r q'. own_wait_for expired w q = Some (r, q') \<and> wait_result expired q r q'"
proof (cases "q_size q = 0")
  case True
  with inv b queue_inv_block [OF inv] show ?thesis
    by (auto simp: own_wait_for_def queue_wait_pop_for_def queue_wait_popBulk_for_def wait_popBulk_for_locked_def
        wait_ready_def wait_result_def as_list_def Let_def queue_items_empty)
next
  case False
  show ?thesis
  proof (cases "w_batch w = 1")
    case True
    with pop_one_ok [OF inv False] False queue_inv_block [OF inv] show ?thesis
      by (auto simp: own_wait_for_def queue_wait_pop_for_def wait_ready_def wait_result_def as_list_def Let_def)
  next
    case bulk: False
    have "take (unat (w_batch w)) (queue_items q) \<noteq> []"
      using b False by (simp add: u32_eq_0_iff queue_items_empty)
    with pop_many_ok [OF inv, of "w_batch w"] bulk b False queue_inv_block [OF inv] show ?thesis
      by (auto simp: own_wait_for_def queue_wait_popBulk_for_def wait_popBulk_for_locked_def wait_ready_def
          wait_result_def Let_def)
  qed
qed

lemma own_wait_eq: "own_wait w q = own_wait_for False w q"
  by (simp add: own_wait_def own_wait_for_def queue_wait_pop_eq queue_wait_popBulk_def queue_wait_popBulk_for_def
      wait_popBulk_eq)

section \<open>The invariant\<close>

text \<open>
  A pool of \<open>n\<close> queues with batch size \<open>b\<close>; \<open>closing\<close> tells whether \<open>exit\<close> has been called.
  Only worker \<open>i\<close> sleeps on queue \<open>i\<close>. In a pool that drains its queues, a worker
  that has returned leaves an empty queue.
\<close>

definition drains :: "nat \<Rightarrow> u32 \<Rightarrow> bool" where
  "drains n b \<longleftrightarrow> b \<noteq> 1 \<or> n = 1"

definition asleep :: "'a worker \<Rightarrow> bool" where
  "asleep w \<longleftrightarrow> w_pc w = WSleep \<or> w_pc w = WOnlySleep"

text \<open>Which control states occur in a pool of \<open>n\<close> workers, which follow a stop, which hold tasks.\<close>

fun pc_fits :: "nat \<Rightarrow> worker_pc \<Rightarrow> bool" where
  "pc_fits n WStart \<longleftrightarrow> True"
| "pc_fits n WOnly \<longleftrightarrow> n = 1"
| "pc_fits n WOnlySleep \<longleftrightarrow> n = 1"
| "pc_fits n WDrain \<longleftrightarrow> True"
| "pc_fits n WDone \<longleftrightarrow> True"
| "pc_fits n _ \<longleftrightarrow> n \<noteq> 1"

definition pc_ending :: "worker_pc \<Rightarrow> bool" where
  "pc_ending pc \<longleftrightarrow> pc = WDrain \<or> pc = WDone"

definition pc_holds :: "worker_pc \<Rightarrow> bool" where
  "pc_holds pc \<longleftrightarrow> pc = WOnly \<or> pc = WLoop \<or> pc = WDrain"

definition wq_ok :: "bool \<Rightarrow> bool \<Rightarrow> nat \<Rightarrow> u32 \<Rightarrow> 'a worker \<Rightarrow> 'a TPBlockQueue \<Rightarrow> bool" where
  "wq_ok closing policy n b w q \<longleftrightarrow> queue_inv q \<and> w_batch w = b \<and> (q_isStopped q \<longrightarrow> closing) \<and>
     q_waiting q + q_woken q = of_bool (asleep w) \<and>
     (pc_ending (w_pc w) \<longrightarrow> q_isStopped q) \<and>
     (w_pc w = WDone \<and> policy \<and> drains n b \<longrightarrow> queue_items q = []) \<and>
     pc_fits n (w_pc w) \<and> (w_hold w \<noteq> [] \<longrightarrow> pc_holds (w_pc w))"

definition tp_inv :: "bool \<Rightarrow> nat \<Rightarrow> u32 \<Rightarrow> u32 \<Rightarrow> 'a list \<Rightarrow> 'a ThreadPool \<Rightarrow> bool" where
  "tp_inv closing n b len sub tp \<longleftrightarrow> (\<exists>qs. tp_queues tp = Some qs \<and> 0 < n \<and> n = unat (tp_threadNum tp) \<and> b \<noteq> 0 \<and>
     tp_queueLength tp = len \<and> length qs = n \<and> length (tp_workers tp) = n \<and>
     (\<forall>i < n. wq_ok closing (tp_shutdownPolicy tp) n b (tp_workers tp ! i) (qs ! i) \<and> queue_cap (qs ! i) = unat len) \<and>
     mset sub = mset (tp_executed tp) + mset (concat (map w_hold (tp_workers tp))) +
       mset (concat (map queue_items qs)))"

lemma mset_concat_update:
  assumes "i < length xs"
  shows "mset (concat (map f (xs[i := x]))) + mset (f (xs ! i)) = mset (concat (map f xs)) + mset (f x)"
proof -
  have "xs = take i xs @ xs ! i # drop (Suc i) xs" by (rule id_take_nth_drop [OF assms])
  then have "mset (concat (map f xs)) = mset (concat (map f (take i xs))) + mset (f (xs ! i)) +
      mset (concat (map f (drop (Suc i) xs)))"
    by (metis concat.simps(2) concat_append list.simps(9) map_append mset_append union_assoc)
  moreover have "mset (concat (map f (xs[i := x]))) = mset (concat (map f (take i xs))) + mset (f x) +
      mset (concat (map f (drop (Suc i) xs)))"
    by (simp add: upd_conv_take_nth_drop [OF assms])
  ultimately show ?thesis by simp
qed

text \<open>
  The effect of a worker step: it changes worker \<open>i\<close> and one queue \<open>j\<close>, and executes \<open>ys\<close>.
  Tasks only move.
\<close>

definition moved :: "nat \<Rightarrow> 'a ThreadPool \<Rightarrow> nat \<Rightarrow> 'a TPBlockQueue list \<Rightarrow> 'a TPBlockQueue \<Rightarrow> 'a worker \<Rightarrow> 'a list \<Rightarrow>
    'a ThreadPool \<Rightarrow> bool" where
  "moved i tp j qs q' w' ys tp' \<longleftrightarrow>
     tp' = tp\<lparr>tp_queues := Some (qs[j := q']), tp_workers := (tp_workers tp)[i := w'],
              tp_executed := tp_executed tp @ ys\<rparr> \<and>
     mset (w_hold (tp_workers tp ! i)) + mset (queue_items (qs ! j)) = mset ys + mset (w_hold w') + mset (queue_items q') \<and>
     queue_inv q' \<and> queue_cap q' = queue_cap (qs ! j) \<and>
     (j \<noteq> i \<longrightarrow> same_cond (qs ! j) q' \<and> (queue_items (qs ! j) = [] \<longrightarrow> queue_items q' = []))"

lemma moved_inv:
  assumes inv: "tp_inv closing n b len sub tp" and qs: "tp_queues tp = Some qs" and ij: "i < n" "j < n"
    and mv: "moved i tp j qs q' w' ys tp'"
    and ok: "wq_ok closing (tp_shutdownPolicy tp) n b w' (if j = i then q' else qs ! i)"
  shows "tp_inv closing n b len sub tp'"
proof -
  let ?ws = "tp_workers tp"
  from inv qs have I: "0 < n" "n = unat (tp_threadNum tp)" "b \<noteq> 0" "tp_queueLength tp = len" "length qs = n" "length ?ws = n"
    "\<And>k. k < n \<Longrightarrow> wq_ok closing (tp_shutdownPolicy tp) n b (?ws ! k) (qs ! k) \<and> queue_cap (qs ! k) = unat len"
    "mset sub = mset (tp_executed tp) + mset (concat (map w_hold ?ws)) + mset (concat (map queue_items qs))"
    by (auto simp: tp_inv_def)
  from mv have M: "tp' = tp\<lparr>tp_queues := Some (qs[j := q']), tp_workers := ?ws[i := w'], tp_executed := tp_executed tp @ ys\<rparr>"
    "mset (w_hold (?ws ! i)) + mset (queue_items (qs ! j)) = mset ys + mset (w_hold w') + mset (queue_items q')"
    "queue_inv q'" "queue_cap q' = queue_cap (qs ! j)"
    "j \<noteq> i \<longrightarrow> same_cond (qs ! j) q' \<and> (queue_items (qs ! j) = [] \<longrightarrow> queue_items q' = [])"
    by (simp_all add: moved_def)
  have "wq_ok closing (tp_shutdownPolicy tp) n b (?ws[i := w'] ! k) (qs[j := q'] ! k) \<and> queue_cap (qs[j := q'] ! k) = unat len"
    if k: "k < n" for k
  proof (cases "k = i")
    case True
    then show ?thesis using ok ij I(5,6) I(7) [OF ij(1)] I(7) [OF ij(2)] M(4) by (auto simp: nth_list_update)
  next
    case False
    then show ?thesis using I(5,6) I(7) [OF k] M(3,4,5) k
      by (cases "k = j") (auto simp: nth_list_update wq_ok_def same_cond_def)
  qed
  moreover have "mset sub = mset (tp_executed tp @ ys) + mset (concat (map w_hold (?ws[i := w']))) +
      mset (concat (map queue_items (qs[j := q'])))"
  proof -
    have "mset (concat (map w_hold (?ws[i := w']))) + mset (w_hold (?ws ! i)) = mset (concat (map w_hold ?ws)) + mset (w_hold w')"
      using ij(1) I(6) by (intro mset_concat_update) simp
    moreover have "mset (concat (map queue_items (qs[j := q']))) + mset (queue_items (qs ! j)) =
        mset (concat (map queue_items qs)) + mset (queue_items q')"
      using ij(2) I(5) by (intro mset_concat_update) simp
    ultimately show ?thesis using M(2) I(8) by (simp add: multiset_eq_iff) (smt (verit) add.assoc add.commute add_left_cancel)
  qed
  ultimately show ?thesis unfolding tp_inv_def using I(1-6) M(1) by (intro exI [of _ "qs[j := q']"]) simp
qed

section \<open>Worker steps keep the invariant\<close>

definition step_ok :: "bool \<Rightarrow> nat \<Rightarrow> u32 \<Rightarrow> nat \<Rightarrow> 'a ThreadPool \<Rightarrow> 'a TPBlockQueue list \<Rightarrow> 'a ThreadPool \<Rightarrow> bool" where
  "step_ok closing n b i tp qs tp' \<longleftrightarrow> (\<exists>j q' w' ys. j < n \<and> moved i tp j qs q' w' ys tp' \<and>
     wq_ok closing (tp_shutdownPolicy tp) n b w' (if j = i then q' else qs ! i))"

lemma tp_queues_id: "tp_queues tp = Some qs \<Longrightarrow> tp\<lparr>tp_queues := Some qs\<rparr> = tp"
  by (cases tp) simp

lemma tp_executed_id: "tp\<lparr>tp_executed := tp_executed tp\<rparr> = tp"
  by (cases tp) simp

lemma on_queue_ok:
  assumes "tp_queues tp = Some qs" "j < length qs" "f (qs ! j) = Some (r, q')"
  shows "on_queue j f tp = Some (r, tp\<lparr>tp_queues := Some (qs[j := q'])\<rparr>)"
  using assms by (simp add: on_queue_def)

text \<open>A step that only moves the control state or executes a held task.\<close>

lemma step_ok_local:
  assumes "tp_queues tp = Some qs" "i < n" "length qs = n" "queue_inv (qs ! i)"
    "wq_ok closing (tp_shutdownPolicy tp) n b w' (qs ! i)"
    "mset (w_hold (tp_workers tp ! i)) = mset ys + mset (w_hold w')"
  shows "step_ok closing n b i tp qs (set_worker i w' (tp\<lparr>tp_executed := tp_executed tp @ ys\<rparr>))"
proof -
  have "moved i tp i qs (qs ! i) w' ys (set_worker i w' (tp\<lparr>tp_executed := tp_executed tp @ ys\<rparr>))"
    using assms tp_queues_id [OF assms(1)] by (cases tp) (simp add: moved_def set_worker_def)
  with assms(2,5) show ?thesis unfolding step_ok_def by (intro exI [of _ i]) auto
qed

lemma step_ok_pc:
  assumes "tp_queues tp = Some qs" "i < n" "length qs = n" "queue_inv (qs ! i)"
    "wq_ok closing (tp_shutdownPolicy tp) n b w' (qs ! i)" "w_hold w' = w_hold (tp_workers tp ! i)"
  shows "step_ok closing n b i tp qs (set_worker i w' tp)"
  using step_ok_local [OF assms(1-5), of "[]"] assms(6) tp_executed_id [of tp] by simp

text \<open>A step that takes elements from queue \<open>j\<close>.\<close>

lemma step_ok_take:
  assumes "tp_queues tp = Some qs" "i < n" "j < n" "length qs = n" "w_hold (tp_workers tp ! i) = []"
    "queue_inv q'" "queue_cap q' = queue_cap (qs ! j)" "queue_items (qs ! j) = w_hold w' @ queue_items q'"
    "j \<noteq> i \<Longrightarrow> same_cond (qs ! j) q'"
    "wq_ok closing (tp_shutdownPolicy tp) n b w' (if j = i then q' else qs ! i)"
  shows "step_ok closing n b i tp qs (set_worker i w' (tp\<lparr>tp_queues := Some (qs[j := q'])\<rparr>))"
proof -
  have "moved i tp j qs q' w' [] (set_worker i w' (tp\<lparr>tp_queues := Some (qs[j := q'])\<rparr>))"
    using assms by (cases tp) (auto simp: moved_def set_worker_def)
  with assms(3,10) show ?thesis unfolding step_ok_def by blast
qed

lemma worker_pop_step:
  assumes st: "tp_queues tp = Some qs" "i < n" "j < n" "length qs = n" "w = tp_workers tp ! i" "w_hold w = []"
    and q: "queue_inv (qs ! j)" "w_batch w \<noteq> 0"
    and w1: "w_hold w1 = []" "\<And>xs. w_batch (u xs) = w_batch w"
    and ok: "\<And>xs q'. own_pop w (qs ! j) = Some (xs, q') \<Longrightarrow> queue_inv q' \<Longrightarrow> same_cond (qs ! j) q' \<Longrightarrow>
      queue_items (qs ! j) = xs @ queue_items q' \<Longrightarrow> (xs = [] \<longrightarrow> queue_items (qs ! j) = []) \<Longrightarrow>
      wq_ok closing (tp_shutdownPolicy tp) n b (u xs\<lparr>w_hold := xs, w_pc := (if xs = [] then idle else again)\<rparr>)
        (if j = i then q' else qs ! i)"
  shows "\<exists>tp'. Option.bind (on_queue j (own_pop w) tp) (\<lambda>(xs, tp'). after_pop i (u xs) again idle (xs, tp')) = Some tp' \<and>
    step_ok closing n b i tp qs tp'"
proof -
  from own_pop_ok [OF q] obtain xs q' where p: "own_pop w (qs ! j) = Some (xs, q')" "queue_inv q'"
    "same_cond (qs ! j) q'" "queue_cap q' = queue_cap (qs ! j)" "queue_items (qs ! j) = xs @ queue_items q'"
    "xs = [] \<longrightarrow> queue_items (qs ! j) = []" by blast
  let ?w = "u xs\<lparr>w_hold := xs, w_pc := (if xs = [] then idle else again)\<rparr>"
  have "on_queue j (own_pop w) tp = Some (xs, tp\<lparr>tp_queues := Some (qs[j := q'])\<rparr>)"
    using st p(1) by (intro on_queue_ok) simp_all
  moreover have "step_ok closing n b i tp qs (set_worker i ?w (tp\<lparr>tp_queues := Some (qs[j := q'])\<rparr>))"
    using st p ok [OF p(1,2,3,5,6)] by (intro step_ok_take) simp_all
  ultimately show ?thesis by (simp add: after_pop_def)
qed

lemma worker_wait_step:
  assumes st: "tp_queues tp = Some qs" "i < n" "length qs = n" "w = tp_workers tp ! i" "w_hold w = []"
    and q: "q = qs ! i \<or> q = resumed (qs ! i)" "queue_inv (qs ! i)" "w_batch w \<noteq> 0" "f (qs ! i) = own_wait_for expired w q"
    and sl: "\<And>q'. queue_inv q' \<Longrightarrow> q' = block_on q \<Longrightarrow> queue_items q = [] \<Longrightarrow> \<not> q_isStopped q \<Longrightarrow>
      wq_ok closing (tp_shutdownPolicy tp) n b (w\<lparr>w_pc := sleep\<rparr>) q'"
    and ok: "\<And>xs q'. queue_inv q' \<Longrightarrow> same_cond q q' \<Longrightarrow>
      queue_items q = xs @ queue_items q' \<Longrightarrow> (xs = [] \<longrightarrow> queue_items q = [] \<and> (\<not> expired \<longrightarrow> q_isStopped q)) \<Longrightarrow>
      wq_ok closing (tp_shutdownPolicy tp) n b (w\<lparr>w_hold := xs, w_pc := (if xs = [] then idle else again)\<rparr>) q'"
  shows "\<exists>tp'. Option.bind (on_queue i f tp) (after_wait i w sleep again idle) = Some tp' \<and>
    step_ok closing n b i tp qs tp'"
proof -
  have q': "queue_inv q" "queue_items q = queue_items (qs ! i)" "queue_cap q = queue_cap (qs ! i)" using q(1,2) by auto
  from own_wait_for_ok [OF q'(1) q(3)] obtain r q2 where r: "own_wait_for expired w q = Some (r, q2)"
    "wait_result expired q r q2" by blast
  have o: "on_queue i f tp = Some (r, tp\<lparr>tp_queues := Some (qs[i := q2])\<rparr>)"
    using st q(4) r(1) by (intro on_queue_ok) simp_all
  show ?thesis
  proof (cases r)
    case Blocked
    with r(2) have b: "q2 = block_on q" "queue_items q = []" "\<not> q_isStopped q" by (simp_all add: wait_result_def)
    with q' have "step_ok closing n b i tp qs (set_worker i (w\<lparr>w_pc := sleep\<rparr>) (tp\<lparr>tp_queues := Some (qs[i := q2])\<rparr>))"
      using st sl [of q2] by (intro step_ok_take) simp_all
    with o Blocked show ?thesis by (simp add: after_wait_def)
  next
    case (Returned xs)
    let ?w = "w\<lparr>w_hold := xs, w_pc := (if xs = [] then idle else again)\<rparr>"
    from Returned r(2) have b: "queue_inv q2" "same_cond q q2" "queue_cap q2 = queue_cap q" "queue_items q = xs @ queue_items q2"
      "xs = [] \<longrightarrow> queue_items q = [] \<and> (\<not> expired \<longrightarrow> q_isStopped q)" by (auto simp: wait_result_def)
    with q' have "step_ok closing n b i tp qs (set_worker i ?w (tp\<lparr>tp_queues := Some (qs[i := q2])\<rparr>))"
      using st ok [OF b(1,2,4,5)] by (intro step_ok_take) simp_all
    with o Returned show ?thesis by (simp add: after_wait_def after_pop_def)
  qed
qed

lemma others_nth: "k < length (others i tp) \<Longrightarrow> others i tp ! k < unat (tp_threadNum tp) \<and> others i tp ! k \<noteq> i"
  using nth_mem [of k "others i tp"] by (auto simp: others_def)

lemma others_empty: "i < unat (tp_threadNum tp) \<Longrightarrow> others i tp = [] \<longleftrightarrow> unat (tp_threadNum tp) = 1"
proof -
  assume i: "i < unat (tp_threadNum tp)"
  have "others i tp = [] \<longleftrightarrow> (\<forall>j < unat (tp_threadNum tp). j = i)"
    by (auto simp: others_def filter_empty_conv)
  also have "\<dots> \<longleftrightarrow> unat (tp_threadNum tp) = 1"
  proof
    assume a: "\<forall>j < unat (tp_threadNum tp). j = i"
    show "unat (tp_threadNum tp) = 1"
    proof (rule ccontr)
      assume "unat (tp_threadNum tp) \<noteq> 1"
      with i have "0 < unat (tp_threadNum tp)" "1 < unat (tp_threadNum tp)" by linarith+
      with a show False by (metis zero_neq_one)
    qed
  qed (use i in auto)
  finally show ?thesis .
qed

lemmas pc_defs = asleep_def pc_ending_def pc_holds_def

lemma wq_ok_local:
  assumes "wq_ok closing policy n b w q" "w_batch w' = w_batch w" "w_hold w' = []" "asleep w' = asleep w"
    "pc_ending (w_pc w') \<Longrightarrow> q_isStopped q" "w_pc w' = WDone \<Longrightarrow> policy \<Longrightarrow> drains n b \<Longrightarrow> queue_items q = []"
    "pc_fits n (w_pc w')"
  shows "wq_ok closing policy n b w' q"
  using assms unfolding wq_ok_def by simp

text \<open>A step that leaves the control state runnable and takes elements from the own queue.\<close>

lemma wq_ok_take:
  assumes "wq_ok closing policy n b w q" "q_waiting q + q_woken q = 0" "same_cond q q'" "queue_inv q'"
    "queue_items q = xs @ queue_items q'" "w_batch w' = w_batch w" "w_hold w' = xs" "\<not> asleep w'"
    "pc_ending (w_pc w') \<Longrightarrow> q_isStopped q" "w_pc w' = WDone \<Longrightarrow> queue_items q = []"
    "pc_fits n (w_pc w')" "xs \<noteq> [] \<Longrightarrow> pc_holds (w_pc w')"
  shows "wq_ok closing policy n b w' q'"
  using assms unfolding wq_ok_def same_cond_def by simp

lemma wq_ok_sleep:
  assumes "wq_ok closing policy n b w q" "q_waiting q + q_woken q = 0" "w_hold w = []"
    "pc_fits n pc" "pc = WSleep \<or> pc = WOnlySleep"
  shows "wq_ok closing policy n b (w\<lparr>w_pc := pc\<rparr>) (block_on q)"
  using assms by (auto simp: wq_ok_def pc_defs block_on_def cond_updates)

lemma wq_ok_resumed:
  assumes "wq_ok closing policy n b w q" "asleep w" "0 < q_woken q" "w_hold w = []"
    "pc_fits n pc" "pc = WOnly \<or> pc = WWait"
  shows "wq_ok closing policy n b (w\<lparr>w_pc := pc\<rparr>) (resumed q)" "q_waiting (resumed q) + q_woken (resumed q) = 0"
  using assms by (auto simp: wq_ok_def pc_defs)

text \<open>The two waits, from a running state or after a wake-up.\<close>

lemma wait_step_alone:
  assumes st: "tp_queues tp = Some qs" "i < n" "length qs = n" "w = tp_workers tp ! i" "w_hold w = []" "n = 1"
    and q: "q = qs ! i \<or> q = resumed (qs ! i)" "w_batch w \<noteq> 0" "f (qs ! i) = own_wait_for False w q"
    and ok: "wq_ok closing (tp_shutdownPolicy tp) n b (w\<lparr>w_pc := WOnly\<rparr>) q" "q_waiting q + q_woken q = 0"
  shows "\<exists>tp'. Option.bind (on_queue i f tp) (after_wait i w WOnlySleep WOnly WDrain) = Some tp' \<and>
    step_ok closing n b i tp qs tp'"
proof (rule worker_wait_step [where f = f and w = w and q = q, OF st(1-5) q(1)])
  show "queue_inv (qs ! i)" using ok(1) q(1) by (auto simp: wq_ok_def)
  show "w_batch w \<noteq> 0" by (rule q(2))
  show "f (qs ! i) = own_wait_for False w q" by (rule q(3))
next
  fix q' assume "q' = block_on q"
  with wq_ok_sleep [OF ok, of WOnlySleep] st(5,6) show "wq_ok closing (tp_shutdownPolicy tp) n b (w\<lparr>w_pc := WOnlySleep\<rparr>) q'" by simp
next
  fix xs q'
  assume "queue_inv q'" "same_cond q q'" "queue_items q = xs @ queue_items q'"
    "xs = [] \<longrightarrow> queue_items q = [] \<and> (\<not> False \<longrightarrow> q_isStopped q)"
  then show "wq_ok closing (tp_shutdownPolicy tp) n b (w\<lparr>w_hold := xs, w_pc := (if xs = [] then WDrain else WOnly)\<rparr>) q'"
    using st(6) by (intro wq_ok_take [OF ok]) (simp_all add: pc_defs split: if_splits)
qed

lemma wait_step_timed:
  assumes st: "tp_queues tp = Some qs" "i < n" "length qs = n" "w = tp_workers tp ! i" "w_hold w = []" "n \<noteq> 1"
    and q: "q = qs ! i \<or> q = resumed (qs ! i)" "w_batch w \<noteq> 0" "f (qs ! i) = own_wait_for expired w q"
    and ok: "wq_ok closing (tp_shutdownPolicy tp) n b (w\<lparr>w_pc := WWait\<rparr>) q" "q_waiting q + q_woken q = 0"
  shows "\<exists>tp'. Option.bind (on_queue i f tp) (after_wait i w WSleep WLoop WCheck) = Some tp' \<and>
    step_ok closing n b i tp qs tp'"
proof (rule worker_wait_step [where f = f and w = w and q = q, OF st(1-5) q(1)])
  show "queue_inv (qs ! i)" using ok(1) q(1) by (auto simp: wq_ok_def)
  show "w_batch w \<noteq> 0" by (rule q(2))
  show "f (qs ! i) = own_wait_for expired w q" by (rule q(3))
next
  fix q' assume "q' = block_on q"
  with wq_ok_sleep [OF ok, of WSleep] st(5,6) show "wq_ok closing (tp_shutdownPolicy tp) n b (w\<lparr>w_pc := WSleep\<rparr>) q'" by simp
next
  fix xs q'
  assume "queue_inv q'" "same_cond q q'" "queue_items q = xs @ queue_items q'"
  then show "wq_ok closing (tp_shutdownPolicy tp) n b (w\<lparr>w_hold := xs, w_pc := (if xs = [] then WCheck else WLoop)\<rparr>) q'"
    using st(6) by (intro wq_ok_take [OF ok]) (simp_all add: pc_defs split: if_splits)
qed

lemma worker_step_ok:
  assumes inv: "tp_inv closing n b len sub tp" and i: "i < n" and qs: "tp_queues tp = Some qs"
    and run: "asleep (tp_workers tp ! i) \<Longrightarrow> 0 < q_woken (qs ! i)"
  shows "\<exists>tp'. worker_step seen expired i tp = Some tp' \<and> step_ok closing n b i tp qs tp'"
proof -
  define w where "w = tp_workers tp ! i"
  let ?pol = "tp_shutdownPolicy tp"
  from inv qs have len: "length qs = n" "length (tp_workers tp) = n" and n: "n = unat (tp_threadNum tp)" and b: "b \<noteq> 0"
    and ok: "\<And>k. k < n \<Longrightarrow> wq_ok closing ?pol n b (tp_workers tp ! k) (qs ! k)"
    by (auto simp: tp_inv_def)
  have W: "wq_ok closing ?pol n b w (qs ! i)" using ok [OF i] by (simp add: w_def)
  then have wb: "w_batch w \<noteq> 0" and qi: "queue_inv (qs ! i)" using b by (auto simp: wq_ok_def)
  have il: "i < length (tp_workers tp)" using i len by simp
  show ?thesis
  proof (cases "w_hold w")
    case (Cons x xs)
    then have "wq_ok closing ?pol n b (w\<lparr>w_hold := xs\<rparr>) (qs ! i)" using W by (simp add: wq_ok_def asleep_def)
    then have "step_ok closing n b i tp qs (set_worker i (w\<lparr>w_hold := xs\<rparr>) (tp\<lparr>tp_executed := tp_executed tp @ [x]\<rparr>))"
      using Cons w_def by (intro step_ok_local [OF qs i len(1) qi]) simp_all
    then show ?thesis using Cons il by (simp add: worker_step_def w_def [symmetric])
  next
    case Nil
    note S = qs i len(1) w_def Nil
    have pc: "step_ok closing n b i tp qs (set_worker i w' tp)"
      if "wq_ok closing ?pol n b w' (qs ! i)" "w_hold w' = []" for w'
      using that Nil w_def by (intro step_ok_pc [OF qs i len(1) qi]) simp_all
    have cnd: "q_waiting (qs ! i) + q_woken (qs ! i) = of_bool (asleep w)" using W by (simp add: wq_ok_def)
    note ws = worker_step_def w_def [symmetric] il Nil
    show ?thesis
    proof (cases "w_pc w")
      case WStart
      have "wq_ok closing ?pol n b (w\<lparr>w_pc := (if others i tp = [] then WOnly else WLoop)\<rparr>) (qs ! i)"
        using others_empty [of i tp] i n WStart Nil
        by (intro wq_ok_local [OF W]) (simp_all add: pc_defs split: if_splits)
      with pc Nil WStart show ?thesis by (simp add: ws)
    next
      case WOnly
      have n1: "n = 1" using W WOnly by (simp add: wq_ok_def)
      have "w\<lparr>w_pc := WOnly\<rparr> = w" using WOnly by (cases w) simp
      with wait_step_alone [OF S n1, of "qs ! i" "own_wait w"] wb W cnd WOnly show ?thesis
        by (simp add: ws own_wait_eq asleep_def)
    next
      case WOnlySleep
      then have n1: "n = 1" and as: "asleep w" using W by (simp_all add: wq_ok_def asleep_def)
      have "0 < q_woken (qs ! i)" using run as by (simp add: w_def)
      from wq_ok_resumed [OF W as this Nil, of WOnly] wait_step_alone [OF S n1, of "resumed (qs ! i)" "\<lambda>q. own_wait w (resumed q)"] wb n1
        WOnlySleep show ?thesis by (simp add: ws own_wait_eq)
    next
      case WLoop
      have n1: "n \<noteq> 1" using W WLoop by (simp add: wq_ok_def)
      have "\<exists>tp'. Option.bind (on_queue i (own_pop w) tp) (\<lambda>(xs, tp'). after_pop i w WLoop (WSteal 0) (xs, tp')) = Some tp' \<and>
          step_ok closing n b i tp qs tp'"
      proof (rule worker_pop_step [OF qs i i len(1) w_def Nil qi wb Nil])
        fix xs q'
        assume "queue_inv q'" "same_cond (qs ! i) q'" "queue_items (qs ! i) = xs @ queue_items q'"
        then have "wq_ok closing ?pol n b (w\<lparr>w_hold := xs, w_pc := (if xs = [] then WSteal 0 else WLoop)\<rparr>) q'"
          using n1 cnd WLoop by (intro wq_ok_take [OF W]) (simp_all add: pc_defs split: if_splits)
        then show "wq_ok closing ?pol n b (w\<lparr>w_hold := xs, w_pc := (if xs = [] then WSteal 0 else WLoop)\<rparr>)
            (if i = i then q' else qs ! i)" by (simp only: if_True simp_thms)
      qed simp
      with WLoop show ?thesis by (simp add: ws)
    next
      case (WSteal k)
      then have n1: "n \<noteq> 1" using W by (auto simp: wq_ok_def)
      let ?t = "length (others i tp)" and ?now = "(w_index w + k) mod length (others i tp)"
      have pck: "wq_ok closing ?pol n b (w\<lparr>w_pc := pc'\<rparr>) (qs ! i)" if "pc' = WWait \<or> pc' = WSteal (Suc k)" for pc'
        using that n1 Nil WSteal by (intro wq_ok_local [OF W]) (auto simp: pc_defs)
      consider "\<not> k < ?t" | "k < ?t" "\<not> threshold w ?t (qs ! i) \<le> seen" | "k < ?t" "threshold w ?t (qs ! i) \<le> seen"
        by blast
      then show ?thesis
      proof cases
        case 1
        with pc [OF pck [of WWait]] Nil WSteal qs show ?thesis by (simp add: ws)
      next
        case 2
        with pc [OF pck [of "WSteal (Suc k)"]] Nil WSteal qs show ?thesis by (simp add: ws Let_def)
      next
        case 3
        let ?j = "others i tp ! ?now"
        have "0 < ?t" using 3(1) by linarith
        then have j: "?j < n" "?j \<noteq> i" using others_nth [of ?now i tp] n by simp_all
        have qj: "queue_inv (qs ! ?j)" using ok [OF j(1)] by (simp add: wq_ok_def)
        have "\<exists>tp'. Option.bind (on_queue ?j (own_pop w) tp)
            (\<lambda>(xs, tp'). after_pop i (if xs = [] then w else w\<lparr>w_index := ?now\<rparr>) WLoop (WSteal (Suc k)) (xs, tp')) = Some tp' \<and>
            step_ok closing n b i tp qs tp'"
        proof (rule worker_pop_step [OF qs i j(1) len(1) w_def Nil qj wb Nil])
          fix xs q'
          show "wq_ok closing ?pol n b ((if xs = [] then w else w\<lparr>w_index := ?now\<rparr>)
              \<lparr>w_hold := xs, w_pc := (if xs = [] then WSteal (Suc k) else WLoop)\<rparr>) (if ?j = i then q' else qs ! i)"
            using j(2) n1 WSteal W by (simp add: wq_ok_def pc_defs)
        qed simp
        with 3 WSteal qs show ?thesis by (simp add: ws Let_def)
      qed
    next
      case WWait
      have n1: "n \<noteq> 1" using W WWait by (auto simp: wq_ok_def)
      have "w\<lparr>w_pc := WWait\<rparr> = w" using WWait by (cases w) simp
      with wait_step_timed [OF S n1, of "qs ! i" "own_wait_for False w" False] wb W cnd WWait show ?thesis
        by (simp add: ws asleep_def)
    next
      case WSleep
      then have n1: "n \<noteq> 1" and as: "asleep w" using W by (auto simp: wq_ok_def asleep_def)
      have "0 < q_woken (qs ! i)" using run as by (simp add: w_def)
      from wq_ok_resumed [OF W as this Nil, of WWait]
        wait_step_timed [OF S n1, of "resumed (qs ! i)" "\<lambda>q. own_wait_for expired w (resumed q)" expired] wb n1
        WSleep show ?thesis by (simp add: ws)
    next
      case WCheck
      then have n1: "n \<noteq> 1" using W by (auto simp: wq_ok_def)
      let ?w = "w\<lparr>w_pc := (if q_isStopped (qs ! i) then if w_batch w = 1 then WDone else WDrain else WLoop)\<rparr>"
      have "wq_ok closing ?pol n b ?w (qs ! i)"
        using n1 Nil WCheck W by (intro wq_ok_local [OF W]) (auto simp: pc_defs drains_def wq_ok_def split: if_splits)
      moreover have "on_queue i (\<lambda>q. Some (q_isStopped q, q)) tp = Some (q_isStopped (qs ! i), tp)"
        using qs i len(1) tp_queues_id [OF qs] by (simp add: on_queue_def)
      ultimately show ?thesis using pc [of ?w] Nil WCheck by (simp add: ws)
    next
      case WDrain
      then have stp: "q_isStopped (qs ! i)" using W by (simp add: wq_ok_def pc_ending_def)
      show ?thesis
      proof (cases ?pol)
        case True
        have "\<exists>tp'. Option.bind (on_queue i (own_pop w) tp) (\<lambda>(xs, tp'). after_pop i w WDrain WDone (xs, tp')) = Some tp' \<and>
            step_ok closing n b i tp qs tp'"
        proof (rule worker_pop_step [OF qs i i len(1) w_def Nil qi wb Nil])
          fix xs q'
          assume "queue_inv q'" "same_cond (qs ! i) q'" "queue_items (qs ! i) = xs @ queue_items q'"
            "xs = [] \<longrightarrow> queue_items (qs ! i) = []"
          then have "wq_ok closing ?pol n b (w\<lparr>w_hold := xs, w_pc := (if xs = [] then WDone else WDrain)\<rparr>) q'"
            using stp cnd WDrain by (intro wq_ok_take [OF W]) (simp_all add: pc_defs split: if_splits)
          then show "wq_ok closing ?pol n b (w\<lparr>w_hold := xs, w_pc := (if xs = [] then WDone else WDrain)\<rparr>)
              (if i = i then q' else qs ! i)" by (simp only: if_True simp_thms)
        qed simp
        with WDrain True show ?thesis by (simp add: ws)
      next
        case False
        have "wq_ok closing ?pol n b (w\<lparr>w_pc := WDone\<rparr>) (qs ! i)"
          using False stp Nil WDrain by (intro wq_ok_local [OF W]) (simp_all add: pc_defs split: if_splits)
        with pc Nil WDrain False show ?thesis by (simp add: ws)
      qed
    next
      case WDone
      have "set_worker i w tp = tp" using il w_def by (simp add: set_worker_def)
      with pc [OF W Nil] WDone show ?thesis by (simp add: ws)
    qed
  qed
qed

section \<open>Submission keeps the invariant\<close>

text \<open>
  The three submission operations: some queue of the pool gets the accepted tasks appended,
  and the round-robin counter moves.
\<close>

definition offered :: "'a ThreadPool \<Rightarrow> 'a TPBlockQueue list \<Rightarrow> 'a list \<Rightarrow> 'a ThreadPool \<Rightarrow> bool" where
  "offered tp qs xs tp' \<longleftrightarrow> (\<exists>j q' idx. j < length qs \<and>
     tp' = tp\<lparr>tp_index := idx, tp_queues := Some (qs[j := q'])\<rparr> \<and> queue_inv q' \<and>
     queue_cap q' = queue_cap (qs ! j) \<and> queue_items q' = queue_items (qs ! j) @ xs \<and>
     q_isStopped q' = q_isStopped (qs ! j) \<and> q_waiting q' + q_woken q' = q_waiting (qs ! j) + q_woken (qs ! j))"

lemma notify_cond: "q_isStopped (notify_one q) = q_isStopped q" "q_isStopped (notify_all q) = q_isStopped q"
  "q_waiting (notify_one q) + q_woken (notify_one q) = q_waiting q + q_woken q"
  "q_waiting (notify_all q) + q_woken (notify_all q) = q_waiting q + q_woken q"
  by (simp_all add: notify_one_def notify_all_def)

lemma queue_push_ok:
  assumes "queue_inv q"
  shows "\<exists>q'. queue_push x q = Some (length (queue_items q) < queue_cap q, q') \<and> queue_inv q' \<and> queue_cap q' = queue_cap q \<and>
    queue_items q' = queue_items q @ (if length (queue_items q) < queue_cap q then [x] else []) \<and>
    q_isStopped q' = q_isStopped q \<and> q_waiting q' + q_woken q' = q_waiting q + q_woken q"
proof -
  obtain q1 where q1: "push_locked x q = Some (length (queue_items q) < queue_cap q, q1)" "queue_inv q1" "same_cond q q1"
    "queue_cap q1 = queue_cap q"
    "queue_items q1 = (if length (queue_items q) < queue_cap q then queue_items q @ [x] else queue_items q)"
    using push_locked_ok [OF assms, of x] by blast
  then show ?thesis by (auto simp: queue_push_def notify_cond same_cond_def)
qed

lemma queue_emplace_eq: "queue_emplace x q = queue_push x q"
  by (simp add: queue_emplace_def queue_push_def)

lemma queue_pushBulk_cond:
  assumes inv: "queue_inv q" and n: "n = min (unat cnt) (queue_cap q - length (queue_items q))" "n \<le> length xs"
  shows "\<exists>q'. queue_pushBulk xs cnt q = Some (of_nat n, q') \<and> queue_inv q' \<and> queue_cap q' = queue_cap q \<and>
    queue_items q' = queue_items q @ take n xs \<and>
    q_isStopped q' = q_isStopped q \<and> q_waiting q' + q_woken q' = q_waiting q + q_woken q"
proof (cases "cnt = 0")
  case True
  with assms show ?thesis by (simp add: queue_pushBulk_def)
next
  case False
  from pushBulk_locked_ok [OF inv n] obtain q1 where q1: "pushBulk_locked xs cnt q = Some (of_nat n, q1)"
    "queue_inv q1" "same_cond q q1" "queue_cap q1 = queue_cap q" "queue_items q1 = queue_items q @ take n xs" by blast
  with False show ?thesis by (auto simp: queue_pushBulk_def notify_cond same_cond_def)
qed

lemma index_bounds:
  assumes "tp_threadNum tp \<noteq> 0"
  shows "unat (x mod tp_threadNum tp) < unat (tp_threadNum tp)" "half_index x tp < unat (tp_threadNum tp)"
  using assms by (simp_all add: half_index_def unat_mod u32_eq_0_iff)

lemma next_index_ok:
  assumes "tp_inv closing n b len sub tp"
  shows "\<exists>idx. next_index tp = Some (idx, tp\<lparr>tp_index := tp_index tp + 1\<rparr>) \<and> unat idx < n \<and>
    (\<forall>y. half_index y (tp\<lparr>tp_index := tp_index tp + 1\<rparr>) < n)"
proof -
  from assms have t: "tp_threadNum tp \<noteq> 0" "n = unat (tp_threadNum tp)" by (auto simp: tp_inv_def)
  with index_bounds [OF t(1)] index_bounds(2) [of "tp\<lparr>tp_index := tp_index tp + 1\<rparr>"] show ?thesis
    by (simp add: next_index_def)
qed

lemma submit_ok:
  assumes inv: "tp_inv closing n b len sub tp" and qs: "tp_queues tp = Some qs" and j: "j < n"
    and f: "\<exists>q'. f (qs ! j) = Some (r, q') \<and> queue_inv q' \<and> queue_cap q' = queue_cap (qs ! j) \<and>
      queue_items q' = queue_items (qs ! j) @ xs \<and> q_isStopped q' = q_isStopped (qs ! j) \<and>
      q_waiting q' + q_woken q' = q_waiting (qs ! j) + q_woken (qs ! j)"
  shows "\<exists>tp'. on_queue j f (tp\<lparr>tp_index := idx\<rparr>) = Some (r, tp') \<and> offered tp qs xs tp'"
proof -
  have l: "j < length qs" using inv qs j by (auto simp: tp_inv_def)
  from f obtain q' where q': "f (qs ! j) = Some (r, q')" "queue_inv q'" "queue_cap q' = queue_cap (qs ! j)"
    "queue_items q' = queue_items (qs ! j) @ xs" "q_isStopped q' = q_isStopped (qs ! j)"
    "q_waiting q' + q_woken q' = q_waiting (qs ! j) + q_woken (qs ! j)" by blast
  have "on_queue j f (tp\<lparr>tp_index := idx\<rparr>) = Some (r, tp\<lparr>tp_index := idx, tp_queues := Some (qs[j := q'])\<rparr>)"
    using qs l q'(1) by (simp add: on_queue_def)
  with q' l show ?thesis unfolding offered_def by blast
qed

lemma offered_inv:
  assumes inv: "tp_inv closing n b len sub tp" and qs: "tp_queues tp = Some qs" and o: "offered tp qs xs tp'"
    and cl: "closing \<Longrightarrow> xs = []"
  shows "tp_inv closing n b len (sub @ xs) tp'"
proof -
  from o obtain j q' idx where O: "j < length qs" "tp' = tp\<lparr>tp_index := idx, tp_queues := Some (qs[j := q'])\<rparr>"
    "queue_inv q'" "queue_cap q' = queue_cap (qs ! j)" "queue_items q' = queue_items (qs ! j) @ xs"
    "q_isStopped q' = q_isStopped (qs ! j)" "q_waiting q' + q_woken q' = q_waiting (qs ! j) + q_woken (qs ! j)"
    by (auto simp: offered_def)
  from inv qs have I: "length qs = n"
    "\<And>k. k < n \<Longrightarrow> wq_ok closing (tp_shutdownPolicy tp) n b (tp_workers tp ! k) (qs ! k) \<and> queue_cap (qs ! k) = unat len"
    "mset sub = mset (tp_executed tp) + mset (concat (map w_hold (tp_workers tp))) + mset (concat (map queue_items qs))"
    by (auto simp: tp_inv_def)
  have "wq_ok closing (tp_shutdownPolicy tp) n b (tp_workers tp ! k) (qs[j := q'] ! k) \<and> queue_cap (qs[j := q'] ! k) = unat len"
    if "k < n" for k
    using I(2) [OF that] O cl that I(1) by (cases "k = j") (auto simp: wq_ok_def pc_ending_def)
  moreover have "mset (concat (map queue_items (qs[j := q']))) + mset (queue_items (qs ! j)) =
      mset (concat (map queue_items qs)) + mset (queue_items q')" by (rule mset_concat_update [OF O(1)])
  then have "mset (concat (map queue_items (qs[j := q']))) = mset (concat (map queue_items qs)) + mset xs"
    using O(5) by simp
  ultimately show ?thesis using inv qs I(3) unfolding tp_inv_def O(2)
    by (intro exI [of _ "qs[j := q']"]) (auto simp: O(2))
qed

lemma tp_append_ok:
  assumes inv: "tp_inv closing n b len sub tp" and qs: "tp_queues tp = Some qs"
  shows "\<exists>ok tp'. tp_append seen x tp = Some (ok, tp') \<and> tp_emplace seen x tp = Some (ok, tp') \<and>
    offered tp qs (if ok then [x] else []) tp'"
proof -
  obtain idx where I: "next_index tp = Some (idx, tp\<lparr>tp_index := tp_index tp + 1\<rparr>)" "unat idx < n"
    "half_index idx (tp\<lparr>tp_index := tp_index tp + 1\<rparr>) < n" using next_index_ok [OF inv] by blast
  let ?tp = "tp\<lparr>tp_index := tp_index tp + 1\<rparr>"
  have qi: "queue_inv (qs ! k)" if "k < n" for k using inv qs that by (auto simp: tp_inv_def wq_ok_def)
  let ?k = "if seen < tp_queueLength ?tp then unat idx else half_index idx ?tp"
  have k: "?k < n" using I(2,3) by simp
  let ?ok = "length (queue_items (qs ! ?k)) < queue_cap (qs ! ?k)"
  have "\<exists>tp'. on_queue ?k (queue_push x) ?tp = Some (?ok, tp') \<and> offered tp qs (if ?ok then [x] else []) tp'"
    by (rule submit_ok [where f = "queue_push x", OF inv qs k queue_push_ok [OF qi [OF k]]])
  then obtain tp' where tp': "on_queue ?k (queue_push x) ?tp = Some (?ok, tp')"
    "offered tp qs (if ?ok then [x] else []) tp'" by blast
  have "tp_append seen x tp = on_queue ?k (queue_push x) ?tp" by (simp add: tp_append_def I(1))
  with tp'(1) have "tp_append seen x tp = Some (?ok, tp')" by (simp only:)
  moreover have "queue_emplace x = queue_push x" by (rule ext) (rule queue_emplace_eq)
  then have "tp_emplace seen x tp = tp_append seen x tp" by (simp only: tp_emplace_def tp_append_def)
  ultimately show ?thesis using tp'(2) by metis
qed

lemma tp_append_bulk_ok:
  assumes inv: "tp_inv closing n b len sub tp" and qs: "tp_queues tp = Some qs"
    and c: "cnt \<le> tp_queueLength tp" "unat cnt \<le> length xs"
  shows "\<exists>m tp'. tp_append_bulk seen xs cnt tp = Some (of_nat m, tp') \<and> m \<le> unat cnt \<and> offered tp qs (take m xs) tp'"
proof -
  obtain idx where I: "next_index tp = Some (idx, tp\<lparr>tp_index := tp_index tp + 1\<rparr>)" "unat idx < n"
    "half_index idx (tp\<lparr>tp_index := tp_index tp + 1\<rparr>) < n" using next_index_ok [OF inv] by blast
  let ?tp = "tp\<lparr>tp_index := tp_index tp + 1\<rparr>"
  have qi: "queue_inv (qs ! k)" if "k < n" for k using inv qs that by (auto simp: tp_inv_def wq_ok_def)
  let ?k = "if seen + cnt div 2 \<le> tp_queueLength ?tp then unat idx else half_index idx ?tp"
  have k: "?k < n" using I(2,3) by simp
  let ?m = "min (unat cnt) (queue_cap (qs ! ?k) - length (queue_items (qs ! ?k)))"
  have m: "?m \<le> length xs" using c(2) by simp
  have "\<exists>tp'. on_queue ?k (queue_pushBulk xs cnt) ?tp = Some (of_nat ?m, tp') \<and> offered tp qs (take ?m xs) tp'"
    by (rule submit_ok [where f = "queue_pushBulk xs cnt", OF inv qs k queue_pushBulk_cond [OF qi [OF k] refl m]])
  then obtain tp' where tp': "on_queue ?k (queue_pushBulk xs cnt) ?tp = Some (of_nat ?m, tp')"
    "offered tp qs (take ?m xs) tp'" by blast
  have "tp_append_bulk seen xs cnt tp = on_queue ?k (queue_pushBulk xs cnt) ?tp"
    using c(1) by (simp add: tp_append_bulk_def I(1) leD)
  with tp' show ?thesis by (intro exI [of _ ?m] exI [of _ tp']) simp
qed

section \<open>The running pool\<close>

text \<open>
  Submitters, workers and the thread that calls \<open>exit\<close> run concurrently. The program promises
  not to submit after it has called \<open>exit\<close>; everything else interleaves. A worker that sleeps
  runs again when it has been woken; \<open>wake\<close> is a spurious wake-up or the end of a timeout.
\<close>

record 'a tpsys =
  t_pool :: "'a ThreadPool"
  t_submitted :: "'a list"
  t_closing :: bool

definition queue_at :: "'a ThreadPool \<Rightarrow> nat \<Rightarrow> 'a TPBlockQueue" where
  "queue_at tp i = the (tp_queues tp) ! i"

definition runnable :: "nat \<Rightarrow> 'a ThreadPool \<Rightarrow> bool" where
  "runnable i tp \<longleftrightarrow> i < length (tp_workers tp) \<and> (asleep (tp_workers tp ! i) \<longrightarrow> 0 < q_woken (queue_at tp i))"

inductive tpstep :: "'a tpsys \<Rightarrow> 'a tpsys \<Rightarrow> bool" where
  append: "\<not> t_closing s \<Longrightarrow> tp_append seen x (t_pool s) = Some (ok, tp') \<Longrightarrow>
    tpstep s (s\<lparr>t_pool := tp', t_submitted := t_submitted s @ (if ok then [x] else [])\<rparr>)"
| emplace: "\<not> t_closing s \<Longrightarrow> tp_emplace seen x (t_pool s) = Some (ok, tp') \<Longrightarrow>
    tpstep s (s\<lparr>t_pool := tp', t_submitted := t_submitted s @ (if ok then [x] else [])\<rparr>)"
| append_bulk: "\<not> t_closing s \<Longrightarrow> unat cnt \<le> length xs \<Longrightarrow> tp_append_bulk seen xs cnt (t_pool s) = Some (m, tp') \<Longrightarrow>
    tpstep s (s\<lparr>t_pool := tp', t_submitted := t_submitted s @ take (unat m) xs\<rparr>)"
| work: "runnable i (t_pool s) \<Longrightarrow> worker_step seen expired i (t_pool s) = Some tp' \<Longrightarrow> tpstep s (s\<lparr>t_pool := tp'\<rparr>)"
| wake: "on_queue i (\<lambda>q. Some ((), notify_one q)) (t_pool s) = Some (u, tp') \<Longrightarrow> tpstep s (s\<lparr>t_pool := tp'\<rparr>)"
| close: "\<not> t_closing s \<Longrightarrow> tpstep s (s\<lparr>t_pool := exit_policy policy (t_pool s), t_closing := True\<rparr>)"
| stop: "t_closing s \<Longrightarrow> exit_stop i (t_pool s) = Some tp' \<Longrightarrow> tpstep s (s\<lparr>t_pool := tp'\<rparr>)"

definition sys_inv :: "nat \<Rightarrow> u32 \<Rightarrow> u32 \<Rightarrow> 'a tpsys \<Rightarrow> bool" where
  "sys_inv n b len s \<longleftrightarrow> tp_inv (t_closing s) n b len (t_submitted s) (t_pool s)"

text \<open>A change of one queue that concerns only its condition variable and its stop flag.\<close>

lemma cond_change_inv:
  assumes inv: "tp_inv closing n b len sub tp" and qs: "tp_queues tp = Some qs" and j: "j < length qs"
    and q': "queue_inv q' = queue_inv (qs ! j)" "queue_items q' = queue_items (qs ! j)" "queue_cap q' = queue_cap (qs ! j)"
      "q_waiting q' + q_woken q' = q_waiting (qs ! j) + q_woken (qs ! j)"
      "q_isStopped q' = q_isStopped (qs ! j) \<or> q_isStopped q' \<and> closing"
  shows "tp_inv closing n b len sub (tp\<lparr>tp_queues := Some (qs[j := q'])\<rparr>)"
proof -
  from inv qs have I: "length qs = n"
    "\<And>k. k < n \<Longrightarrow> wq_ok closing (tp_shutdownPolicy tp) n b (tp_workers tp ! k) (qs ! k) \<and> queue_cap (qs ! k) = unat len"
    by (auto simp: tp_inv_def)
  have "wq_ok closing (tp_shutdownPolicy tp) n b (tp_workers tp ! k) (qs[j := q'] ! k) \<and> queue_cap (qs[j := q'] ! k) = unat len"
    if "k < n" for k
    using I(2) [OF that] q' that I(1) by (cases "k = j") (auto simp: wq_ok_def)
  moreover have "map queue_items (qs[j := q']) = map queue_items qs"
    using j q'(2) by (simp add: map_update list_update_same_conv)
  ultimately show ?thesis using inv qs unfolding tp_inv_def by (intro exI [of _ "qs[j := q']"]) auto
qed

lemma stopWait_simps [simp]: "queue_inv (queue_stopWait q) = queue_inv q" "queue_items (queue_stopWait q) = queue_items q"
  "queue_cap (queue_stopWait q) = queue_cap q" "q_isStopped (queue_stopWait q)"
  "q_waiting (queue_stopWait q) = 0" "q_woken (queue_stopWait q) = q_woken q + q_waiting q"
  by (simp_all add: queue_stopWait_def) (simp_all add: notify_all_def stop_locked_def)

lemma on_queue_some:
  assumes "on_queue j f tp = Some (r, tp')"
  shows "\<exists>qs q'. tp_queues tp = Some qs \<and> j < length qs \<and> f (qs ! j) = Some (r, q') \<and>
    tp' = tp\<lparr>tp_queues := Some (qs[j := q'])\<rparr>"
  using assms by (auto simp: on_queue_def split: option.splits if_splits Option.bind_splits)

lemma close_inv:
  assumes "tp_inv False n b len sub tp"
  shows "tp_inv True n b len sub (exit_policy policy tp)"
proof -
  have "wq_ok True policy n b w q" if "wq_ok False pol n b w q" for w :: "'a worker" and q pol
    using that by (auto simp: wq_ok_def pc_ending_def)
  moreover from assms obtain qs where "tp_queues tp = Some qs" by (auto simp: tp_inv_def)
  ultimately show ?thesis using assms unfolding tp_inv_def exit_policy_def by (intro exI [of _ qs]) fastforce
qed

lemma tpstep_inv:
  assumes "tpstep s s'" "sys_inv n b len s"
  shows "sys_inv n b len s'"
  using assms
proof (induction rule: tpstep.induct)
  case (append s seen x ok tp')
  then have inv: "tp_inv False n b len (t_submitted s) (t_pool s)" by (simp add: sys_inv_def)
  then obtain qs where qs: "tp_queues (t_pool s) = Some qs" by (auto simp: tp_inv_def)
  from tp_append_ok [OF inv qs, of seen x] append(2) have "offered (t_pool s) qs (if ok then [x] else []) tp'" by auto
  from offered_inv [OF inv qs this] append(1) show ?case by (simp add: sys_inv_def)
next
  case (emplace s seen x ok tp')
  then have inv: "tp_inv False n b len (t_submitted s) (t_pool s)" by (simp add: sys_inv_def)
  then obtain qs where qs: "tp_queues (t_pool s) = Some qs" by (auto simp: tp_inv_def)
  from tp_append_ok [OF inv qs, of seen x] emplace(2) have "offered (t_pool s) qs (if ok then [x] else []) tp'" by auto
  from offered_inv [OF inv qs this] emplace(1) show ?case by (simp add: sys_inv_def)
next
  case (append_bulk s cnt xs seen m tp')
  then have inv: "tp_inv False n b len (t_submitted s) (t_pool s)" by (simp add: sys_inv_def)
  then obtain qs where qs: "tp_queues (t_pool s) = Some qs" by (auto simp: tp_inv_def)
  have le: "cnt \<le> tp_queueLength (t_pool s)" using append_bulk(3) by (auto simp: tp_append_bulk_def split: if_splits)
  from tp_append_bulk_ok [OF inv qs le append_bulk(2), of seen] append_bulk(3) obtain k where
    k: "m = of_nat k" "k \<le> unat cnt" "offered (t_pool s) qs (take k xs) tp'" by auto
  have "unat m = k" unfolding k(1) using k(2) by (intro unat_of_nat_u32 le_unat_u32)
  with offered_inv [OF inv qs k(3)] append_bulk(1) show ?case by (simp add: sys_inv_def)
next
  case (work i s seen expired tp')
  then have inv: "tp_inv (t_closing s) n b len (t_submitted s) (t_pool s)" by (simp add: sys_inv_def)
  then obtain qs where qs: "tp_queues (t_pool s) = Some qs" by (auto simp: tp_inv_def)
  have i: "i < n" and r: "asleep (tp_workers (t_pool s) ! i) \<longrightarrow> 0 < q_woken (qs ! i)"
    using work(1) inv qs by (auto simp: runnable_def queue_at_def tp_inv_def)
  from worker_step_ok [OF inv i qs r [rule_format], of seen expired] work(2)
  have "step_ok (t_closing s) n b i (t_pool s) qs tp'" by simp
  with moved_inv [OF inv qs i] show ?case by (auto simp: step_ok_def sys_inv_def)
next
  case (wake i s u tp')
  from on_queue_some [OF wake(1)] obtain qs where "tp_queues (t_pool s) = Some qs" "i < length qs"
    "tp' = t_pool s\<lparr>tp_queues := Some (qs[i := notify_one (qs ! i)])\<rparr>" by auto
  with wake(2) show ?case unfolding sys_inv_def by (auto intro!: cond_change_inv simp: notify_cond)
next
  case (close s policy)
  with close_inv show ?case by (simp add: sys_inv_def)
next
  case (stop s i tp')
  from stop(2) obtain u where "on_queue i (\<lambda>q. Some ((), queue_stopWait q)) (t_pool s) = Some (u, tp')"
    by (auto simp: exit_stop_def)
  from on_queue_some [OF this] obtain qs where "tp_queues (t_pool s) = Some qs" "i < length qs"
    "tp' = t_pool s\<lparr>tp_queues := Some (qs[i := queue_stopWait (qs ! i)])\<rparr>" by auto
  with stop(1,3) show ?case unfolding sys_inv_def by (auto intro!: cond_change_inv)
qed

lemma tpsteps_inv: "tpstep\<^sup>*\<^sup>* s s' \<Longrightarrow> sys_inv n b len s \<Longrightarrow> sys_inv n b len s'"
  by (induction rule: rtranclp_induct) (auto intro: tpstep_inv)

section \<open>Initialisation and deletion\<close>

lemma init_queues_ok:
  assumes "len \<noteq> 0" "0 < nsz" "nsz * unat len + 63 < 2 ^ 32"
  shows "\<exists>r. init_queues amal nsz len i n = Some r \<and>
    (\<forall>qs. r = Some qs \<longrightarrow> length qs = n \<and> (\<forall>q \<in> set qs. queue_inv q \<and> queue_items q = [] \<and> queue_cap q = unat len \<and>
      same_cond (queue_new :: 'a TPBlockQueue) q))"
proof (induction n arbitrary: i)
  case 0
  then show ?case by simp
next
  case (Suc n)
  have m: "q_memoryBlock (queue_new :: 'a TPBlockQueue) = null" by (simp add: queue_new_def)
  obtain ok q where q: "queue_init (amal i) nsz len (queue_new :: 'a TPBlockQueue) = Some (ok, q)"
    "if ok then queue_inv q \<and> queue_items q = [] \<and> queue_cap q = unat len \<and> same_cond queue_new q else q = queue_new"
    using queue_init_ok [OF m assms, of "amal i"] by blast
  from Suc.IH [of "Suc i"] obtain r where r: "init_queues amal nsz len (Suc i) n = Some r"
    "\<And>qs. r = Some qs \<Longrightarrow> length qs = n \<and> (\<forall>q \<in> set qs. queue_inv q \<and> queue_items q = [] \<and> queue_cap q = unat len \<and>
      same_cond (queue_new :: 'a TPBlockQueue) q)" by blast
  show ?case
  proof (cases ok)
    case True
    with q r show ?thesis by (cases r) auto
  next
    case False
    with q show ?thesis by simp
  qed
qed

definition fresh_pool :: "'a ThreadPool \<Rightarrow> 'a tpsys" where
  "fresh_pool tp = \<lparr>t_pool = tp, t_submitted = [], t_closing = False\<rparr>"

text \<open>The block of one queue fits in 32 bits and the batch size is valid.\<close>

definition pool_args :: "nat \<Rightarrow> u32 \<Rightarrow> bool" where
  "pool_args nsz len \<longleftrightarrow> 0 < nsz \<and> nsz * unat len + 63 < 2 ^ 32"

lemma concat_empty: "(\<And>x. x \<in> set xs \<Longrightarrow> f x = []) \<Longrightarrow> concat (map f xs) = []"
  by (induction xs) auto

lemma tp_init_inv:
  fixes tp :: "'a ThreadPool"
  assumes "tp_init new_ok amal nsz cores len threads batch (tp_new idx) = Some (True, tp)" "pool_args nsz len"
  shows "sys_inv (unat threads) batch len (fresh_pool tp)"
proof -
  from assms(1) have a: "batch \<noteq> 0" "threads \<noteq> 0" "\<not> batch > len"
    by (auto simp: tp_init_def split: if_splits)
  then have "len \<noteq> 0" by (auto simp: word_gt_0)
  from init_queues_ok [OF this, of nsz amal 0 "unat threads"] assms(2) obtain r where
    r: "init_queues amal nsz len 0 (unat threads) = Some (r :: 'a TPBlockQueue list option)"
    "\<And>qs. r = Some qs \<Longrightarrow> length qs = unat threads \<and> (\<forall>q \<in> set qs. queue_inv q \<and> queue_items q = [] \<and>
      queue_cap q = unat len \<and> same_cond queue_new q)" by (auto simp: pool_args_def)
  with assms(1) a obtain qs where qs: "r = Some qs" and tp: "tp = tp_new idx\<lparr>tp_queues := Some qs, tp_threadNum := threads,
      tp_queueLength := len, tp_workers := replicate (unat threads) (worker_new batch)\<rparr>"
    by (auto simp: tp_init_def tp_new_def split: if_splits option.splits)
  from r(2) [OF qs] have Q: "length qs = unat threads"
    "\<And>i. i < unat threads \<Longrightarrow> queue_inv (qs ! i) \<and> queue_items (qs ! i) = [] \<and> queue_cap (qs ! i) = unat len \<and> same_cond queue_new (qs ! i)"
    by auto
  have "wq_ok False True (unat threads) batch (worker_new batch) (qs ! i)" if "i < unat threads" for i
    using Q(2) [OF that] by (simp add: wq_ok_def worker_new_def pc_defs same_cond_def queue_new_def)
  moreover have "concat (map queue_items qs) = []" "concat (map w_hold (replicate (unat threads) (worker_new batch))) = []"
    using r(2) [OF qs] by (auto intro!: concat_empty simp: worker_new_def)
  ultimately show ?thesis
    unfolding sys_inv_def tp_inv_def fresh_pool_def tp using a Q u32_eq_0_iff [of threads]
    by (intro exI [of _ qs]) (simp add: tp_new_def)
qed

lemma release_queues_ok: "list_all queue_inv qs \<Longrightarrow> release_queues qs = Some (concat (map queue_items qs))"
  by (induction qs) (auto dest: queue_release_ok)

lemma exit_finish_ok:
  assumes inv: "tp_inv closing n b len sub tp" and j: "joined tp"
  shows "\<exists>tp'. exit_finish tp = Some tp' \<and> tp_queues tp' = None \<and> tp_workers tp' = [] \<and> tp_threadNum tp' = 0 \<and>
    tp_executed tp' = tp_executed tp \<and>
    (\<exists>xs. tp_dropped tp' = tp_dropped tp @ xs \<and> mset sub = mset (tp_executed tp) + mset xs \<and>
      (tp_shutdownPolicy tp \<and> drains n b \<longrightarrow> xs = []))"
proof -
  from inv obtain qs where qs: "tp_queues tp = Some qs" and I: "length qs = n" "length (tp_workers tp) = n"
    "\<And>k. k < n \<Longrightarrow> wq_ok closing (tp_shutdownPolicy tp) n b (tp_workers tp ! k) (qs ! k)"
    "mset sub = mset (tp_executed tp) + mset (concat (map w_hold (tp_workers tp))) + mset (concat (map queue_items qs))"
    by (auto simp: tp_inv_def)
  have "list_all queue_inv qs" using I by (auto simp: list_all_length wq_ok_def)
  from release_queues_ok [OF this] have r: "release_queues qs = Some (concat (map queue_items qs))" .
  have h: "concat (map w_hold (tp_workers tp)) = []" using j by (auto intro!: concat_empty simp: joined_def list_all_iff)
  have "concat (map queue_items qs) = []" if "tp_shutdownPolicy tp \<and> drains n b"
  proof (rule concat_empty)
    fix q assume "q \<in> set qs"
    then obtain k where k: "k < n" "q = qs ! k" using I(1) by (auto simp: in_set_conv_nth)
    have "w_pc (tp_workers tp ! k) = WDone" using j k(1) I(2) by (auto simp: joined_def list_all_length)
    with I(3) [OF k(1)] that k(2) show "queue_items q = []" by (simp add: wq_ok_def)
  qed
  with qs r h I(4) show ?thesis by (simp add: exit_finish_def)
qed

section \<open>Scripts\<close>

text \<open>Concrete interleavings, for examples.\<close>

datatype 'a tp_act = ActAppend u32 'a | ActWork u32 bool nat | ActWake nat | ActClose bool | ActStop nat

fun tp_do :: "'a tp_act \<Rightarrow> 'a tpsys \<Rightarrow> 'a tpsys option" where
  "tp_do (ActAppend seen x) s = (if t_closing s then None else do {
     (ok, tp') \<leftarrow> tp_append seen x (t_pool s);
     Some (s\<lparr>t_pool := tp', t_submitted := t_submitted s @ (if ok then [x] else [])\<rparr>) })"
| "tp_do (ActWork seen expired i) s = (if runnable i (t_pool s) then
     map_option (\<lambda>tp'. s\<lparr>t_pool := tp'\<rparr>) (worker_step seen expired i (t_pool s)) else None)"
| "tp_do (ActWake i) s = map_option (\<lambda>(u, tp'). s\<lparr>t_pool := tp'\<rparr>) (on_queue i (\<lambda>q. Some ((), notify_one q)) (t_pool s))"
| "tp_do (ActClose policy) s = (if t_closing s then None else
     Some (s\<lparr>t_pool := exit_policy policy (t_pool s), t_closing := True\<rparr>))"
| "tp_do (ActStop i) s = (if t_closing s then map_option (\<lambda>tp'. s\<lparr>t_pool := tp'\<rparr>) (exit_stop i (t_pool s)) else None)"

fun tp_script :: "'a tp_act list \<Rightarrow> 'a tpsys \<Rightarrow> 'a tpsys option" where
  "tp_script [] s = Some s"
| "tp_script (a # as) s = Option.bind (tp_do a s) (tp_script as)"

lemma tp_do_step: "tp_do a s = Some s' \<Longrightarrow> tpstep s s'"
  by (cases "(a, s)" rule: tp_do.cases)
    (auto intro: tpstep.intros split: if_splits Option.bind_splits)

lemma tp_script_steps: "tp_script as s = Some s' \<Longrightarrow> tpstep\<^sup>*\<^sup>* s s'"
  by (induction as arbitrary: s) (auto intro: converse_rtranclp_into_rtranclp tp_do_step split: Option.bind_splits)

section \<open>Properties\<close>

text \<open>A pool of two workers with queues of four tasks.\<close>

definition sample_pool :: "u32 \<Rightarrow> nat ThreadPool" where
  "sample_pool batch = snd (the (tp_init True (\<lambda>_ _. 64) 16 8 4 2 batch (tp_new 0)))"

lemma sample_pool_init: "tp_init True (\<lambda>_ _. 64) 16 8 4 2 1 (tp_new 0) = Some (True, sample_pool 1)"
  "tp_init True (\<lambda>_ _. 64) 16 8 4 2 2 (tp_new 0) = Some (True, sample_pool 2)" "pool_args 16 4"
proof -
  have *: "tp_init True (\<lambda>_ _. 64) 16 8 4 2 b (tp_new 0) = Some (True, sample_pool b)"
    if "map_option fst (tp_init True (\<lambda>_ _. 64) 16 8 4 2 b (tp_new 0 :: nat ThreadPool)) = Some True" for b
    using that by (auto simp: sample_pool_def)
  show "tp_init True (\<lambda>_ _. 64) 16 8 4 2 1 (tp_new 0) = Some (True, sample_pool 1)" by (rule *) code_simp
  show "tp_init True (\<lambda>_ _. 64) 16 8 4 2 2 (tp_new 0) = Some (True, sample_pool 2)" by (rule *) code_simp
  show "pool_args 16 4" by (simp add: pool_args_def)
qed

text \<open>
  C6. Tasks are neither lost nor duplicated while the pool runs. From a successful \<open>init\<close>,
  under every interleaving of submissions, workers, stealing, timeouts and \<open>exit\<close>: the accepted
  tasks are exactly the executed ones, those a worker has taken, and those stored in queues.
\<close>

theorem pool_tasks_conserved:
  assumes "tp_init new_ok amal nsz cores len threads batch (tp_new idx) = Some (True, tp)" "pool_args nsz len"
    and "tpstep\<^sup>*\<^sup>* (fresh_pool tp) s"
  shows "\<exists>qs. tp_queues (t_pool s) = Some qs \<and> mset (t_submitted s) = mset (tp_executed (t_pool s)) +
    mset (concat (map w_hold (tp_workers (t_pool s)))) + mset (concat (map queue_items qs))"
  using tpsteps_inv [OF assms(3) tp_init_inv [OF assms(1,2)]] by (auto simp: sys_inv_def tp_inv_def)

theorem pool_tasks_conserved_witness:
  "\<exists>qs. tp_queues (t_pool (fresh_pool (sample_pool 2))) = Some qs \<and>
    mset (t_submitted (fresh_pool (sample_pool 2))) = mset (tp_executed (t_pool (fresh_pool (sample_pool 2)))) +
    mset (concat (map w_hold (tp_workers (t_pool (fresh_pool (sample_pool 2)))))) + mset (concat (map queue_items qs))"
  by (rule pool_tasks_conserved [OF sample_pool_init(2,3) rtranclp.rtrancl_refl])



text \<open>
  C14. Graceful shutdown is complete for batch workers (batch size above one) and for a
  pool with a single worker: when \<open>exit(true)\<close> has joined all workers, deleting the queues
  destroys no task, and every task accepted before \<open>exit\<close> has been executed exactly once.
\<close>

theorem pool_graceful_exit:
  assumes "tp_init new_ok amal nsz cores len threads batch (tp_new idx) = Some (True, tp)" "pool_args nsz len"
    and "batch \<noteq> 1 \<or> unat threads = 1"
    and "tpstep\<^sup>*\<^sup>* (fresh_pool tp) s" "joined (t_pool s)" "tp_shutdownPolicy (t_pool s)"
  shows "\<exists>tp'. exit_finish (t_pool s) = Some tp' \<and> tp_queues tp' = None \<and> tp_workers tp' = [] \<and>
    tp_dropped tp' = tp_dropped (t_pool s) \<and> mset (tp_executed tp') = mset (t_submitted s)"
proof -
  have inv: "tp_inv (t_closing s) (unat threads) batch len (t_submitted s) (t_pool s)"
    using tpsteps_inv [OF assms(4) tp_init_inv [OF assms(1,2)]] by (simp add: sys_inv_def)
  from exit_finish_ok [OF inv assms(5)] assms(3,6) show ?thesis by (auto simp: drains_def)
qed

text \<open>Two tasks are submitted and executed, then the pool is closed gracefully.\<close>

definition good_script :: "nat tp_act list" where
  "good_script = [ActAppend 0 7, ActAppend 0 8, ActClose True, ActStop 0, ActStop 1] @
     concat (map (\<lambda>i. replicate 10 (ActWork 0 False i)) [0, 1])"

theorem pool_graceful_exit_witness:
  "\<exists>s tp'. tp_script good_script (fresh_pool (sample_pool 2)) = Some s \<and>
    exit_finish (t_pool s) = Some tp' \<and> tp_queues tp' = None \<and> tp_workers tp' = [] \<and>
    tp_dropped tp' = tp_dropped (t_pool s) \<and> mset (tp_executed tp') = mset (t_submitted s)"
proof -
  have "(case tp_script good_script (fresh_pool (sample_pool 2)) of None \<Rightarrow> False
      | Some s \<Rightarrow> joined (t_pool s) \<and> tp_shutdownPolicy (t_pool s))"
    unfolding good_script_def sample_pool_def by code_simp
  then obtain s where s: "tp_script good_script (fresh_pool (sample_pool 2)) = Some s"
    "joined (t_pool s)" "tp_shutdownPolicy (t_pool s)" by (auto split: option.splits)
  have "(2 :: u32) \<noteq> 1 \<or> unat (2 :: u32) = 1" by simp
  from pool_graceful_exit [OF sample_pool_init(2,3) this tp_script_steps [OF s(1)] s(2,3)] s(1) show ?thesis by blast
qed

text \<open>The interleaving in which a task is lost.\<close>

definition lost_script :: "nat tp_act list" where
  "lost_script = replicate 5 (ActWork 0 False 1) @ replicate 5 (ActWork 0 False 0) @
     [ActWake 0, ActWork 0 True 0, ActAppend 0 7, ActClose True, ActStop 0, ActStop 1, ActWork 0 False 0,
      ActWork 0 False 1, ActWork 0 False 1]"

text \<open>
  C36. Graceful shutdown is not complete for single-task workers in a pool of several: a worker
  whose timed wait ends just before a task is queued and the queue is stopped sees the stop
  flag, and \<open>return\<close> skips the draining loop. In this interleaving a task accepted before
  \<open>exit(true)\<close> is destroyed without being executed.
\<close>

theorem pool_single_loses_task:
  "\<exists>s tp'. tpstep\<^sup>*\<^sup>* (fresh_pool (sample_pool 1)) s \<and> t_submitted s = [7] \<and> tp_shutdownPolicy (t_pool s) \<and>
    joined (t_pool s) \<and> exit_finish (t_pool s) = Some tp' \<and> tp_executed tp' = [] \<and> tp_dropped tp' = [7]"
proof -
  have "(case tp_script lost_script (fresh_pool (sample_pool 1)) of None \<Rightarrow> False
      | Some s \<Rightarrow> t_submitted s = [7] \<and> tp_shutdownPolicy (t_pool s) \<and> joined (t_pool s) \<and>
        (case exit_finish (t_pool s) of None \<Rightarrow> False | Some tp' \<Rightarrow> tp_executed tp' = [] \<and> tp_dropped tp' = [7]))"
    unfolding lost_script_def sample_pool_def by code_simp
  then show ?thesis by (auto split: option.splits intro: tp_script_steps)
qed

end
