(* ===== verification/SP_Task.thy ===== *)
theory SP_Task
  imports SP_Types Thread_Pool
begin

text \<open>
  \<open>SPTask.hpp\<close>: the submission of connection tasks to the thread pool, one at a time
  (\<open>UtilTaskTcp_Single\<close>) or through a circular buffer of \<open>THREADPOOL_BATCH_SIZE_SUBMIT\<close> tasks
  (\<open>UtilTaskTcp_Multipe\<close>). A task that the pool refuses is given back with \<open>renableProc\<close>, which
  arms the events of its connection again.

  The operations of the pool and \<open>renableProc\<close> are arguments over a common state; the locale
  \<open>task_sink\<close> states what they promise, and the thread pool satisfies it.
\<close>

section \<open>Tasks\<close>

record SockTaskTcp =
  st_ctx :: addr
  st_proc :: addr

record UtilTaskTcp_Single =
  ts_flag :: bool

record UtilTaskTcp_Multipe =
  tm_flag :: bool
  tm_back :: u32
  tm_front :: u32
  tm_size :: u32
  tm_tasks :: "SockTaskTcp list option"

record UtilTaskTcp =
  ut_ts :: UtilTaskTcp_Single
  ut_tm :: UtilTaskTcp_Multipe

definition util_new :: UtilTaskTcp where
  "util_new = \<lparr>ut_ts = \<lparr>ts_flag = True\<rparr>,
     ut_tm = \<lparr>tm_flag = True, tm_back = 0, tm_front = 0, tm_size = 0, tm_tasks = None\<rparr>\<rparr>"

text \<open>\<open>SockTaskTcp::execute\<close> calls the stored procedure on the stored controller.\<close>

definition task_execute :: "(addr \<Rightarrow> addr \<Rightarrow> 's \<Rightarrow> 's) \<Rightarrow> SockTaskTcp \<Rightarrow> 's \<Rightarrow> 's" where
  "task_execute call t s = call (st_proc t) (st_ctx t) s"

section \<open>Single submission\<close>

definition single_append :: "(SockTaskTcp \<Rightarrow> 's \<Rightarrow> (bool \<times> 's) option) \<Rightarrow> (addr \<Rightarrow> 's \<Rightarrow> 's option) \<Rightarrow>
    addr \<Rightarrow> addr \<Rightarrow> UtilTaskTcp_Single \<Rightarrow> 's \<Rightarrow> (UtilTaskTcp_Single \<times> 's) option" where
  "single_append emplace renable ctx proc u s = do {
     s1 \<leftarrow> (if \<not> ts_flag u then renable ctx s else Some s);
     (ok, s2) \<leftarrow> emplace \<lparr>st_ctx = ctx, st_proc = proc\<rparr> s1;
     if \<not> ok then do {
       s3 \<leftarrow> renable ctx s2;
       Some (u\<lparr>ts_flag := False\<rparr>, s3)
     } else Some (u, s2)
   }"

section \<open>Batch submission\<close>

text \<open>The batch size as the \<open>unsigned int\<close> it is converted to.\<close>

definition batch_of :: "SPTcpConfig \<Rightarrow> u32" where
  "batch_of c = word_of_int (THREADPOOL_BATCH_SIZE_SUBMIT c)"

text \<open>The loop that gives the unsubmitted tasks back.\<close>

function renable_loop :: "(addr \<Rightarrow> 's \<Rightarrow> 's option) \<Rightarrow> u32 \<Rightarrow> SockTaskTcp list \<Rightarrow> u32 \<Rightarrow> nat \<Rightarrow> nat \<Rightarrow> 's \<Rightarrow> 's option" where
  "renable_loop renable B ts start i n s =
     (if i < n then
        let index = (start + of_nat i) mod B in
        if B \<noteq> 0 \<and> unat index < length ts
        then Option.bind (renable (st_ctx (ts ! unat index)) s) (renable_loop renable B ts start (Suc i) n)
        else None
      else Some s)"
  by pat_completeness auto
termination
  by (relation "measure (\<lambda>(renable, B, ts, start, i, n, s). n - i)") auto

declare renable_loop.simps [simp del]

text \<open>The length of the run that one call of \<open>commit\<close> submits.\<close>

definition tm_num :: "u32 \<Rightarrow> UtilTaskTcp_Multipe \<Rightarrow> u32" where
  "tm_num B u = (let distance = B - tm_back u in if distance > tm_size u then tm_size u else distance)"

text \<open>\<open>commit\<close> calls itself for the part of the buffer after the wrap-around.\<close>

partial_function (option) multi_commit ::
  "(SockTaskTcp \<Rightarrow> 's \<Rightarrow> (bool \<times> 's) option) \<Rightarrow> (SockTaskTcp list \<Rightarrow> u32 \<Rightarrow> 's \<Rightarrow> (u32 \<times> 's) option) \<Rightarrow>
   (addr \<Rightarrow> 's \<Rightarrow> 's option) \<Rightarrow> u32 \<Rightarrow> UtilTaskTcp_Multipe \<Rightarrow> 's \<Rightarrow> (UtilTaskTcp_Multipe \<times> 's) option" where
  "multi_commit app app_bulk renable B u s =
     (if tm_size u = 0 then Some (u, s)
      else case tm_tasks u of None \<Rightarrow> None
      | Some ts \<Rightarrow>
        let num = tm_num B u in Option.bind
          (if num = 1 then
             if unat (tm_back u) < length ts
             then map_option (\<lambda>(ok, s'). (if ok then 1 else 0, s')) (app (ts ! unat (tm_back u)) s)
             else None
           else app_bulk (drop (unat (tm_back u)) ts) num s)
          (\<lambda>(submitted, s1).
            if submitted \<noteq> num then
              map_option (\<lambda>s2. (u\<lparr>tm_back := tm_front u, tm_size := 0, tm_flag := False\<rparr>, s2))
                (renable_loop renable B ts (tm_back u + submitted) 0 (unat (num - submitted)) s1)
            else if B = 0 then None
            else let u1 = u\<lparr>tm_size := tm_size u - num, tm_back := (tm_back u + num) mod B\<rparr>
              in if tm_size u1 \<noteq> 0 then multi_commit app app_bulk renable B u1 s1 else Some (u1, s1)))"

declare multi_commit.simps [code]

definition multi_append ::
  "(SockTaskTcp \<Rightarrow> 's \<Rightarrow> (bool \<times> 's) option) \<Rightarrow> (SockTaskTcp list \<Rightarrow> u32 \<Rightarrow> 's \<Rightarrow> (u32 \<times> 's) option) \<Rightarrow>
   (addr \<Rightarrow> 's \<Rightarrow> 's option) \<Rightarrow> u32 \<Rightarrow> addr \<Rightarrow> addr \<Rightarrow> UtilTaskTcp_Multipe \<Rightarrow> 's \<Rightarrow> (UtilTaskTcp_Multipe \<times> 's) option" where
  "multi_append app app_bulk renable B ctx proc u s = do {
     s1 \<leftarrow> (if \<not> tm_flag u then renable ctx s else Some s);
     case tm_tasks u of None \<Rightarrow> None
     | Some ts \<Rightarrow>
       if unat (tm_front u) < length ts \<and> B \<noteq> 0 then
         let u1 = u\<lparr>tm_tasks := Some (ts[unat (tm_front u) := \<lparr>st_ctx = ctx, st_proc = proc\<rparr>]),
                    tm_front := (tm_front u + 1) mod B, tm_size := tm_size u + 1\<rparr>
         in if tm_size u1 = B then multi_commit app app_bulk renable B u1 s1 else Some (u1, s1)
       else None
   }"

section \<open>The unified interface\<close>

definition util_init :: "SPTcpConfig \<Rightarrow> bool \<Rightarrow> UtilTaskTcp \<Rightarrow> bool \<times> UtilTaskTcp" where
  "util_init c new_ok u =
     (if THREADPOOL_BATCH_SIZE_SUBMIT c = 1 then (True, u)
      else if new_ok then (True, u\<lparr>ut_tm := ut_tm u\<lparr>tm_tasks :=
        Some (replicate (nat (THREADPOOL_BATCH_SIZE_SUBMIT c)) \<lparr>st_ctx = null, st_proc = null\<rparr>)\<rparr>\<rparr>)
      else (False, u\<lparr>ut_tm := ut_tm u\<lparr>tm_tasks := None\<rparr>\<rparr>))"

definition util_append :: "SPTcpConfig \<Rightarrow> (SockTaskTcp \<Rightarrow> 's \<Rightarrow> (bool \<times> 's) option) \<Rightarrow>
   (SockTaskTcp \<Rightarrow> 's \<Rightarrow> (bool \<times> 's) option) \<Rightarrow> (SockTaskTcp list \<Rightarrow> u32 \<Rightarrow> 's \<Rightarrow> (u32 \<times> 's) option) \<Rightarrow>
   (addr \<Rightarrow> 's \<Rightarrow> 's option) \<Rightarrow> addr \<Rightarrow> addr \<Rightarrow> UtilTaskTcp \<Rightarrow> 's \<Rightarrow> (UtilTaskTcp \<times> 's) option" where
  "util_append c emplace app app_bulk renable ctx proc u s =
     (if THREADPOOL_BATCH_SIZE_SUBMIT c = 1
      then map_option (\<lambda>(v, s'). (u\<lparr>ut_ts := v\<rparr>, s')) (single_append emplace renable ctx proc (ut_ts u) s)
      else map_option (\<lambda>(v, s'). (u\<lparr>ut_tm := v\<rparr>, s'))
        (multi_append app app_bulk renable (batch_of c) ctx proc (ut_tm u) s))"

definition util_reset :: "SPTcpConfig \<Rightarrow> (SockTaskTcp \<Rightarrow> 's \<Rightarrow> (bool \<times> 's) option) \<Rightarrow>
   (SockTaskTcp list \<Rightarrow> u32 \<Rightarrow> 's \<Rightarrow> (u32 \<times> 's) option) \<Rightarrow> (addr \<Rightarrow> 's \<Rightarrow> 's option) \<Rightarrow>
   UtilTaskTcp \<Rightarrow> 's \<Rightarrow> (UtilTaskTcp \<times> 's) option" where
  "util_reset c app app_bulk renable u s =
     (if THREADPOOL_BATCH_SIZE_SUBMIT c = 1 then Some (u\<lparr>ut_ts := ut_ts u\<lparr>ts_flag := True\<rparr>\<rparr>, s)
      else map_option (\<lambda>(v, s'). (u\<lparr>ut_tm := v\<lparr>tm_flag := True\<rparr>\<rparr>, s'))
        (multi_commit app app_bulk renable (batch_of c) (ut_tm u) s))"

section \<open>The contract of the sink\<close>

text \<open>
  \<open>taken\<close> is the sequence of tasks the sink has accepted, \<open>given\<close> the sequence of connections
  whose events were armed again. Only the connections in \<open>live\<close> may be given back.
\<close>

locale task_sink =
  fixes ok :: "'s \<Rightarrow> bool"
    and live :: "addr set"
    and limit :: u32
    and taken :: "'s \<Rightarrow> SockTaskTcp list"
    and given :: "'s \<Rightarrow> addr list"
    and emplace :: "SockTaskTcp \<Rightarrow> 's \<Rightarrow> (bool \<times> 's) option"
    and app :: "SockTaskTcp \<Rightarrow> 's \<Rightarrow> (bool \<times> 's) option"
    and app_bulk :: "SockTaskTcp list \<Rightarrow> u32 \<Rightarrow> 's \<Rightarrow> (u32 \<times> 's) option"
    and renable :: "addr \<Rightarrow> 's \<Rightarrow> 's option"
  assumes emplace_law: "ok s \<Longrightarrow> \<exists>b s'. emplace t s = Some (b, s') \<and> ok s' \<and>
      taken s' = taken s @ (if b then [t] else []) \<and> given s' = given s"
    and append_law: "ok s \<Longrightarrow> \<exists>b s'. app t s = Some (b, s') \<and> ok s' \<and>
      taken s' = taken s @ (if b then [t] else []) \<and> given s' = given s"
    and bulk_law: "ok s \<Longrightarrow> cnt \<le> limit \<Longrightarrow> unat cnt \<le> length ts \<Longrightarrow>
      \<exists>m s'. app_bulk ts cnt s = Some (m, s') \<and> m \<le> cnt \<and> ok s' \<and>
        taken s' = taken s @ take (unat m) ts \<and> given s' = given s"
    and renable_law: "ok s \<Longrightarrow> x \<in> live \<Longrightarrow> \<exists>s'. renable x s = Some s' \<and> ok s' \<and> taken s' = taken s \<and> given s' = given s @ [x]"
begin

text \<open>A single submission: the connection is handed over, or its events are armed again.\<close>

lemma single_append_ok:
  assumes "ok s" "ts_flag u" "ctx \<in> live"
  shows "\<exists>u' s'. single_append emplace renable ctx proc u s = Some (u', s') \<and> ok s' \<and>
    (taken s' = taken s @ [\<lparr>st_ctx = ctx, st_proc = proc\<rparr>] \<and> given s' = given s \<and> u' = u \<or>
     taken s' = taken s \<and> given s' = given s @ [ctx] \<and> \<not> ts_flag u')"
proof -
  let ?t = "\<lparr>st_ctx = ctx, st_proc = proc\<rparr>"
  obtain b s1 where e: "emplace ?t s = Some (b, s1)" "ok s1" "taken s1 = taken s @ (if b then [?t] else [])" "given s1 = given s"
    using emplace_law [OF assms(1), of ?t] by blast
  show ?thesis
  proof (cases b)
    case True
    with e assms(2) show ?thesis by (simp add: single_append_def)
  next
    case False
    with renable_law [OF e(2) assms(3)] e assms(2) show ?thesis by (auto simp: single_append_def)
  qed
qed

lemma renable_loop_ok:
  assumes "ok s" "B \<noteq> 0" "length ts = unat B" "i \<le> n" "unat start + n < 2 ^ 32"
    "\<forall>t \<in> set (ring_slice ts (unat start + i) (n - i)). st_ctx t \<in> live"
  shows "\<exists>s'. renable_loop renable B ts start i n s = Some s' \<and> ok s' \<and> taken s' = taken s \<and>
    given s' = given s @ map st_ctx (ring_slice ts (unat start + i) (n - i))"
  using assms
proof (induction "n - i" arbitrary: i s)
  case 0
  then show ?case by (simp add: renable_loop.simps)
next
  case (Suc d)
  then have lt: "i < n" by linarith
  let ?j = "unat ((start + of_nat i) mod B)"
  have "unat (start + of_nat i) = unat start + i"
    using lt Suc.prems(5) by (subst unat_add_small) (simp_all add: unat_of_nat_u32)
  then have j: "?j = (unat start + i) mod unat B" by (simp add: unat_mod)
  have jl: "?j < length ts" using Suc.prems(2,3) by (simp add: j u32_eq_0_iff)
  have sl: "ring_slice ts (unat start + i) (n - i) = ts ! ?j # ring_slice ts (unat start + Suc i) (n - Suc i)"
    using ring_slice_add [of ts "unat start + i" 1 "n - Suc i"] lt Suc.prems(3) j
    by (simp add: ring_slice_def Suc_diff_Suc)
  then have "st_ctx (ts ! ?j) \<in> live" using Suc.prems(6) by simp
  from renable_law [OF Suc.prems(1) this] obtain s1 where s1: "renable (st_ctx (ts ! ?j)) s = Some s1" "ok s1"
    "taken s1 = taken s" "given s1 = given s @ [st_ctx (ts ! ?j)]" by blast
  have "d = n - Suc i" using Suc.hyps(2) by simp
  moreover have "\<forall>t \<in> set (ring_slice ts (unat start + Suc i) (n - Suc i)). st_ctx t \<in> live" using Suc.prems(6) sl by simp
  ultimately obtain s' where
    s': "renable_loop renable B ts start (Suc i) n s1 = Some s'" "ok s'" "taken s' = taken s1"
      "given s' = given s1 @ map st_ctx (ring_slice ts (unat start + Suc i) (n - Suc i))"
    using Suc.hyps(1) [OF _ s1(2) Suc.prems(2,3) _ Suc.prems(5), of "Suc i"] lt by auto
  with sl s1 s' lt jl Suc.prems(2) show ?case by (simp add: renable_loop.simps [of renable B ts start i] Let_def)
qed

end

section \<open>The batch buffer\<close>

definition tm_inv :: "u32 \<Rightarrow> UtilTaskTcp_Multipe \<Rightarrow> bool" where
  "tm_inv B u \<longleftrightarrow> (\<exists>ts. tm_tasks u = Some ts \<and> length ts = unat B) \<and> 0 < unat B \<and> unat B < 2 ^ 31 \<and>
     unat (tm_back u) < unat B \<and> unat (tm_size u) \<le> unat B \<and>
     unat (tm_front u) = (unat (tm_back u) + unat (tm_size u)) mod unat B"

definition tm_pending :: "UtilTaskTcp_Multipe \<Rightarrow> SockTaskTcp list" where
  "tm_pending u = ring_slice (the (tm_tasks u)) (unat (tm_back u)) (unat (tm_size u))"

lemma tm_invD:
  assumes "tm_inv B u"
  shows "tm_tasks u = Some (the (tm_tasks u))" "length (the (tm_tasks u)) = unat B" "0 < unat B" "unat B < 2 ^ 31"
    "unat (tm_back u) < unat B" "unat (tm_size u) \<le> unat B"
    "unat (tm_front u) = (unat (tm_back u) + unat (tm_size u)) mod unat B" "B \<noteq> 0"
  using assms by (auto simp: tm_inv_def u32_eq_0_iff)

lemma tm_num_nat:
  assumes "tm_inv B u"
  shows "unat (tm_num B u) = min (unat B - unat (tm_back u)) (unat (tm_size u))"
  using tm_invD(5) [OF assms] by (simp add: tm_num_def Let_def unat_diff_small)

context task_sink
begin

text \<open>The submission of one run, by \<open>append\<close> or \<open>append_bulk\<close>.\<close>

lemma submit_run_ok:
  assumes "ok s" "tm_inv B u" "B \<le> limit" "ts = the (tm_tasks u)" "num = tm_num B u"
  shows "\<exists>m s1. (if num = 1 then if unat (tm_back u) < length ts
        then map_option (\<lambda>(b, s'). (if b then 1 else 0, s')) (app (ts ! unat (tm_back u)) s) else None
      else app_bulk (drop (unat (tm_back u)) ts) num s) = Some (m, s1) \<and> m \<le> num \<and> ok s1 \<and>
    taken s1 = taken s @ take (unat m) (tm_pending u) \<and> given s1 = given s"
proof -
  note D = tm_invD [OF assms(2)]
  have n: "unat num \<le> unat (tm_size u)" "unat (tm_back u) + unat num \<le> unat B"
    using tm_num_nat [OF assms(2)] D(5) assms(5) by simp_all
  have run: "take m (tm_pending u) = take m (drop (unat (tm_back u)) ts)" if "m \<le> unat num" for m
    using that n D(2) by (simp add: tm_pending_def assms(4) take_ring_slice ring_slice_linear)
  show ?thesis
  proof (cases "num = 1")
    case True
    have l: "unat (tm_back u) < length ts" using D(2,5) assms(4) by simp
    obtain b s1 where a: "app (ts ! unat (tm_back u)) s = Some (b, s1)" "ok s1"
      "taken s1 = taken s @ (if b then [ts ! unat (tm_back u)] else [])" "given s1 = given s"
      using append_law [OF assms(1)] by blast
    have "take 1 (tm_pending u) = [ts ! unat (tm_back u)]"
      using run [of 1] True l by (simp add: take_Suc_conv_app_nth)
    with True l a show ?thesis by (intro exI [of _ "if b then 1 else 0"] exI [of _ s1]) auto
  next
    case False
    have "num \<le> B" using n(2) by (simp add: word_le_nat_alt)
    then have "num \<le> limit" using assms(3) by simp
    moreover have "unat num \<le> length (drop (unat (tm_back u)) ts)" using n(2) D(2) assms(4) by simp
    ultimately obtain m s1 where b: "app_bulk (drop (unat (tm_back u)) ts) num s = Some (m, s1)" "m \<le> num" "ok s1"
      "taken s1 = taken s @ take (unat m) (drop (unat (tm_back u)) ts)" "given s1 = given s"
      using bulk_law [OF assms(1)] by blast
    with False run [of "unat m"] show ?thesis by (auto simp: word_le_nat_alt)
  qed
qed

text \<open>
  One call of \<open>commit\<close> on a non-empty buffer: \<open>acc\<close> is accepted; on failure the rest of the
  run is given back and everything after the run is forgotten.
\<close>

lemma commit_run:
  assumes s: "ok s" and inv: "tm_inv B u" and lim: "B \<le> limit" and ne: "tm_size u \<noteq> 0"
    and lv: "\<forall>t \<in> set (tm_pending u). st_ctx t \<in> live"
  shows "\<exists>m s1. m \<le> tm_num B u \<and> ok s1 \<and> taken s1 = taken s @ take (unat m) (tm_pending u) \<and>
    (if m \<noteq> tm_num B u then \<exists>s2. multi_commit app app_bulk renable B u s =
          Some (u\<lparr>tm_back := tm_front u, tm_size := 0, tm_flag := False\<rparr>, s2) \<and> ok s2 \<and> taken s2 = taken s1 \<and>
          given s2 = given s @ map st_ctx (take (unat (tm_num B u) - unat m) (drop (unat m) (tm_pending u)))
     else given s1 = given s \<and> (let u1 = u\<lparr>tm_size := tm_size u - tm_num B u, tm_back := (tm_back u + tm_num B u) mod B\<rparr>
          in multi_commit app app_bulk renable B u s =
            (if tm_size u1 \<noteq> 0 then multi_commit app app_bulk renable B u1 s1 else Some (u1, s1))))"
proof -
  note D = tm_invD [OF inv]
  let ?ts = "the (tm_tasks u)" and ?num = "tm_num B u"
  have n: "unat ?num \<le> unat (tm_size u)" "unat (tm_back u) + unat ?num \<le> unat B"
    using tm_num_nat [OF inv] D(5) by simp_all
  obtain m s1 where M: "(if ?num = 1 then if unat (tm_back u) < length ?ts
        then map_option (\<lambda>(b, s'). (if b then 1 else 0, s')) (app (?ts ! unat (tm_back u)) s) else None
      else app_bulk (drop (unat (tm_back u)) ?ts) ?num s) = Some (m, s1)" "m \<le> ?num" "ok s1"
    "taken s1 = taken s @ take (unat m) (tm_pending u)" "given s1 = given s"
    using submit_run_ok [OF s inv lim refl refl] by blast
  have unfold: "multi_commit app app_bulk renable B u s =
      (if m \<noteq> ?num then map_option (\<lambda>s2. (u\<lparr>tm_back := tm_front u, tm_size := 0, tm_flag := False\<rparr>, s2))
          (renable_loop renable B ?ts (tm_back u + m) 0 (unat (?num - m)) s1)
       else let u1 = u\<lparr>tm_size := tm_size u - ?num, tm_back := (tm_back u + ?num) mod B\<rparr>
         in if tm_size u1 \<noteq> 0 then multi_commit app app_bulk renable B u1 s1 else Some (u1, s1))"
  proof -
    obtain ts where ts: "tm_tasks u = Some ts" using D(1) by blast
    show ?thesis unfolding ts option.sel using ne D(8) ts M(1) [unfolded ts option.sel]
      by (subst multi_commit.simps) (simp add: Let_def split del: if_split, simp add: Let_def)
  qed
  show ?thesis
  proof (cases "m = ?num")
    case True
    with M unfold show ?thesis by (intro exI [of _ m] exI [of _ s1]) simp
  next
    case False
    have mn: "unat m \<le> unat ?num" using M(2) by (simp add: word_le_nat_alt)
    have st: "unat (tm_back u + m) = unat (tm_back u) + unat m" using mn n(2) D(4) by (intro unat_add_small) simp
    have df: "unat (?num - m) = unat ?num - unat m" using mn by (rule unat_diff_small)
    have "unat (tm_back u + m) + unat (?num - m) < 2 ^ 32" using st df mn n(2) D(4) by simp
    moreover have sl: "ring_slice ?ts (unat (tm_back u + m)) (unat ?num - unat m) =
        take (unat ?num - unat m) (drop (unat m) (tm_pending u))"
      using mn n(1) by (simp add: st tm_pending_def drop_ring_slice take_ring_slice)
    then have "\<forall>t \<in> set (ring_slice ?ts (unat (tm_back u + m) + 0) (unat (?num - m) - 0)). st_ctx t \<in> live"
      using lv by (auto simp: df dest!: in_set_takeD in_set_dropD)
    ultimately obtain s2 where
      s2: "renable_loop renable B ?ts (tm_back u + m) 0 (unat (?num - m)) s1 = Some s2" "ok s2" "taken s2 = taken s1"
        "given s2 = given s1 @ map st_ctx (ring_slice ?ts (unat (tm_back u + m)) (unat ?num - unat m))"
      using renable_loop_ok [OF M(3) D(8,2) le0, of "tm_back u + m" "unat (?num - m)"]
      unfolding df by (auto simp del: unat_add_small)
    with M False unfold s2 sl show ?thesis by (intro exI [of _ m] exI [of _ s1]) simp
  qed
qed

end

context task_sink
begin

text \<open>
  \<open>commit\<close> empties the buffer. The pending tasks are an accepted part, a part whose
  connections are armed again, and a lost part, which is empty unless the buffer wraps around
  and the pool refuses a task of the first run.
\<close>

lemma commit_ok:
  assumes s: "ok s" and inv: "tm_inv B u" and lim: "B \<le> limit" and lv: "\<forall>t \<in> set (tm_pending u). st_ctx t \<in> live"
  shows "\<exists>u' s' acc ren lost. multi_commit app app_bulk renable B u s = Some (u', s') \<and> ok s' \<and> tm_inv B u' \<and>
    tm_size u' = 0 \<and> tm_pending u = acc @ ren @ lost \<and> taken s' = taken s @ acc \<and> given s' = given s @ map st_ctx ren \<and>
    (lost \<noteq> [] \<longrightarrow> ren \<noteq> [] \<and> unat B < unat (tm_back u) + unat (tm_size u))"
  using assms
proof (induction "unat (tm_size u)" arbitrary: u s rule: less_induct)
  case less
  note D = tm_invD [OF less.prems(2)]
  show ?case
  proof (cases "tm_size u = 0")
    case True
    then have "multi_commit app app_bulk renable B u s = Some (u, s)" by (simp add: multi_commit.simps)
    moreover have "tm_pending u = []" using True by (simp add: tm_pending_def)
    ultimately show ?thesis using less.prems(1,2) True by auto
  next
    case False
    let ?num = "tm_num B u" and ?P = "tm_pending u"
    have nn: "unat ?num = min (unat B - unat (tm_back u)) (unat (tm_size u))" by (rule tm_num_nat [OF less.prems(2)])
    have lenP: "length ?P = unat (tm_size u)" by (simp add: tm_pending_def)
    obtain m s1 where R: "m \<le> ?num" "ok s1" "taken s1 = taken s @ take (unat m) ?P"
      "if m \<noteq> ?num then \<exists>s2. multi_commit app app_bulk renable B u s =
          Some (u\<lparr>tm_back := tm_front u, tm_size := 0, tm_flag := False\<rparr>, s2) \<and> ok s2 \<and> taken s2 = taken s1 \<and>
          given s2 = given s @ map st_ctx (take (unat ?num - unat m) (drop (unat m) ?P))
       else given s1 = given s \<and> (let u1 = u\<lparr>tm_size := tm_size u - ?num, tm_back := (tm_back u + ?num) mod B\<rparr>
          in multi_commit app app_bulk renable B u s =
            (if tm_size u1 \<noteq> 0 then multi_commit app app_bulk renable B u1 s1 else Some (u1, s1)))"
      using commit_run [OF less.prems(1-3) False less.prems(4)] by blast
    have mn: "unat m \<le> unat ?num" using R(1) by (simp add: word_le_nat_alt)
    show ?thesis
    proof (cases "m = ?num")
      case ne: False
      let ?u = "u\<lparr>tm_back := tm_front u, tm_size := 0, tm_flag := False\<rparr>"
      let ?ren = "take (unat ?num - unat m) (drop (unat m) ?P)" and ?lost = "drop (unat ?num) ?P"
      have lt: "unat m < unat ?num" using mn ne unat_eq_u32 [of m ?num] by linarith
      have "tm_inv B ?u" using less.prems(2) D by (auto simp: tm_inv_def)
      moreover have "?P = take (unat m) ?P @ ?ren @ ?lost"
        using lt by (metis append.assoc append_take_drop_id drop_drop le_add_diff_inverse2 less_imp_le)
      moreover have "unat m < length ?P" using lt nn lenP by linarith
      then have "?ren \<noteq> []" using lt by simp
      moreover have "?lost \<noteq> [] \<longrightarrow> unat B < unat (tm_back u) + unat (tm_size u)" using nn lenP D(5) by (auto simp: min_def)
      moreover obtain s2 where "multi_commit app app_bulk renable B u s = Some (?u, s2)" "ok s2"
        "taken s2 = taken s @ take (unat m) ?P" "given s2 = given s @ map st_ctx ?ren" using R(3,4) ne by auto
      moreover have "tm_size ?u = 0" by simp
      ultimately show ?thesis by blast
    next
      case eq: True
      let ?u = "u\<lparr>tm_size := tm_size u - ?num, tm_back := (tm_back u + ?num) mod B\<rparr>"
      have sz: "unat (tm_size ?u) = unat (tm_size u) - unat ?num" using nn by (simp add: unat_diff_small)
      have "unat (tm_back u + ?num) = unat (tm_back u) + unat ?num" using nn D(4,5) by (intro unat_add_small) simp
      then have bk: "unat (tm_back ?u) = (unat (tm_back u) + unat ?num) mod unat B" by (simp add: unat_mod)
      have pd: "tm_pending ?u = drop (unat ?num) ?P"
        using nn D(2) ring_slice_mod [of "the (tm_tasks u)" "unat (tm_back u) + unat ?num"]
        by (simp add: tm_pending_def sz [simplified] bk [simplified] drop_ring_slice)
      have fr: "(unat (tm_back ?u) + unat (tm_size ?u)) mod unat B = unat (tm_front u)"
      proof -
        have "unat ?num \<le> unat (tm_size u)" using nn by simp
        then have "unat (tm_back u) + unat ?num + (unat (tm_size u) - unat ?num) = unat (tm_back u) + unat (tm_size u)"
          by linarith
        then show ?thesis unfolding bk sz D(7) mod_add_left_eq by (simp only:)
      qed
      have inv1: "tm_inv B ?u" using D sz bk fr unfolding tm_inv_def
        by (intro conjI) (auto simp: mod_less_divisor simp del: unat_mod)
      have M: "multi_commit app app_bulk renable B u s =
          (if tm_size ?u \<noteq> 0 then multi_commit app app_bulk renable B ?u s1 else Some (?u, s1))" "given s1 = given s"
        using R(4) eq by (simp_all add: Let_def)
      have tk: "taken s1 = taken s @ take (unat ?num) ?P" using R(3) eq by simp
      have "0 < unat ?num" using nn D(5) False by (simp add: u32_eq_0_iff)
      then have "unat (tm_size ?u) < unat (tm_size u)" using sz nn by simp
      moreover have "\<forall>t \<in> set (tm_pending ?u). st_ctx t \<in> live" using less.prems(4) pd by (auto dest: in_set_dropD)
      ultimately obtain u' s' acc ren lost where
        i: "multi_commit app app_bulk renable B ?u s1 = Some (u', s')" "ok s'" "tm_inv B u'" "tm_size u' = 0"
          "tm_pending ?u = acc @ ren @ lost" "taken s' = taken s1 @ acc" "given s' = given s1 @ map st_ctx ren"
          "lost \<noteq> [] \<longrightarrow> ren \<noteq> [] \<and> unat B < unat (tm_back ?u) + unat (tm_size ?u)"
        using less.hyps [OF _ R(2) inv1 less.prems(3)] by blast
      have c: "multi_commit app app_bulk renable B u s = Some (u', s')"
      proof (cases "tm_size ?u = 0")
        case True
        with i(1) have "Some (?u, s1) = Some (u', s')" by (simp add: multi_commit.simps)
        with M(1) True show ?thesis by simp
      next
        case False
        with M(1) i(1) show ?thesis by simp
      qed
      have w: "\<not> unat B < unat (tm_back ?u) + unat (tm_size ?u)"
      proof (cases "unat (tm_size u) \<le> unat B - unat (tm_back u)")
        case True
        then have "unat (tm_size ?u) = 0" using sz nn by simp
        moreover have "unat (tm_back ?u) < unat B" using tm_invD(5) [OF inv1] .
        ultimately show ?thesis by simp
      next
        case False
        then have "unat (tm_back u) + unat ?num = unat B" using nn D(5) by simp
        then have "unat (tm_back ?u) = 0" using bk by simp
        then show ?thesis using sz D(6) by simp
      qed
      have p: "?P = (take (unat ?num) ?P @ acc) @ ren @ lost" using pd i(5) by (metis append.assoc append_take_drop_id)
      have t: "taken s' = taken s @ (take (unat ?num) ?P @ acc)" "given s' = given s @ map st_ctx ren"
        using tk i(6,7) M(2) by simp_all
      have l: "lost \<noteq> [] \<longrightarrow> ren \<noteq> [] \<and> unat B < unat (tm_back u) + unat (tm_size u)" using i(8) w by blast
      show ?thesis
        by (intro exI [of _ u'] exI [of _ s'] exI [of _ "take (unat ?num) ?P @ acc"] exI [of _ ren] exI [of _ lost] conjI)
          (rule c i(2-4) p t l)+
    qed
  qed
qed

end

section \<open>The thread pool as a sink\<close>

text \<open>
  The running pool together with the sequence of connections passed to \<open>renableProc\<close>. \<open>seen\<close>
  is the unlocked read of a queue size, any function of the pool.
\<close>

record pool_sink =
  sk_sys :: "SockTaskTcp tpsys"
  sk_rearmed :: "addr list"

definition sink_accept :: "SockTaskTcp list \<Rightarrow> SockTaskTcp ThreadPool \<Rightarrow> pool_sink \<Rightarrow> pool_sink" where
  "sink_accept ts tp s = s\<lparr>sk_sys := sk_sys s\<lparr>t_pool := tp, t_submitted := t_submitted (sk_sys s) @ ts\<rparr>\<rparr>"

definition sink_emplace :: "(SockTaskTcp ThreadPool \<Rightarrow> u32) \<Rightarrow> SockTaskTcp \<Rightarrow> pool_sink \<Rightarrow> (bool \<times> pool_sink) option" where
  "sink_emplace seen t s = map_option (\<lambda>(ok, tp). (ok, sink_accept (if ok then [t] else []) tp s))
     (tp_emplace (seen (t_pool (sk_sys s))) t (t_pool (sk_sys s)))"

definition sink_append :: "(SockTaskTcp ThreadPool \<Rightarrow> u32) \<Rightarrow> SockTaskTcp \<Rightarrow> pool_sink \<Rightarrow> (bool \<times> pool_sink) option" where
  "sink_append seen t s = map_option (\<lambda>(ok, tp). (ok, sink_accept (if ok then [t] else []) tp s))
     (tp_append (seen (t_pool (sk_sys s))) t (t_pool (sk_sys s)))"

definition sink_append_bulk ::
  "(SockTaskTcp ThreadPool \<Rightarrow> u32) \<Rightarrow> SockTaskTcp list \<Rightarrow> u32 \<Rightarrow> pool_sink \<Rightarrow> (u32 \<times> pool_sink) option" where
  "sink_append_bulk seen ts cnt s = map_option (\<lambda>(m, tp). (m, sink_accept (take (unat m) ts) tp s))
     (tp_append_bulk (seen (t_pool (sk_sys s))) ts cnt (t_pool (sk_sys s)))"

definition sink_renable :: "addr \<Rightarrow> pool_sink \<Rightarrow> pool_sink option" where
  "sink_renable x s = Some (s\<lparr>sk_rearmed := sk_rearmed s @ [x]\<rparr>)"

definition sink_ok :: "nat \<Rightarrow> u32 \<Rightarrow> u32 \<Rightarrow> pool_sink \<Rightarrow> bool" where
  "sink_ok n b len s \<longleftrightarrow> sys_inv n b len (sk_sys s) \<and> \<not> t_closing (sk_sys s)"

definition sink_taken :: "pool_sink \<Rightarrow> SockTaskTcp list" where
  "sink_taken s = t_submitted (sk_sys s)"

lemma sink_accept_simps [simp]: "sink_taken (sink_accept ts tp s) = sink_taken s @ ts"
  "sk_rearmed (sink_accept ts tp s) = sk_rearmed s"
  by (simp_all add: sink_accept_def sink_taken_def)

lemma sink_offered:
  assumes "sink_ok n b len s" "tp_queues (t_pool (sk_sys s)) = Some qs" "offered (t_pool (sk_sys s)) qs xs tp"
  shows "sink_ok n b len (sink_accept xs tp s)"
  using offered_inv [OF _ assms(2,3), of False n b len "t_submitted (sk_sys s)"] assms(1)
  by (auto simp: sink_ok_def sys_inv_def sink_accept_def)

lemma sink_queues:
  assumes "sink_ok n b len s"
  shows "\<exists>qs. tp_queues (t_pool (sk_sys s)) = Some qs \<and>
    tp_inv False n b len (t_submitted (sk_sys s)) (t_pool (sk_sys s)) \<and> tp_queueLength (t_pool (sk_sys s)) = len"
  using assms by (auto simp: sink_ok_def sys_inv_def tp_inv_def)

interpretation pool_sink: task_sink "sink_ok n b len" UNIV len sink_taken sk_rearmed
  "sink_emplace seen" "sink_append seen" "sink_append_bulk seen" sink_renable
  for n :: nat and b len :: u32 and seen
proof
  fix s t
  assume s: "sink_ok n b len s"
  obtain qs where qs: "tp_queues (t_pool (sk_sys s)) = Some qs"
    and inv: "tp_inv False n b len (t_submitted (sk_sys s)) (t_pool (sk_sys s))" using sink_queues [OF s] by blast
  obtain ok tp where o: "tp_append (seen (t_pool (sk_sys s))) t (t_pool (sk_sys s)) = Some (ok, tp)"
    "tp_emplace (seen (t_pool (sk_sys s))) t (t_pool (sk_sys s)) = Some (ok, tp)"
    "offered (t_pool (sk_sys s)) qs (if ok then [t] else []) tp" using tp_append_ok [OF inv qs] by metis
  from sink_offered [OF s qs o(3)] o(1,2)
  show "\<exists>b' s'. sink_emplace seen t s = Some (b', s') \<and> sink_ok n b len s' \<and>
      sink_taken s' = sink_taken s @ (if b' then [t] else []) \<and> sk_rearmed s' = sk_rearmed s"
    "\<exists>b' s'. sink_append seen t s = Some (b', s') \<and> sink_ok n b len s' \<and>
      sink_taken s' = sink_taken s @ (if b' then [t] else []) \<and> sk_rearmed s' = sk_rearmed s"
    by (simp_all add: sink_emplace_def sink_append_def)
next
  fix s cnt ts
  assume s: "sink_ok n b len s" and c: "cnt \<le> len" "unat cnt \<le> length (ts :: SockTaskTcp list)"
  obtain qs where qs: "tp_queues (t_pool (sk_sys s)) = Some qs" "tp_queueLength (t_pool (sk_sys s)) = len"
    and inv: "tp_inv False n b len (t_submitted (sk_sys s)) (t_pool (sk_sys s))" using sink_queues [OF s] by blast
  have c': "cnt \<le> tp_queueLength (t_pool (sk_sys s))" using c(1) qs(2) by simp
  obtain m tp where o: "tp_append_bulk (seen (t_pool (sk_sys s))) ts cnt (t_pool (sk_sys s)) = Some (of_nat m, tp)"
    "m \<le> unat cnt" "offered (t_pool (sk_sys s)) qs (take m ts) tp" using tp_append_bulk_ok [OF inv qs(1) c' c(2)] by blast
  have m: "unat (of_nat m :: u32) = m" using o(2) by (intro unat_of_nat_u32 le_unat_u32)
  from sink_offered [OF s qs(1) o(3)] o(1,2) m
  show "\<exists>m s'. sink_append_bulk seen ts cnt s = Some (m, s') \<and> m \<le> cnt \<and> sink_ok n b len s' \<and>
      sink_taken s' = sink_taken s @ take (unat m) ts \<and> sk_rearmed s' = sk_rearmed s"
    by (simp add: sink_append_bulk_def word_le_nat_alt)
next
  fix s x
  assume "sink_ok n b len s"
  then show "\<exists>s'. sink_renable x s = Some s' \<and> sink_ok n b len s' \<and> sink_taken s' = sink_taken s \<and>
      sk_rearmed s' = sk_rearmed s @ [x]" by (simp add: sink_renable_def sink_ok_def sink_taken_def)
qed

section \<open>Properties\<close>

text \<open>A pool with one worker, four slots and batch size one, and tasks for it.\<close>

definition sample_task :: "nat \<Rightarrow> SockTaskTcp" where
  "sample_task i = \<lparr>st_ctx = i, st_proc = 0\<rparr>"

definition sample_sink :: pool_sink where
  "sample_sink = \<lparr>sk_sys = fresh_pool (snd (the (tp_init True (\<lambda>_ _. 64) 16 8 4 1 1 (tp_new 0)))), sk_rearmed = []\<rparr>"

definition seen_first :: "SockTaskTcp ThreadPool \<Rightarrow> u32" where
  "seen_first tp = q_size (queue_at tp 0)"

lemma sample_sink_ok: "sink_ok 1 1 4 sample_sink"
proof -
  have "map_option fst (tp_init True (\<lambda>_ _. 64) 16 8 4 1 1 (tp_new 0 :: SockTaskTcp ThreadPool)) = Some True" by code_simp
  then obtain tp where tp: "tp_init True (\<lambda>_ _. 64) 16 8 4 1 1 (tp_new 0 :: SockTaskTcp ThreadPool) = Some (True, tp)" by auto
  have "pool_args 16 4" by (simp add: pool_args_def)
  from tp_init_inv [OF tp this] show ?thesis by (simp add: sink_ok_def sample_sink_def tp fresh_pool_def)
qed

text \<open>A batch buffer of four slots with two pending tasks.\<close>

definition sample_batch :: UtilTaskTcp_Multipe where
  "sample_batch = \<lparr>tm_flag = True, tm_back = 1, tm_front = 3, tm_size = 2,
     tm_tasks = Some (map sample_task [0, 1, 2, 3])\<rparr>"



text \<open>
  C25. \<open>commit\<close> of a batch terminates, empties the buffer, keeps it well formed and hands the
  tasks over in order. When the pending tasks do not wrap around the end of the buffer, every
  one of them is accepted by the pool or its connection is armed again.
\<close>

theorem commit_settles:
  assumes "sink_ok n b len s" "tm_inv B u" "B \<le> len" "unat (tm_back u) + unat (tm_size u) \<le> unat B"
  shows "\<exists>u' s' acc ren. multi_commit (sink_append seen) (sink_append_bulk seen) sink_renable B u s = Some (u', s') \<and>
    sink_ok n b len s' \<and> tm_inv B u' \<and> tm_size u' = 0 \<and> tm_pending u = acc @ ren \<and>
    sink_taken s' = sink_taken s @ acc \<and> sk_rearmed s' = sk_rearmed s @ map st_ctx ren"
proof -
  obtain u' s' acc ren lost where c: "multi_commit (sink_append seen) (sink_append_bulk seen) sink_renable B u s = Some (u', s')"
    "sink_ok n b len s'" "tm_inv B u'" "tm_size u' = 0" "tm_pending u = acc @ ren @ lost"
    "sink_taken s' = sink_taken s @ acc" "sk_rearmed s' = sk_rearmed s @ map st_ctx ren"
    "lost \<noteq> [] \<longrightarrow> ren \<noteq> [] \<and> unat B < unat (tm_back u) + unat (tm_size u)"
    using pool_sink.commit_ok [OF assms(1-3) ballI [OF UNIV_I], of seen] by blast
  have "lost = []" using c(8) assms(4) by auto
  with c(1-7) show ?thesis by auto
qed

theorem commit_settles_witness:
  "\<exists>u' s' acc ren. multi_commit (sink_append seen_first) (sink_append_bulk seen_first) sink_renable 4 sample_batch sample_sink =
      Some (u', s') \<and> sink_ok 1 1 4 s' \<and> tm_inv 4 u' \<and> tm_size u' = 0 \<and> tm_pending sample_batch = acc @ ren \<and>
    sink_taken s' = sink_taken sample_sink @ acc \<and> sk_rearmed s' = sk_rearmed sample_sink @ map st_ctx ren"
  by (rule commit_settles [OF sample_sink_ok]) (simp_all add: tm_inv_def sample_batch_def)

text \<open>An I/O thread that submits in batches of four: a list of appended connections, or a reset.\<close>

definition batch_cfg :: SPTcpConfig where
  "batch_cfg = tcp_config_default\<lparr>THREADPOOL_QUEUE_LENGTH := 4, THREADPOOL_BATCH_SIZE_SUBMIT := 4,
     THREADPOOL_BATCH_SIZE_PROCESS := 1\<rparr>"

fun util_run :: "addr option list \<Rightarrow> UtilTaskTcp \<times> pool_sink \<Rightarrow> (UtilTaskTcp \<times> pool_sink) option" where
  "util_run [] r = Some r"
| "util_run (Some ctx # as) (u, s) = Option.bind
     (util_append batch_cfg (sink_emplace seen_first) (sink_append seen_first) (sink_append_bulk seen_first) sink_renable ctx 0 u s)
     (util_run as)"
| "util_run (None # as) (u, s) = Option.bind
     (util_reset batch_cfg (sink_append seen_first) (sink_append_bulk seen_first) sink_renable u s) (util_run as)"

text \<open>The pool is full after the first batch; the connections 5 to 9 arrive in two rounds.\<close>

definition forget_script :: "addr option list" where
  "forget_script = [Some 1, Some 2, Some 3, Some 4, Some 5, None, Some 6, Some 7, Some 8, Some 9]"

text \<open>
  C37. The condition of the previous theorem is needed: \<open>commit\<close> forgets connections. With a
  configuration that passes every assertion and a full task queue, connection 5 is refused and
  armed again, which moves the start of the batch buffer. The next batch 6, 7, 8, 9 wraps
  around; the pool refuses its first run 6, 7, 8, which are armed again, and connection 9 is
  neither submitted nor armed: its events are not delivered any more.
\<close>

theorem commit_forgets_wrapped:
  "tcp_config_ok batch_cfg \<and>
   (\<exists>u s. util_run forget_script (snd (util_init batch_cfg True util_new), sample_sink) = Some (u, s) \<and>
      tm_size (ut_tm u) = 0 \<and> map st_ctx (sink_taken s) = [1, 2, 3, 4] \<and> sk_rearmed s = [5, 6, 7, 8])"
proof -
  have "tcp_config_ok batch_cfg"
    by (simp add: batch_cfg_def tcp_config_default_def tcp_config_ok_def epoll_defs)
  moreover have "(case util_run forget_script (snd (util_init batch_cfg True util_new), sample_sink) of None \<Rightarrow> False
      | Some (u, s) \<Rightarrow> tm_size (ut_tm u) = 0 \<and> map st_ctx (sink_taken s) = [1, 2, 3, 4] \<and> sk_rearmed s = [5, 6, 7, 8])"
    unfolding forget_script_def by code_simp
  ultimately show ?thesis by (auto split: option.splits)
qed

text \<open>
  C38. After a refusal, and until \<open>reset\<close>, a submission does both: the branch for the cleared flag
  arms the events and has no \<open>return\<close>, so a task that is then accepted runs on a connection
  whose events are armed at the same time.
\<close>

theorem refused_round_submits_twice:
  assumes "sink_ok n b len s" "\<not> ts_flag u"
    and "single_append (sink_emplace seen) sink_renable ctx proc u s = Some (u', s')" "length (sink_taken s) < length (sink_taken s')"
  shows "\<lparr>st_ctx = ctx, st_proc = proc\<rparr> \<in> set (sink_taken s') \<and> sk_rearmed s' = sk_rearmed s @ [ctx]"
proof -
  let ?t = "\<lparr>st_ctx = ctx, st_proc = proc\<rparr>"
  obtain s1 where s1: "sink_renable ctx s = Some s1" "sink_ok n b len s1" "sink_taken s1 = sink_taken s"
    "sk_rearmed s1 = sk_rearmed s @ [ctx]" using pool_sink.renable_law [OF assms(1)] by blast
  obtain ok s2 where s2: "sink_emplace seen ?t s1 = Some (ok, s2)" "sink_ok n b len s2"
    "sink_taken s2 = sink_taken s1 @ (if ok then [?t] else [])" "sk_rearmed s2 = sk_rearmed s1"
    using pool_sink.emplace_law [OF s1(2)] by blast
  show ?thesis
  proof (cases ok)
    case True
    with assms(2,3) s1 s2 show ?thesis by (simp add: single_append_def)
  next
    case False
    from pool_sink.renable_law [OF s2(2), of ctx] obtain s3 where "sink_renable ctx s2 = Some s3" "sink_taken s3 = sink_taken s2"
      by blast
    with False assms(2-4) s1 s2 show ?thesis by (auto simp: single_append_def)
  qed
qed

theorem refused_round_submits_twice_witness:
  "\<exists>u' s'. single_append (sink_emplace seen_first) sink_renable 9 0 \<lparr>ts_flag = False\<rparr> sample_sink = Some (u', s') \<and>
    \<lparr>st_ctx = 9, st_proc = 0\<rparr> \<in> set (sink_taken s') \<and> sk_rearmed s' = sk_rearmed sample_sink @ [9]"
proof -
  have "(case single_append (sink_emplace seen_first) sink_renable 9 0 \<lparr>ts_flag = False\<rparr> sample_sink of None \<Rightarrow> False
      | Some (u', s') \<Rightarrow> length (sink_taken sample_sink) < length (sink_taken s'))" by code_simp
  then obtain u' s' where "single_append (sink_emplace seen_first) sink_renable 9 0 \<lparr>ts_flag = False\<rparr> sample_sink = Some (u', s')"
    "length (sink_taken sample_sink) < length (sink_taken s')" by (auto split: option.splits)
  with refused_round_submits_twice [OF sample_sink_ok _ this] show ?thesis by auto
qed

end
