(* ===== verification/SP_Sock_Tcp.thy ===== *)
theory SP_Sock_Tcp
  imports SP_Kernel SP_Task "HOL-Library.AList"
begin

text \<open>
  The TCP part of \<open>SPSock.h\<close> and \<open>SPSock.cpp\<close>: the class \<open>SPSockTcp\<close> with its connection table,
  the handlers of the acceptor thread and of the I/O threads, the event loops, and the
  configuration interface.

  The state \<open>tcp_sys\<close> holds the singleton object, the global variables, the kernel, the buffer
  pool, the thread pool and the state of the application. Everything the code calls that is
  not under the repository's control is in the record \<open>tcp_env\<close>: the application's callbacks,
  \<open>malloc\<close>, the result of \<open>new\<close>, \<open>inet_pton\<close>, the number of cores. Undefined behaviour and an
  uncaught exception are \<^term>\<open>None\<close>.

  A pointer to a controller is the descriptor under which the connection table stores it; a
  pointer to the entry \<open>i\<close> of \<open>loopInfo\<close> is \<open>i + 1\<close>, and \<open>0\<close> is null.
\<close>

section \<open>State\<close>

record linger =
  l_onoff :: int
  l_linger :: int

record SPSockProc =
  rdp :: addr
  wtp :: addr
  cnp :: addr
  csp :: addr

record SPSockTcp =
  s_status :: u32
  s_listenfd :: int
  s_lin :: linger
  s_proc :: SPSockProc
  s_alive :: SPSockAlive
  s_cList :: "addr list"
  s_loops :: "(int \<times> int) list"
  s_loopInfo :: "IOThreadInfo list"
  s_connections :: "(int \<times> SOCKController) list"

record 'w tcp_sys =
  y_family :: ADDRESS_FAMILY
  y_instance :: bool
  y_sock :: SPSockTcp
  y_exitFlag :: bool
  y_glob :: sp_globals
  y_kern :: kern
  y_bufs :: bpool
  y_sink :: pool_sink
  y_app :: 'w

text \<open>
  \<open>e_stale\<close> is what a read of the member \<open>info\<close> yields after the controller has been erased
  from the table, and \<open>e_workers\<close> what the worker threads do until they are joined.
\<close>

record 'w tcp_env =
  e_cnp :: "addr \<Rightarrow> string \<Rightarrow> u16 \<Rightarrow> 'w \<Rightarrow> addr \<times> 'w"
  e_csp :: "addr \<Rightarrow> SOCKController \<Rightarrow> 'w \<Rightarrow> 'w"
  e_malloc :: malloc_fun
  e_new :: bool
  e_amal :: "nat \<Rightarrow> nat \<Rightarrow> addr"
  e_nsz :: nat
  e_seen :: "SockTaskTcp ThreadPool \<Rightarrow> u32"
  e_stale :: "SOCKController \<Rightarrow> addr option"
  e_pton :: "ADDRESS_FAMILY \<Rightarrow> string \<Rightarrow> byte list option"
  e_cores :: u32
  e_workers :: "SockTaskTcp tpsys \<Rightarrow> SockTaskTcp tpsys"

abbreviation y_cfg :: "'w tcp_sys \<Rightarrow> SPTcpConfig" where "y_cfg y \<equiv> g_tcpConfig (y_glob y)"
abbreviation y_conns :: "'w tcp_sys \<Rightarrow> (int \<times> SOCKController) list" where "y_conns y \<equiv> s_connections (y_sock y)"
abbreviation y_info :: "'w tcp_sys \<Rightarrow> IOThreadInfo list" where "y_info y \<equiv> s_loopInfo (y_sock y)"

definition on_sock :: "(SPSockTcp \<Rightarrow> SPSockTcp) \<Rightarrow> 'w tcp_sys \<Rightarrow> 'w tcp_sys" where
  "on_sock f y = y\<lparr>y_sock := f (y_sock y)\<rparr>"

definition on_kern :: "(kern \<Rightarrow> 'a \<times> kern) \<Rightarrow> 'w tcp_sys \<Rightarrow> 'a \<times> 'w tcp_sys" where
  "on_kern f y = (case f (y_kern y) of (r, k) \<Rightarrow> (r, y\<lparr>y_kern := k\<rparr>))"

definition k_close :: "int \<Rightarrow> 'w tcp_sys \<Rightarrow> 'w tcp_sys" where
  "k_close fd y = y\<lparr>y_kern := sys_close fd (y_kern y)\<rparr>"

definition conn_at :: "addr \<Rightarrow> 'w tcp_sys \<Rightarrow> SOCKController option" where
  "conn_at x y = map_of (y_conns y) (int x)"

definition set_conn :: "addr \<Rightarrow> SOCKController \<Rightarrow> 'w tcp_sys \<Rightarrow> 'w tcp_sys" where
  "set_conn x c y = on_sock (\<lambda>s. s\<lparr>s_connections := AList.update (int x) c (s_connections s)\<rparr>) y"

definition info_at :: "addr \<Rightarrow> 'w tcp_sys \<Rightarrow> IOThreadInfo option" where
  "info_at p y = (if 0 < p \<and> p \<le> length (y_info y) then Some (y_info y ! (p - 1)) else None)"

definition add_count :: "int \<Rightarrow> addr \<Rightarrow> 'w tcp_sys \<Rightarrow> 'w tcp_sys option" where
  "add_count d p y = map_option (\<lambda>i. on_sock (\<lambda>s. s\<lparr>s_loopInfo := (s_loopInfo s)[p - 1 := i\<lparr>io_count := io_count i + d\<rparr>]\<rparr>) y)
     (info_at p y)"

section \<open>Construction and the singleton\<close>

definition tcp_new :: SPSockTcp where
  "tcp_new = \<lparr>s_status = 0, s_listenfd = -1, s_lin = \<lparr>l_onoff = 0, l_linger = 0\<rparr>,
     s_proc = \<lparr>rdp = null, wtp = null, cnp = null, csp = null\<rparr>,
     s_alive = \<lparr>keepAlive = 0, aliveSeconds = 0, detectTimes = 0, detectInterval = 0\<rparr>,
     s_cList = [], s_loops = [], s_loopInfo = [], s_connections = []\<rparr>"

definition GetInstance :: "bool \<Rightarrow> 'w tcp_sys \<Rightarrow> bool \<times> 'w tcp_sys" where
  "GetInstance new_ok y =
     (if y_instance y then (True, y)
      else if new_ok then (True, y\<lparr>y_instance := True, y_sock := tcp_new\<rparr>) else (False, y))"

text \<open>Erasing a table entry destroys the controller.\<close>

definition erase_conn :: "int \<Rightarrow> 'w tcp_sys \<Rightarrow> 'w tcp_sys option" where
  "erase_conn fd y = (case map_of (y_conns y) fd of
     None \<Rightarrow> Some y
   | Some c \<Rightarrow> map_option (\<lambda>p. on_sock (\<lambda>s. s\<lparr>s_connections := AList.delete fd (s_connections s)\<rparr>) (y\<lparr>y_bufs := p\<rparr>))
       (ctrl_destroy (y_cfg y) c (y_bufs y)))"

fun destroy_all :: "SPTcpConfig \<Rightarrow> (int \<times> SOCKController) list \<Rightarrow> bpool \<Rightarrow> bpool option" where
  "destroy_all cfg [] p = Some p"
| "destroy_all cfg ((fd, c) # cs) p = Option.bind (ctrl_destroy cfg c p) (destroy_all cfg cs)"

text \<open>The destructor closes the listening socket; then the members are destroyed.\<close>

definition tcp_destroy :: "'w tcp_sys \<Rightarrow> 'w tcp_sys option" where
  "tcp_destroy y =
     (let y1 = (if s_listenfd (y_sock y) \<noteq> -1 then k_close (s_listenfd (y_sock y)) y else y)
      in map_option (\<lambda>p. on_sock (\<lambda>s. s\<lparr>s_connections := []\<rparr>) (y1\<lparr>y_bufs := p\<rparr>)) (destroy_all (y_cfg y1) (y_conns y1) (y_bufs y1)))"

definition tcp_Release :: "'w tcp_sys \<Rightarrow> 'w tcp_sys option" where
  "tcp_Release y =
     (if y_instance y then do {
        y1 \<leftarrow> tcp_destroy y;
        p \<leftarrow> pool_reset (y_bufs y1);
        Some (y1\<lparr>y_instance := False, y_bufs := p\<rparr>)
      } else Some y)"

section \<open>Socket options\<close>

definition SetLinger :: "int \<Rightarrow> 'w tcp_sys \<Rightarrow> 'w tcp_sys" where
  "SetLinger fd y = snd (on_kern (sys_setsockopt fd (SO_LINGER (l_onoff (s_lin (y_sock y))) (l_linger (s_lin (y_sock y))))) y)"

definition SetKeepAlive :: "int \<Rightarrow> 'w tcp_sys \<Rightarrow> 'w tcp_sys" where
  "SetKeepAlive fd y =
     (let a = s_alive (y_sock y);
          y1 = snd (on_kern (sys_setsockopt fd (SO_KEEPALIVE (keepAlive a))) y);
          y2 = snd (on_kern (sys_setsockopt fd (TCP_KEEPIDLE (aliveSeconds a))) y1);
          y3 = snd (on_kern (sys_setsockopt fd (TCP_KEEPCNT (detectTimes a))) y2)
      in snd (on_kern (sys_setsockopt fd (TCP_KEEPINTVL (detectInterval a))) y3))"

section \<open>Closing and arming connections\<close>

definition CloseConnection :: "'w tcp_env \<Rightarrow> addr \<Rightarrow> 'w tcp_sys \<Rightarrow> 'w tcp_sys option" where
  "CloseConnection env x y = do {
     c \<leftarrow> conn_at x y;
     let f = csp (s_proc (y_sock y));
     let y1 = (if f \<noteq> null then y\<lparr>y_app := e_csp env f c (y_app y)\<rparr> else y);
     erase_conn (c_fd c) (k_close (c_fd c) y1)
   }"

definition ActiveClose :: "bool \<Rightarrow> SOCKController \<Rightarrow> 'w tcp_sys \<Rightarrow> 'w tcp_sys option" where
  "ActiveClose new_ok c y = do {
     i \<leftarrow> info_at (c_info c) y;
     let (ok, y1) = GetInstance new_ok (snd (on_kern (epoll_del (io_epollfd i) (c_fd c)) y));
     if ok then Some (on_sock (\<lambda>s. s\<lparr>s_cList := s_cList s @ [nat (c_fd c)]\<rparr>) y1) else None
   }"

definition EnableEvent :: "SOCKController \<Rightarrow> bool \<Rightarrow> bool \<Rightarrow> 'w tcp_sys \<Rightarrow> (bool \<times> 'w tcp_sys) option" where
  "EnableEvent c read write y = do {
     i \<leftarrow> info_at (c_info c) y;
     let ev0 = EPOLLERR OR EPOLLRDHUP OR EPOLLHUP OR EPOLLONESHOT;
     let ev1 = (if read then ev0 OR EPOLLIN else ev0);
     let ev2 = (if write then ev1 OR EPOLLOUT else ev1);
     Some (on_kern (epoll_mod (io_epollfd i) (c_fd c) ev2) y)
   }"

text \<open>
  The calls through \<open>funcEvent\<close>, \<open>funcClose\<close> and \<open>renableProc\<close>, which \<open>Config\<close> sets. A hook that
  belongs to the other address family works on another object and is outside the model.
\<close>

definition run_event :: "SOCKController \<Rightarrow> bool \<Rightarrow> bool \<Rightarrow> 'w tcp_sys \<Rightarrow> (bool \<times> 'w tcp_sys) option" where
  "run_event c read write y =
     (if g_funcEvent (y_glob y) = Hook_EnableEvent (y_family y) then EnableEvent c read write y else None)"

definition run_close :: "bool \<Rightarrow> SOCKController \<Rightarrow> 'w tcp_sys \<Rightarrow> 'w tcp_sys option" where
  "run_close new_ok c y =
     (if g_funcClose (y_glob y) = Hook_ActiveClose (y_family y) then ActiveClose new_ok c y else None)"

definition tcp_renable :: "bool \<Rightarrow> addr \<Rightarrow> 'w tcp_sys \<Rightarrow> 'w tcp_sys option" where
  "tcp_renable new_ok x y = do {
     c \<leftarrow> conn_at x y;
     if g_renableProc (y_glob y) = Hook_REnableFunc then do {
       (c1, y1) \<leftarrow> REnableFunc run_event (run_close new_ok) c y;
       Some (set_conn x c1 (y1\<lparr>y_sink := y_sink y1\<lparr>sk_rearmed := sk_rearmed (y_sink y1) @ [x]\<rparr>\<rparr>))
     } else None
   }"


section \<open>Accepting connections\<close>

text \<open>The I/O thread with the fewest connections, the first one among equals; indices from \<open>1\<close>.\<close>

fun least_loaded :: "nat \<Rightarrow> int \<Rightarrow> nat \<Rightarrow> IOThreadInfo list \<Rightarrow> nat" where
  "least_loaded best cnt i [] = best"
| "least_loaded best cnt i (x # xs) =
     (if io_count x < cnt then least_loaded i (io_count x) (Suc i) xs else least_loaded best cnt (Suc i) xs)"

text \<open>The reaction to a failed \<open>accept\<close>: with \<open>EMFILE\<close> the reserve descriptor is used to refuse the client.\<close>

definition accept_failed :: "errno \<Rightarrow> int \<Rightarrow> 'w tcp_sys \<Rightarrow> 'w tcp_sys" where
  "accept_failed e idlefd y =
     (if e = EMFILE then
        let y1 = k_close idlefd y;
            (r, y2) = on_kern sys_accept y1;
            y3 = k_close (case r of Inl _ \<Rightarrow> -1 | Inr (fd, _) \<Rightarrow> fd) y2
        in snd (on_kern new_fd y3)
      else y)"

text \<open>Keep-alive, linger and non-blocking mode of an accepted descriptor.\<close>

definition prepare_socket :: "int \<Rightarrow> 'w tcp_sys \<Rightarrow> bool \<times> 'w tcp_sys" where
  "prepare_socket fd y =
     (let y1 = (if keepAlive (s_alive (y_sock y)) \<noteq> 0 then SetKeepAlive fd y else y);
          y2 = (if l_onoff (s_lin (y_sock y1)) \<noteq> 0 then SetLinger fd y1 else y1);
          (got, y3) = on_kern (sys_getfl fd) y2
      in if \<not> got then (False, y3) else on_kern (sys_set_nonblock fd) y3)"

text \<open>The part of \<open>HandleConnect\<close> after the controller has been placed in the table.\<close>

definition setup_connection :: "'w tcp_env \<Rightarrow> int \<Rightarrow> SOCKController \<Rightarrow> 'w tcp_sys \<Rightarrow> 'w tcp_sys option" where
  "setup_connection env fd c0 y =
     (let f = cnp (s_proc (y_sock y));
          (ctx, w) = (if f \<noteq> null then e_cnp env f (c_ip c0) (c_port c0) (y_app y) else (null, y_app y));
          y1 = y\<lparr>y_app := w\<rparr>
      in case y_info y1 of
        [] \<Rightarrow> None
      | i0 # rest \<Rightarrow> do {
          let p = least_loaded 1 (io_count i0) 2 rest;
          (ok, c, b) \<leftarrow> ctrl_init (e_malloc env) (y_cfg y1) fd ctx p c0 (y_bufs y1);
          let y2 = set_conn (nat fd) c (y1\<lparr>y_bufs := b\<rparr>);
          if \<not> ok then CloseConnection env (nat fd) y2
          else do {
            i \<leftarrow> info_at p y2;
            let (added, y3) = on_kern (epoll_add (io_epollfd i) fd
              (EPOLLERR OR EPOLLHUP OR EPOLLRDHUP OR EPOLLONESHOT OR EPOLL_DEFAULT_EVENT (y_cfg y2))) y2;
            if \<not> added then CloseConnection env (nat fd) y3 else add_count 1 p y3
          }
        })"

definition HandleConnect :: "'w tcp_env \<Rightarrow> int \<Rightarrow> 'w tcp_sys \<Rightarrow> (bool \<times> 'w tcp_sys) option" where
  "HandleConnect env idlefd y = (case on_kern sys_accept y of
     (Inl e, y1) \<Rightarrow> Some (False, accept_failed e idlefd y1)
   | (Inr (fd, ip, port), y1) \<Rightarrow>
       let (ready, y2) = prepare_socket fd y1 in
       if \<not> ready then Some (True, k_close fd y2)
       else if map_of (y_conns y2) fd \<noteq> None then Some (True, k_close fd y2)
       else let c0 = ctrl_new ip port in
         map_option (\<lambda>y3. (True, y3)) (setup_connection env fd c0 (set_conn (nat fd) c0 y2)))"

section \<open>The close list\<close>

text \<open>The loop over the list reads \<open>controller->info\<close> after the controller has been erased.\<close>

fun close_loop :: "'w tcp_env \<Rightarrow> addr list \<Rightarrow> 'w tcp_sys \<Rightarrow> 'w tcp_sys option" where
  "close_loop env [] y = Some y"
| "close_loop env (x # xs) y = do {
     c \<leftarrow> conn_at x y;
     y1 \<leftarrow> CloseConnection env x y;
     p \<leftarrow> e_stale env c;
     y2 \<leftarrow> add_count (-1) p y1;
     close_loop env xs y2
   }"

definition HandleCloseList :: "'w tcp_env \<Rightarrow> 'w tcp_sys \<Rightarrow> 'w tcp_sys option" where
  "HandleCloseList env y =
     (if length (s_cList (y_sock y)) > 10
      then close_loop env (s_cList (y_sock y)) (on_sock (\<lambda>s. s\<lparr>s_cList := []\<rparr>) y)
      else map_option (on_sock (\<lambda>s. s\<lparr>s_cList := []\<rparr>)) (close_loop env (s_cList (y_sock y)) y))"

section \<open>Events of a connection\<close>

text \<open>The thread pool and the batch buffer seen from the I/O thread.\<close>

definition tcp_emplace :: "'w tcp_env \<Rightarrow> SockTaskTcp \<Rightarrow> 'w tcp_sys \<Rightarrow> (bool \<times> 'w tcp_sys) option" where
  "tcp_emplace env t y = map_option (\<lambda>(b, s). (b, y\<lparr>y_sink := s\<rparr>)) (sink_emplace (e_seen env) t (y_sink y))"

definition tcp_append :: "'w tcp_env \<Rightarrow> SockTaskTcp \<Rightarrow> 'w tcp_sys \<Rightarrow> (bool \<times> 'w tcp_sys) option" where
  "tcp_append env t y = map_option (\<lambda>(b, s). (b, y\<lparr>y_sink := s\<rparr>)) (sink_append (e_seen env) t (y_sink y))"

definition tcp_append_bulk :: "'w tcp_env \<Rightarrow> SockTaskTcp list \<Rightarrow> u32 \<Rightarrow> 'w tcp_sys \<Rightarrow> (u32 \<times> 'w tcp_sys) option" where
  "tcp_append_bulk env ts cnt y = map_option (\<lambda>(m, s). (m, y\<lparr>y_sink := s\<rparr>)) (sink_append_bulk (e_seen env) ts cnt (y_sink y))"

definition task_append :: "'w tcp_env \<Rightarrow> addr \<Rightarrow> addr \<Rightarrow> UtilTaskTcp \<Rightarrow> 'w tcp_sys \<Rightarrow> (UtilTaskTcp \<times> 'w tcp_sys) option" where
  "task_append env x proc u y =
     util_append (y_cfg y) (tcp_emplace env) (tcp_append env) (tcp_append_bulk env) (tcp_renable (e_new env)) x proc u y"

definition task_reset :: "'w tcp_env \<Rightarrow> UtilTaskTcp \<Rightarrow> 'w tcp_sys \<Rightarrow> (UtilTaskTcp \<times> 'w tcp_sys) option" where
  "task_reset env u y = util_reset (y_cfg y) (tcp_append env) (tcp_append_bulk env) (tcp_renable (e_new env)) u y"

text \<open>A method of the controller that works on the socket, and one that works on the events.\<close>

definition on_stream :: "addr \<Rightarrow> (SOCKController \<Rightarrow> ksock \<Rightarrow> ('r \<times> SOCKController \<times> ksock) option) \<Rightarrow>
    'w tcp_sys \<Rightarrow> ('r \<times> SOCKController \<times> 'w tcp_sys) option" where
  "on_stream x f y = do {
     c \<leftarrow> conn_at x y;
     (r, c1, k1) \<leftarrow> f c (kn_sock (y_kern y) (c_fd c));
     Some (r, c1, set_conn x c1 (y\<lparr>y_kern := (y_kern y)\<lparr>kn_sock := (kn_sock (y_kern y))(c_fd c := k1)\<rparr>\<rparr>))
   }"

definition on_events :: "addr \<Rightarrow> (SOCKController \<Rightarrow> 'w tcp_sys \<Rightarrow> (bool \<times> SOCKController \<times> 'w tcp_sys) option) \<Rightarrow>
    'w tcp_sys \<Rightarrow> (bool \<times> 'w tcp_sys) option" where
  "on_events x f y = do {
     c \<leftarrow> conn_at x y;
     (r, c1, y1) \<leftarrow> f c y;
     Some (r, set_conn x c1 y1)
   }"

definition HandleRead :: "'w tcp_env \<Rightarrow> addr \<Rightarrow> UtilTaskTcp \<Rightarrow> 'w tcp_sys \<Rightarrow> (bool \<times> UtilTaskTcp \<times> 'w tcp_sys) option" where
  "HandleRead env x u y =
     (let pr = s_proc (y_sock y); mark = readMark (g_markGlobal (y_glob y)) in
      if rdp pr \<noteq> null then do {
        (ok, c1, y1) \<leftarrow> on_stream x readSocket y;
        if \<not> ok then Some (False, u, y1)
        else if isPeerClosed c1 \<and> getReadBufferSize c1 = 0 then Some (False, u, y1)
        else if mark = 0 then do { (u2, y2) \<leftarrow> task_append env x (rdp pr) u y1; Some (True, u2, y2) }
        else if getReadBufferSize c1 \<ge> ucast mark then do { (u2, y2) \<leftarrow> task_append env x (rdp pr) u y1; Some (True, u2, y2) }
        else do { (ret, y2) \<leftarrow> on_events x (renableEvents run_event) y1; Some (ret, u, y2) }
      }
      else if wtp pr \<noteq> null then do {
        (ret, y1) \<leftarrow> on_events x (enableEvents run_event False True) y;
        Some (\<not> ret, u, y1)
      }
      else Some (False, u, y))"

definition HandleWrite :: "'w tcp_env \<Rightarrow> addr \<Rightarrow> UtilTaskTcp \<Rightarrow> 'w tcp_sys \<Rightarrow> (bool \<times> UtilTaskTcp \<times> 'w tcp_sys) option" where
  "HandleWrite env x u y =
     (let pr = s_proc (y_sock y); mark = writeMark (g_markGlobal (y_glob y)) in
      if wtp pr \<noteq> null then do {
        c \<leftarrow> conn_at x y;
        if isPeerClosed c \<and> getReadBufferSize c = 0 then Some (False, u, y)
        else if mark = 0xffffffff then do { (u2, y2) \<leftarrow> task_append env x (wtp pr) u y; Some (True, u2, y2) }
        else do {
          (left, c1, y1) \<leftarrow> on_stream x ctrl_commitWrite y;
          if left = -1 then Some (False, u, y1)
          else if getWriteBufferSize c1 \<le> ucast mark then do { (u2, y2) \<leftarrow> task_append env x (wtp pr) u y1; Some (True, u2, y2) }
          else do { (ret, y2) \<leftarrow> on_events x (renableEvents run_event) y1; Some (ret, u, y2) }
        }
      }
      else if rdp pr \<noteq> null then do {
        (ret, y1) \<leftarrow> on_events x (enableEvents run_event True False) y;
        Some (\<not> ret, u, y1)
      }
      else Some (False, u, y))"


section \<open>The I/O threads\<close>

text \<open>
  One event of an I/O thread; the first result says whether the thread returns. The dereference
  of \<open>connections.find\<close> needs the connection to exist.
\<close>

definition io_event :: "'w tcp_env \<Rightarrow> int \<Rightarrow> int \<times> u32 \<Rightarrow> UtilTaskTcp \<Rightarrow> 'w tcp_sys \<Rightarrow>
    (bool \<times> UtilTaskTcp \<times> 'w tcp_sys) option" where
  "io_event env exitfd e u y =
     (let (fd, ev) = e; x = nat fd;
          finish = (\<lambda>(keep, u1, y1). if keep then Some (False, u1, y1)
            else do { c \<leftarrow> conn_at x y1; y2 \<leftarrow> ActiveClose (e_new env) c y1; Some (False, u1, y2) })
      in if fd = exitfd then Some (True, u, y)
         else if ev AND (EPOLLHUP OR EPOLLERR) \<noteq> 0 then finish (False, u, y)
         else if ev AND (EPOLLIN OR EPOLLRDHUP) \<noteq> 0 then do {
           c \<leftarrow> conn_at x y;
           let y1 = (if ev AND EPOLLRDHUP \<noteq> 0 then set_conn x (c\<lparr>c_peerClosed := True\<rparr>) y else y);
           r \<leftarrow> HandleRead env x u y1;
           finish r
         }
         else if ev AND EPOLLOUT \<noteq> 0 then do {
           c \<leftarrow> conn_at x y;
           r \<leftarrow> HandleWrite env x u y;
           finish r
         }
         else Some (False, u, y))"

fun io_events :: "'w tcp_env \<Rightarrow> int \<Rightarrow> (int \<times> u32) list \<Rightarrow> UtilTaskTcp \<Rightarrow> 'w tcp_sys \<Rightarrow>
    (bool \<times> UtilTaskTcp \<times> 'w tcp_sys) option" where
  "io_events env exitfd [] u y = Some (False, u, y)"
| "io_events env exitfd (e # es) u y = do {
     (stop, u1, y1) \<leftarrow> io_event env exitfd e u y;
     if stop then Some (True, u1, y1) else io_events env exitfd es u1 y1
   }"

text \<open>\<open>epoll_wait\<close> disarms the one-shot registrations it reports.\<close>

definition deliver :: "int \<Rightarrow> int \<Rightarrow> (int \<times> u32) list \<Rightarrow> 'w tcp_sys \<Rightarrow> 'w tcp_sys" where
  "deliver epollfd exitfd es y =
     y\<lparr>y_kern := fold (\<lambda>(fd, _) k. if fd = exitfd then k else epoll_fire epollfd fd k) es (y_kern y)\<rparr>"

text \<open>
  The loop over the results of \<open>epoll_wait\<close>. When they are used up the thread waits; an error
  other than \<open>EINTR\<close> is thrown out of the thread, which ends the process.
\<close>

datatype 'a loop_state = Running 'a | Ended 'a

fun io_loop :: "'w tcp_env \<Rightarrow> int \<Rightarrow> int \<Rightarrow> (errno + (int \<times> u32) list) list \<Rightarrow> UtilTaskTcp \<Rightarrow> 'w tcp_sys \<Rightarrow>
    (UtilTaskTcp \<times> 'w tcp_sys) loop_state option" where
  "io_loop env epollfd exitfd [] u y = Some (Running (u, y))"
| "io_loop env epollfd exitfd (Inl e # ws) u y = (if e = EINTR then io_loop env epollfd exitfd ws u y else None)"
| "io_loop env epollfd exitfd (Inr es # ws) u y = do {
     (stop, u1, y1) \<leftarrow> io_events env exitfd es u (deliver epollfd exitfd es y);
     if stop then Some (Ended (u1, y1))
     else do {
       (u2, y2) \<leftarrow> task_reset env u1 y1;
       io_loop env epollfd exitfd ws u2 y2
     }
   }"

definition IOEventLoop :: "'w tcp_env \<Rightarrow> int \<Rightarrow> int \<Rightarrow> (errno + (int \<times> u32) list) list \<Rightarrow> 'w tcp_sys \<Rightarrow>
    (UtilTaskTcp \<times> 'w tcp_sys) loop_state option" where
  "IOEventLoop env epollfd exitfd ws y =
     (let (ok, u) = util_init (y_cfg y) (e_new env) util_new in
      if \<not> ok then None
      else if \<not> e_new env then None
      else io_loop env epollfd exitfd ws u y)"

fun create_loops :: "nat \<Rightarrow> 'w tcp_sys \<Rightarrow> 'w tcp_sys" where
  "create_loops 0 y = y"
| "create_loops (Suc n) y =
     (case on_kern new_fd y of
        (Inl _, y1) \<Rightarrow> y1
      | (Inr epollfd, y1) \<Rightarrow> (case on_kern new_fd y1 of
          (Inl _, y2) \<Rightarrow> k_close epollfd y2
        | (Inr exitfd, y2) \<Rightarrow>
            let (added, y3) = on_kern (epoll_add epollfd exitfd (EPOLLIN OR EPOLLERR OR EPOLLHUP)) y2 in
            if \<not> added then k_close exitfd (k_close epollfd y3)
            else create_loops n (on_sock (\<lambda>s. s\<lparr>s_loopInfo := s_loopInfo s @
              [\<lparr>io_count = 0, io_epollfd = epollfd, io_exitfd = exitfd\<rparr>]\<rparr>) y3)))"

definition close_info :: "IOThreadInfo list \<Rightarrow> 'w tcp_sys \<Rightarrow> 'w tcp_sys" where
  "close_info is y = fold (\<lambda>i y. k_close (io_exitfd i) (k_close (io_epollfd i) y)) is y"

definition CreateIOEventLoop :: "int \<Rightarrow> 'w tcp_sys \<Rightarrow> bool \<times> 'w tcp_sys" where
  "CreateIOEventLoop num y =
     (let y1 = create_loops (nat num) y in
      if length (y_info y1) \<noteq> nat num then (False, close_info (y_info y1) y1)
      else (True, on_sock (\<lambda>s. s\<lparr>s_loops := s_loops s @ map (\<lambda>i. (io_epollfd i, io_exitfd i)) (s_loopInfo s)\<rparr>) y1))"

text \<open>\<open>loopInfo.at\<close> throws when there are more threads than entries.\<close>

definition ExitIOEventLoop :: "'w tcp_sys \<Rightarrow> 'w tcp_sys option" where
  "ExitIOEventLoop y =
     (let n = length (s_loops (y_sock y)); is = take n (y_info y) in
      if n \<le> length (y_info y) then
        Some (close_info is (y\<lparr>y_kern := fold (\<lambda>i k. sys_notify (io_exitfd i) k) is (y_kern y)\<rparr>))
      else None)"

section \<open>The acceptor thread\<close>

text \<open>
  One turn of the main loop: a request to exit that arrives before the flag is read, the two
  clock readings in milliseconds, the answer of \<open>poll\<close> to a timeout, and what the other
  threads do meanwhile.
\<close>

record 'w poll_round =
  pr_signal :: bool
  pr_now :: int
  pr_poll :: "int \<Rightarrow> errno + int"
  pr_other :: "'w tcp_sys \<Rightarrow> 'w tcp_sys option"
  pr_now2 :: int

definition HandleExit :: "'w tcp_sys \<Rightarrow> 'w tcp_sys" where
  "HandleExit y = (if y_exitFlag y then y\<lparr>y_exitFlag := False\<rparr> else y)"

definition main_timeout :: "int \<Rightarrow> int \<Rightarrow> int" where
  "main_timeout since now = (let t = to_int32 (50 - (now - since)) in if t < 0 then 0 else t)"

fun main_loop :: "'w tcp_env \<Rightarrow> int \<Rightarrow> 'w poll_round list \<Rightarrow> int \<Rightarrow> 'w tcp_sys \<Rightarrow> (bool \<times> 'w tcp_sys) loop_state option" where
  "main_loop env idlefd [] since y = Some (Running (True, y))"
| "main_loop env idlefd (r # rs) since y =
     (let y0 = (if pr_signal r then HandleExit y else y) in
      if \<not> y_exitFlag y0 then Some (Ended (True, k_close idlefd y0))
      else do {
        let ret = pr_poll r (main_timeout since (pr_now r));
        y1 \<leftarrow> pr_other r y0;
        case ret of
          Inl e \<Rightarrow> if e = EINTR then main_loop env idlefd rs since y1 else Some (Ended (False, k_close idlefd y1))
        | Inr n \<Rightarrow> do {
            y2 \<leftarrow> (if pr_now2 r - since \<ge> 50 then HandleCloseList env y1 else Some y1);
            let since2 = (if pr_now2 r - since \<ge> 50 then pr_now2 r else since);
            if n > 0 then do {
              (ok, y3) \<leftarrow> HandleConnect env idlefd y2;
              if \<not> ok then Some (Ended (False, k_close idlefd y3)) else main_loop env idlefd rs since2 y3
            } else main_loop env idlefd rs since2 y2
          }
      })"

definition MainEventLoop :: "'w tcp_env \<Rightarrow> 'w poll_round list \<Rightarrow> int \<Rightarrow> 'w tcp_sys \<Rightarrow> (bool \<times> 'w tcp_sys) loop_state option" where
  "MainEventLoop env rs start y = (case on_kern new_fd y of
     (Inl _, y1) \<Rightarrow> Some (Ended (False, y1))
   | (Inr idlefd, y1) \<Rightarrow> main_loop env idlefd rs start y1)"

section \<open>Thread counts\<close>

text \<open>
  Single precision for values in \<open>0 \<le> x < 2^24\<close>: the unit in the last place is at most \<open>1\<close>
  and at least \<open>2^-149\<close>, and a value is rounded to the nearest multiple of it, to even on a tie.
\<close>

fun ulp :: "nat \<Rightarrow> rat \<Rightarrow> rat \<Rightarrow> rat" where
  "ulp 0 x d = d"
| "ulp (Suc n) x d = (if x < d * 2 ^ 23 then ulp n x (d / 2) else d)"

definition round_even :: "rat \<Rightarrow> int" where
  "round_even x = (let f = \<lfloor>x\<rfloor>; r = x - of_int f in
     if r < 1 / 2 then f else if r > 1 / 2 then f + 1 else if even f then f else f + 1)"

definition float32 :: "rat \<Rightarrow> rat" where
  "float32 x = (let d = ulp 149 x 1 in of_int (round_even (x / d)) * d)"

text \<open>The result is the pair of I/O and worker threads. Adding \<open>0.5\<close> in double precision is exact before truncation.\<close>

definition CalculateOptimalThreadCounts :: "u32 \<Rightarrow> rat \<Rightarrow> (int \<times> int) option" where
  "CalculateOptimalThreadCounts cores weight =
     (if cores = 0 then None
      else if cores \<le> 2 then Some (1, 1)
      else let hardware = int (unat cores);
               worker = \<lfloor>float32 (of_int hardware * weight) + 1 / 2\<rfloor>;
               io = hardware - worker
        in if worker = 0 then Some (io - 1, worker + 1)
           else if io = 0 then Some (io + 1, worker - 1)
           else Some (io, worker))"


section \<open>The interface of the application\<close>

definition status_has :: "u32 \<Rightarrow> 'w tcp_sys \<Rightarrow> bool" where
  "status_has b y \<longleftrightarrow> s_status (y_sock y) AND b = b"

definition status_add :: "u32 \<Rightarrow> 'w tcp_sys \<Rightarrow> 'w tcp_sys" where
  "status_add b y = on_sock (\<lambda>s. s\<lparr>s_status := s_status s OR b\<rparr>) y"

text \<open>The exit of \<open>Listen\<close> after a failed call: the socket is closed again.\<close>

definition listen_failed :: "'w tcp_sys \<Rightarrow> 'w tcp_sys" where
  "listen_failed y = on_sock (\<lambda>s. s\<lparr>s_listenfd := -1\<rparr>) (k_close (s_listenfd (y_sock y)) y)"

definition Listen :: "'w tcp_env \<Rightarrow> u16 \<Rightarrow> string option \<Rightarrow> 'w tcp_sys \<Rightarrow> bool \<times> 'w tcp_sys" where
  "Listen env port ip y =
     (if status_has 1 y then (False, y)
      else case SOCKADDR_INIT (e_pton env) (y_family y) ip port of
        None \<Rightarrow> (False, y)
      | Some a \<Rightarrow> (case on_kern new_fd y of
          (Inl _, y1) \<Rightarrow> (False, on_sock (\<lambda>s. s\<lparr>s_listenfd := -1\<rparr>) y1)
        | (Inr fd, y1) \<Rightarrow>
            let y2 = on_sock (\<lambda>s. s\<lparr>s_listenfd := fd\<rparr>) y1;
                (ok1, y3) = on_kern (sys_setsockopt fd (SO_REUSEADDR 1)) y2
            in if \<not> ok1 then (False, listen_failed y3)
            else let (ok2, y4) = on_kern (sys_setsockopt fd (SO_REUSEPORT 1)) y3
            in if \<not> ok2 then (False, listen_failed y4)
            else let (ok3, y5) = on_kern (sys_bind fd a) y4
            in if \<not> ok3 then (False, listen_failed y5)
            else let (ok4, y6) = on_kern (sys_listen fd) y5
            in if \<not> ok4 then (False, listen_failed y6)
            else (True, status_add 1 y6)))"

definition EnableLinger :: "bool \<Rightarrow> int \<Rightarrow> 'w tcp_sys \<Rightarrow> bool \<times> 'w tcp_sys" where
  "EnableLinger enable waitSeconds y =
     (if \<not> enable then (True, on_sock (\<lambda>s. s\<lparr>s_lin := s_lin s\<lparr>l_onoff := 0\<rparr>\<rparr>) y)
      else if waitSeconds \<le> 0 then (False, y)
      else (True, on_sock (\<lambda>s. s\<lparr>s_lin := \<lparr>l_onoff = 1, l_linger = waitSeconds\<rparr>\<rparr>) y))"

definition EnableKeepAlive :: "bool \<Rightarrow> int \<Rightarrow> int \<Rightarrow> int \<Rightarrow> 'w tcp_sys \<Rightarrow> bool \<times> 'w tcp_sys" where
  "EnableKeepAlive enable seconds tries interval y =
     (if \<not> enable then (True, on_sock (\<lambda>s. s\<lparr>s_alive := s_alive s\<lparr>keepAlive := 0\<rparr>\<rparr>) y)
      else if seconds \<le> 0 \<or> tries \<le> 0 \<or> interval \<le> 0 then (False, y)
      else (True, on_sock (\<lambda>s. s\<lparr>s_alive :=
        \<lparr>keepAlive = 1, aliveSeconds = seconds, detectTimes = tries, detectInterval = interval\<rparr>\<rparr>) y))"

definition SetCallback :: "addr \<Rightarrow> addr \<Rightarrow> addr \<Rightarrow> addr \<Rightarrow> 'w tcp_sys \<Rightarrow> bool \<times> 'w tcp_sys" where
  "SetCallback cn cs rd wt y =
     (if cn = null \<and> cs = null \<and> rd = null \<and> wt = null then (False, y)
      else (True, status_add 2 (on_sock (\<lambda>s. s\<lparr>s_proc := \<lparr>rdp = rd, wtp = wt, cnp = cn, csp = cs\<rparr>\<rparr>) y)))"

definition SetWaterMark :: "u32 \<Rightarrow> u32 \<Rightarrow> 'w tcp_sys \<Rightarrow> 'w tcp_sys" where
  "SetWaterMark rm wm y = y\<lparr>y_glob := (y_glob y)\<lparr>g_markGlobal := \<lparr>readMark = rm, writeMark = wm\<rparr>\<rparr>\<rparr>"

definition SetSignalExit :: "int \<Rightarrow> 'w tcp_sys \<Rightarrow> bool \<times> 'w tcp_sys" where
  "SetSignalExit sg y =
     (if status_has 4 y then (False, y)
      else let (ok, y1) = on_kern (sys_sigaction sg) y in if \<not> ok then (False, y1) else (True, status_add 4 y1))"

definition SetExitFlag :: "'w tcp_sys \<Rightarrow> 'w tcp_sys" where
  "SetExitFlag y = y\<lparr>y_exitFlag := False\<rparr>"

text \<open>\<open>Cleanup\<close> is declared and defined, but no code calls it.\<close>

definition Cleanup :: "'w tcp_env \<Rightarrow> 'w tcp_sys \<Rightarrow> 'w tcp_sys option" where
  "Cleanup env y =
     (let f = csp (s_proc (y_sock y));
          y1 = fold (\<lambda>(fd, c) z. k_close fd (if f \<noteq> null then z\<lparr>y_app := e_csp env f c (y_app z)\<rparr> else z)) (y_conns y) y
      in map_option (\<lambda>p. on_sock (\<lambda>s. s\<lparr>s_connections := []\<rparr>) (y1\<lparr>y_bufs := p\<rparr>)) (destroy_all (y_cfg y1) (y_conns y1) (y_bufs y1)))"

section \<open>The event loop\<close>

text \<open>\<open>pool.exit(policy)\<close>: the policy, the stop of every queue, the workers until they are joined, the release.\<close>

fun exit_stops :: "nat \<Rightarrow> SockTaskTcp ThreadPool \<Rightarrow> SockTaskTcp ThreadPool option" where
  "exit_stops 0 tp = Some tp"
| "exit_stops (Suc i) tp = Option.bind (exit_stops i tp) (exit_stop i)"

definition pool_exit :: "'w tcp_env \<Rightarrow> bool \<Rightarrow> 'w tcp_sys \<Rightarrow> 'w tcp_sys option" where
  "pool_exit env policy y =
     (let t = sk_sys (y_sink y); tp = t_pool t in
      if tp_queues tp = None then Some y
      else do {
        tp1 \<leftarrow> exit_stops (length (tp_workers tp)) (exit_policy policy tp);
        let t2 = e_workers env (t\<lparr>t_pool := tp1, t_closing := True\<rparr>);
        tp3 \<leftarrow> (if joined (t_pool t2) then exit_finish (t_pool t2) else None);
        Some (y\<lparr>y_sink := y_sink y\<lparr>sk_sys := t2\<lparr>t_pool := tp3\<rparr>\<rparr>\<rparr>)
      })"

text \<open>
  The part after the guards: creation of the threads, the main loop and the shutdown. When the
  threads cannot be created, the destructor of the local pool calls \<open>exit(false)\<close>.
\<close>

definition run_loops :: "'w tcp_env \<Rightarrow> 'w poll_round list \<Rightarrow> int \<Rightarrow> int \<Rightarrow> 'w tcp_sys \<Rightarrow> (bool \<times> 'w tcp_sys) loop_state option" where
  "run_loops env rs start ioThreads y =
     (let (made, y1) = CreateIOEventLoop ioThreads y in
      if \<not> made then map_option (\<lambda>y2. Ended (False, y2)) (pool_exit env False y1)
      else do {
        m \<leftarrow> MainEventLoop env rs start y1;
        case m of Running (_, y2) \<Rightarrow> Some (Running (True, y2))
        | Ended (_, y2) \<Rightarrow> do {
            y3 \<leftarrow> pool_exit env True y2;
            y4 \<leftarrow> ExitIOEventLoop y3;
            Some (Ended (True, status_add 8 y4))
          }
      })"

definition EventLoop :: "'w tcp_env \<Rightarrow> 'w poll_round list \<Rightarrow> int \<Rightarrow> u32 \<Rightarrow> 'w tcp_sys \<Rightarrow> (bool \<times> 'w tcp_sys) loop_state option" where
  "EventLoop env rs start idx y =
     (if status_has 8 y then Some (Ended (False, y))
      else if \<not> status_has 1 y then Some (Ended (False, y))
      else if \<not> status_has 2 y then Some (Ended (False, y))
      else case CalculateOptimalThreadCounts (e_cores env) (WORKER_THREAD_RATIO (y_cfg y)) of
        None \<Rightarrow> Some (Ended (False, y))
      | Some (ioThreads, workerThreads) \<Rightarrow> do {
          (ok, tp) \<leftarrow> tp_init (e_new env) (e_amal env) (e_nsz env) (e_cores env) (word_of_int (THREADPOOL_QUEUE_LENGTH (y_cfg y)))
            (word_of_int workerThreads) (word_of_int (THREADPOOL_BATCH_SIZE_PROCESS (y_cfg y))) (tp_new idx);
          if \<not> ok then Some (Ended (False, y))
          else run_loops env rs start ioThreads (y\<lparr>y_sink := \<lparr>sk_sys = fresh_pool tp, sk_rearmed = []\<rparr>\<rparr>)
        })"

end
