(* ===== verification/SP_Server.thy ===== *)
theory SP_Server
  imports SP_Sock_Tcp
begin

text \<open>
  The invariant of the running TCP server and its preservation. \<open>server_inv\<close> ties the components
  together: the connection table, the buffers its controllers hold of the pool, the counters of
  the I/O threads, the open descriptors and the close list. The handlers of the acceptor and of
  the I/O threads keep it.
\<close>

section \<open>The connection table\<close>

text \<open>The part of a controller that the handlers of a connection leave unchanged.\<close>

definition conn_shape :: "SOCKController \<Rightarrow> int \<times> addr \<times> (BUFFER_TYPE \<times> addr) set \<times> BUFFER_TYPE \<times> BUFFER_TYPE" where
  "conn_shape c = (c_fd c, c_info c, ctrl_holds c, b_type (c_readBuf c), b_type (c_writeBuf c))"

definition conn_ok :: "nat \<Rightarrow> int \<Rightarrow> SOCKController \<Rightarrow> bool" where
  "conn_ok n fd c \<longleftrightarrow> 0 \<le> fd \<and> c_fd c = fd \<and> 0 < c_info c \<and> c_info c \<le> n \<and> ctrl_inv c \<and>
     b_type (c_readBuf c) = BUFFER_TYPE_READ \<and> b_type (c_writeBuf c) = BUFFER_TYPE_WRITE"

definition table_ok :: "nat \<Rightarrow> (int \<times> SOCKController) list \<Rightarrow> bool" where
  "table_ok n cs \<longleftrightarrow> distinct (map fst cs) \<and> (\<forall>(fd, c) \<in> set cs. conn_ok n fd c) \<and>
     (\<forall>(f, c) \<in> set cs. \<forall>(g, d) \<in> set cs. f \<noteq> g \<longrightarrow> ctrl_holds c \<inter> ctrl_holds d = {})"

definition table_holds :: "(int \<times> SOCKController) list \<Rightarrow> (BUFFER_TYPE \<times> addr) set" where
  "table_holds cs = (\<Union>(fd, c) \<in> set cs. ctrl_holds c)"

definition load :: "(int \<times> SOCKController) list \<Rightarrow> addr \<Rightarrow> int" where
  "load cs p = int (length (filter (\<lambda>(fd, c). c_info c = p) cs))"

lemma table_okI:
  assumes "distinct (map fst cs)" "\<And>f c. (f, c) \<in> set cs \<Longrightarrow> conn_ok n f c"
    "\<And>f c g d. (f, c) \<in> set cs \<Longrightarrow> (g, d) \<in> set cs \<Longrightarrow> f \<noteq> g \<Longrightarrow> ctrl_holds c \<inter> ctrl_holds d = {}"
  shows "table_ok n cs"
  using assms unfolding table_ok_def by blast

lemma table_okD:
  assumes "table_ok n cs"
  shows "distinct (map fst cs)" "(f, c) \<in> set cs \<Longrightarrow> conn_ok n f c"
    "(f, c) \<in> set cs \<Longrightarrow> (g, d) \<in> set cs \<Longrightarrow> f \<noteq> g \<Longrightarrow> ctrl_holds c \<inter> ctrl_holds d = {}"
  using assms unfolding table_ok_def by blast+

lemma table_holds_iff: "x \<in> table_holds cs \<longleftrightarrow> (\<exists>f c. (f, c) \<in> set cs \<and> x \<in> ctrl_holds c)"
  by (auto simp: table_holds_def)

lemma update_present:
  assumes "distinct (map fst cs)" "map_of cs k = Some c"
  shows "set (AList.update k v cs) = insert (k, v) (set cs - {(k, c)})"
  using assms
proof (induction cs)
  case (Cons a cs)
  obtain k' w where a: "a = (k', w)" by (cases a)
  show ?case
  proof (cases "k' = k")
    case True
    with Cons.prems a have "w = c" "(k, c) \<notin> set cs" by (auto simp: image_iff)
    with True a show ?thesis by auto
  next
    case False
    with Cons a show ?thesis by auto
  qed
qed simp

lemma update_absent: "k \<notin> fst ` set cs \<Longrightarrow> AList.update k v cs = cs @ [(k, v)]"
  by (induction cs) auto

lemma filter_update_same:
  assumes "map_of cs k = Some c" "P c = P v"
  shows "length (filter (\<lambda>(f, d). P d) (AList.update k v cs)) = length (filter (\<lambda>(f, d). P d) cs)"
  using assms by (induction cs) (auto split: if_splits)

lemma load_update: "map_of cs k = Some c \<Longrightarrow> c_info v = c_info c \<Longrightarrow> load (AList.update k v cs) p = load cs p"
  unfolding load_def using filter_update_same [of cs k c "\<lambda>d. c_info d = p" v] by simp

lemma table_update:
  assumes t: "table_ok n cs" and c: "map_of cs k = Some c" and s: "conn_shape v = conn_shape c" "ctrl_inv v"
  shows "table_ok n (AList.update k v cs)" "table_holds (AList.update k v cs) = table_holds cs"
    "fst ` set (AList.update k v cs) = fst ` set cs"
proof -
  have d: "distinct (map fst cs)" using t by (simp add: table_ok_def)
  note S = update_present [OF d c, of v]
  have kc: "(k, c) \<in> set cs" by (rule map_of_SomeD [OF c])
  have e: "c_fd v = c_fd c" "c_info v = c_info c" "ctrl_holds v = ctrl_holds c" "b_type (c_readBuf v) = b_type (c_readBuf c)"
    "b_type (c_writeBuf v) = b_type (c_writeBuf c)" using s(1) by (simp_all add: conn_shape_def)
  have "conn_ok n k c" using t kc by (auto simp: table_ok_def)
  then have v: "conn_ok n k v" using e s(2) by (simp add: conn_ok_def)
  show "table_ok n (AList.update k v cs)"
  proof (rule table_okI)
    show "distinct (map fst (AList.update k v cs))" by (rule distinct_update [OF d])
    show "conn_ok n f w" if "(f, w) \<in> set (AList.update k v cs)" for f w using that S v table_okD(2) [OF t] by auto
    fix f w g z
    assume "(f, w) \<in> set (AList.update k v cs)" "(g, z) \<in> set (AList.update k v cs)" "f \<noteq> g"
    then have "f = k \<and> w = v \<or> (f, w) \<in> set cs" "g = k \<and> z = v \<or> (g, z) \<in> set cs" using S by auto
    then show "ctrl_holds w \<inter> ctrl_holds z = {}"
      using table_okD(3) [OF t _ _ \<open>f \<noteq> g\<close>] kc e(3) \<open>f \<noteq> g\<close> by metis
  qed
  show "table_holds (AList.update k v cs) = table_holds cs" using kc e(3) by (auto simp: table_holds_def S)
  show "fst ` set (AList.update k v cs) = fst ` set cs" using kc by (force simp: dom_update)
qed

lemma table_insert:
  assumes t: "table_ok n cs" and k: "k \<notin> fst ` set cs" and v: "conn_ok n k v" "ctrl_holds v \<inter> table_holds cs = {}"
  shows "table_ok n (cs @ [(k, v)])" "table_holds (cs @ [(k, v)]) = table_holds cs \<union> ctrl_holds v"
    "load (cs @ [(k, v)]) p = load cs p + (if c_info v = p then 1 else 0)"
proof -
  have dj: "ctrl_holds v \<inter> ctrl_holds w = {}" if "(f, w) \<in> set cs" for f w using that v(2) table_holds_iff by fastforce
  show "table_ok n (cs @ [(k, v)])"
  proof (rule table_okI)
    show "distinct (map fst (cs @ [(k, v)]))" using table_okD(1) [OF t] k by simp
    show "conn_ok n f w" if "(f, w) \<in> set (cs @ [(k, v)])" for f w using that v(1) table_okD(2) [OF t] by auto
    fix f w g z
    assume "(f, w) \<in> set (cs @ [(k, v)])" "(g, z) \<in> set (cs @ [(k, v)])" "f \<noteq> g"
    then have "f = k \<and> w = v \<or> (f, w) \<in> set cs" "g = k \<and> z = v \<or> (g, z) \<in> set cs" by auto
    then show "ctrl_holds w \<inter> ctrl_holds z = {}"
      using table_okD(3) [OF t _ _ \<open>f \<noteq> g\<close>] dj \<open>f \<noteq> g\<close> by (metis Int_commute)
  qed
qed (auto simp: table_holds_def load_def)

lemma delete_present:
  assumes "distinct (map fst cs)" "map_of cs k = Some c"
  shows "set (AList.delete k cs) = set cs - {(k, c)}"
    "load cs p = load (AList.delete k cs) p + (if c_info c = p then 1 else 0)"
proof -
  show "set (AList.delete k cs) = set cs - {(k, c)}"
    using assms by (auto simp: AList.delete_eq dest: map_of_SomeD) (metis map_of_is_SomeI option.inject)
  show "load cs p = load (AList.delete k cs) p + (if c_info c = p then 1 else 0)"
    using assms
  proof (induction cs)
    case (Cons a cs)
    show ?case
    proof (cases "fst a = k")
      case True
      with Cons.prems have "snd a = c" "AList.delete k cs = cs" by auto
      with True show ?thesis by (auto simp: load_def split: prod.splits)
    next
      case False
      with Cons show ?thesis by (auto simp: load_def split: prod.splits if_splits)
    qed
  qed simp
qed

lemma table_delete:
  assumes t: "table_ok n cs" and c: "map_of cs k = Some c"
  shows "table_ok n (AList.delete k cs)" "ctrl_holds c \<inter> table_holds (AList.delete k cs) = {}"
    "table_holds cs = table_holds (AList.delete k cs) \<union> ctrl_holds c"
    "fst ` set (AList.delete k cs) = fst ` set cs - {k}"
proof -
  have d: "distinct (map fst cs)" using t by (simp add: table_ok_def)
  note S = delete_present(1) [OF d c]
  have kc: "(k, c) \<in> set cs" by (rule map_of_SomeD [OF c])
  have u: "c' = c" if "(k, c') \<in> set cs" for c' using that d c by (metis map_of_is_SomeI option.inject)
  show "table_ok n (AList.delete k cs)"
  proof (rule table_okI)
    show "distinct (map fst (AList.delete k cs))" by (rule distinct_delete [OF d])
    show "conn_ok n f w" if "(f, w) \<in> set (AList.delete k cs)" for f w using that table_okD(2) [OF t] S by blast
    show "ctrl_holds w \<inter> ctrl_holds z = {}"
      if "(f, w) \<in> set (AList.delete k cs)" "(g, z) \<in> set (AList.delete k cs)" "f \<noteq> g" for f w g z
      using that table_okD(3) [OF t, of f w g z] S by blast
  qed
  have "f \<noteq> k" if "(f, w) \<in> set cs - {(k, c)}" for f w using that u by auto
  then have "ctrl_holds c \<inter> ctrl_holds w = {}" if "(f, w) \<in> set cs - {(k, c)}" for f w
    using that table_okD(3) [OF t kc, of f w] by blast
  then show "ctrl_holds c \<inter> table_holds (AList.delete k cs) = {}"
    unfolding disjoint_iff table_holds_iff S by blast
  show "table_holds cs = table_holds (AList.delete k cs) \<union> ctrl_holds c" using kc by (auto simp: table_holds_def S)
  show "fst ` set (AList.delete k cs) = fst ` set cs - {k}" using u by (force simp: S)
qed


section \<open>The invariant\<close>

lemma on_sock_simps [simp]: "y_sock (on_sock f y) = f (y_sock y)" "y_kern (on_sock f y) = y_kern y" "y_bufs (on_sock f y) = y_bufs y"
  "y_glob (on_sock f y) = y_glob y" "y_sink (on_sock f y) = y_sink y" "y_instance (on_sock f y) = y_instance y"
  "y_family (on_sock f y) = y_family y" "y_app (on_sock f y) = y_app y" "y_exitFlag (on_sock f y) = y_exitFlag y"
  by (simp_all add: on_sock_def)

lemma k_close_simps [simp]: "y_sock (k_close fd y) = y_sock y" "y_kern (k_close fd y) = sys_close fd (y_kern y)"
  "y_bufs (k_close fd y) = y_bufs y" "y_glob (k_close fd y) = y_glob y" "y_sink (k_close fd y) = y_sink y"
  "y_instance (k_close fd y) = y_instance y" "y_family (k_close fd y) = y_family y" "y_app (k_close fd y) = y_app y"
  by (simp_all add: k_close_def)

text \<open>
  \<open>R\<close> are the descriptors that belong to nobody's connection: those open before, the listening
  socket, the reserve descriptor and the descriptors of the I/O threads.
\<close>

definition hooks_ok :: "'w tcp_sys \<Rightarrow> bool" where
  "hooks_ok y \<longleftrightarrow> g_funcEvent (y_glob y) = Hook_EnableEvent (y_family y) \<and>
     g_funcClose (y_glob y) = Hook_ActiveClose (y_family y) \<and> g_renableProc (y_glob y) = Hook_REnableFunc"

definition counts_ok :: "IOThreadInfo list \<Rightarrow> (int \<times> SOCKController) list \<Rightarrow> bool" where
  "counts_ok is cs \<longleftrightarrow> (\<forall>i < length is. io_count (is ! i) = load cs (Suc i))"

definition fds_ok :: "int set \<Rightarrow> kern \<Rightarrow> (int \<times> SOCKController) list \<Rightarrow> bool" where
  "fds_ok R k cs \<longleftrightarrow> set (kn_fds k) = R \<union> fst ` set cs \<and> R \<inter> fst ` set cs = {}"

definition core_inv :: "'w tcp_env \<Rightarrow> int set \<Rightarrow> 'w tcp_sys \<Rightarrow> bool" where
  "core_inv env R y \<longleftrightarrow> y_instance y \<and> hooks_ok y \<and> table_ok (length (y_info y)) (y_conns y) \<and>
     pool_ready (e_malloc env) (y_cfg y) (table_holds (y_conns y)) (y_bufs y) \<and>
     counts_ok (y_info y) (y_conns y) \<and> fds_ok R (y_kern y) (y_conns y)"

definition server_inv :: "'w tcp_env \<Rightarrow> int set \<Rightarrow> 'w tcp_sys \<Rightarrow> bool" where
  "server_inv env R y \<longleftrightarrow> core_inv env R y \<and> distinct (s_cList (y_sock y)) \<and>
     set (s_cList (y_sock y)) \<subseteq> nat ` fst ` set (y_conns y)"

lemma core_invD:
  assumes "core_inv env R y"
  shows "y_instance y" "hooks_ok y" "table_ok (length (y_info y)) (y_conns y)"
    "pool_ready (e_malloc env) (y_cfg y) (table_holds (y_conns y)) (y_bufs y)" "counts_ok (y_info y) (y_conns y)"
    "fds_ok R (y_kern y) (y_conns y)"
  using assms by (simp_all add: core_inv_def)

section \<open>Closing connections\<close>

lemma CloseConnection_ok:
  assumes t: "table_ok n (y_conns y)" and p: "pool_ready mal (y_cfg y) (table_holds (y_conns y)) (y_bufs y)"
    and c: "map_of (y_conns y) fd = Some c"
  shows "\<exists>w b. CloseConnection env (nat fd) y = Some (y\<lparr>y_app := w, y_bufs := b, y_kern := sys_close fd (y_kern y),
      y_sock := (y_sock y)\<lparr>s_connections := AList.delete fd (y_conns y)\<rparr>\<rparr>) \<and>
    pool_ready mal (y_cfg y) (table_holds (AList.delete fd (y_conns y))) b"
proof -
  have k: "conn_ok n fd c" by (rule table_okD(2) [OF t map_of_SomeD [OF c]])
  then have at: "conn_at (nat fd) y = Some c" and cf: "c_fd c = fd" using c by (simp_all add: conn_at_def conn_ok_def)
  note D = table_delete [OF t c]
  have "pool_ready mal (y_cfg y) (table_holds (AList.delete fd (y_conns y)) \<union> ctrl_holds c) (y_bufs y)" using p D(3) by simp
  from ctrl_destroy_ok [OF this D(2)] k obtain b where
    b: "ctrl_destroy (y_cfg y) c (y_bufs y) = Some b" "pool_ready mal (y_cfg y) (table_holds (AList.delete fd (y_conns y))) b"
    by (auto simp: conn_ok_def)
  let ?f = "csp (s_proc (y_sock y))"
  have "CloseConnection env (nat fd) y = Some (y\<lparr>y_app := if ?f \<noteq> null then e_csp env ?f c (y_app y) else y_app y,
      y_bufs := b, y_kern := sys_close fd (y_kern y), y_sock := (y_sock y)\<lparr>s_connections := AList.delete fd (y_conns y)\<rparr>\<rparr>)"
    using at cf b(1) c by (simp add: CloseConnection_def erase_conn_def k_close_def on_sock_def)
  with b(2) show ?thesis by blast
qed

lemma counts_delete:
  assumes "counts_ok is cs" "table_ok (length is) cs" "map_of cs fd = Some c"
  shows "counts_ok (is[c_info c - 1 := (is ! (c_info c - 1))\<lparr>io_count := io_count (is ! (c_info c - 1)) - 1\<rparr>]) (AList.delete fd cs)"
proof -
  have "conn_ok (length is) fd c" by (rule table_okD(2) [OF assms(2) map_of_SomeD [OF assms(3)]])
  then have p: "0 < c_info c" "c_info c \<le> length is" by (simp_all add: conn_ok_def)
  show ?thesis
    unfolding counts_ok_def
  proof (intro allI impI)
    fix i
    assume "i < length (is[c_info c - 1 := (is ! (c_info c - 1))\<lparr>io_count := io_count (is ! (c_info c - 1)) - 1\<rparr>])"
    then have i: "i < length is" by simp
    then have e: "io_count (is ! i) = load cs (Suc i)" using assms(1) by (simp add: counts_ok_def)
    have l: "load cs (Suc i) = load (AList.delete fd cs) (Suc i) + (if c_info c = Suc i then 1 else 0)"
      by (rule delete_present(2) [OF table_okD(1) [OF assms(2)] assms(3)])
    have "c_info c - 1 = i \<longleftrightarrow> c_info c = Suc i" using p(1) by linarith
    with e l i show "io_count (is[c_info c - 1 := (is ! (c_info c - 1))\<lparr>io_count := io_count (is ! (c_info c - 1)) - 1\<rparr>] ! i) =
      load (AList.delete fd cs) (Suc i)" by (cases "c_info c = Suc i") simp_all
  qed
qed

text \<open>One turn of the loop over the close list, when the freed controller is still readable.\<close>

lemma close_step:
  assumes inv: "core_inv env R y" and c: "map_of (y_conns y) fd = Some c" and st: "e_stale env c = Some (c_info c)"
  shows "\<exists>y1 y2. CloseConnection env (nat fd) y = Some y1 \<and> add_count (-1) (c_info c) y1 = Some y2 \<and> core_inv env R y2 \<and>
    y_conns y2 = AList.delete fd (y_conns y) \<and> s_cList (y_sock y2) = s_cList (y_sock y) \<and> y_glob y2 = y_glob y \<and>
    y_sink y2 = y_sink y \<and> kn_fds (y_kern y2) = removeAll fd (kn_fds (y_kern y))"
proof -
  note D = core_invD [OF inv]
  obtain w b where C: "CloseConnection env (nat fd) y = Some (y\<lparr>y_app := w, y_bufs := b, y_kern := sys_close fd (y_kern y),
      y_sock := (y_sock y)\<lparr>s_connections := AList.delete fd (y_conns y)\<rparr>\<rparr>)"
    and b: "pool_ready (e_malloc env) (y_cfg y) (table_holds (AList.delete fd (y_conns y))) b"
    using CloseConnection_ok [OF D(3,4) c, of env] by blast
  let ?y1 = "y\<lparr>y_app := w, y_bufs := b, y_kern := sys_close fd (y_kern y),
      y_sock := (y_sock y)\<lparr>s_connections := AList.delete fd (y_conns y)\<rparr>\<rparr>"
  let ?is = "(y_info y)[c_info c - 1 := (y_info y ! (c_info c - 1))\<lparr>io_count := io_count (y_info y ! (c_info c - 1)) - 1\<rparr>]"
  let ?y2 = "?y1\<lparr>y_sock := (y_sock ?y1)\<lparr>s_loopInfo := ?is\<rparr>\<rparr>"
  have k: "conn_ok (length (y_info y)) fd c" by (rule table_okD(2) [OF D(3) map_of_SomeD [OF c]])
  then have a: "add_count (-1) (c_info c) ?y1 = Some ?y2"
    by (simp add: add_count_def info_at_def conn_ok_def on_sock_def)
  have "fds_ok R (sys_close fd (y_kern y)) (AList.delete fd (y_conns y))"
  proof -
    have "fd \<in> fst ` set (y_conns y)" using map_of_SomeD [OF c] by force
    then show ?thesis using D(6) table_delete(4) [OF D(3) c] by (auto simp: fds_ok_def)
  qed
  then have "core_inv env R ?y2"
    using D(1,2) table_delete(1) [OF D(3) c] b counts_delete [OF D(5,3) c]
    by (simp add: core_inv_def hooks_ok_def)
  with C a show ?thesis by auto
qed

lemma close_loop_ok:
  assumes "core_inv env R y" "distinct xs" "set xs \<subseteq> nat ` fst ` set (y_conns y)" "\<And>c. e_stale env c = Some (c_info c)"
  shows "\<exists>y'. close_loop env xs y = Some y' \<and> core_inv env R y' \<and>
    y_conns y' = filter (\<lambda>(fd, c). nat fd \<notin> set xs) (y_conns y) \<and> s_cList (y_sock y') = s_cList (y_sock y)"
  using assms(1-3)
proof (induction xs arbitrary: y)
  case (Cons x xs)
  note D = core_invD [OF Cons.prems(1)]
  from Cons.prems(3) obtain fd c0 where x: "x = nat fd" "(fd, c0) \<in> set (y_conns y)" by auto
  have fd: "0 \<le> f" if "(f, w) \<in> set (y_conns y)" for f w using table_okD(2) [OF D(3) that] by (simp add: conn_ok_def)
  obtain c where c: "map_of (y_conns y) fd = Some c" using x(2) by (metis weak_map_of_SomeI)
  from close_step [OF Cons.prems(1) c assms(4)] obtain y1 y2 where
    s: "CloseConnection env x y = Some y1" "add_count (-1) (c_info c) y1 = Some y2" "core_inv env R y2"
      "y_conns y2 = AList.delete fd (y_conns y)" "s_cList (y_sock y2) = s_cList (y_sock y)" unfolding x(1) by blast
  have "set xs \<subseteq> nat ` fst ` set (y_conns y2)"
  proof
    fix z
    assume z: "z \<in> set xs"
    then obtain g w where g: "z = nat g" "(g, w) \<in> set (y_conns y)" using Cons.prems(3) by auto
    moreover have "g \<noteq> fd" using z g(1) x(1) Cons.prems(2) by auto
    ultimately show "z \<in> nat ` fst ` set (y_conns y2)" using s(4) table_delete(4) [OF D(3) c] by force
  qed
  from Cons.IH [OF s(3) _ this] Cons.prems(2) obtain y' where
    i: "close_loop env xs y2 = Some y'" "core_inv env R y'" "y_conns y' = filter (\<lambda>(f, c). nat f \<notin> set xs) (y_conns y2)"
      "s_cList (y_sock y') = s_cList (y_sock y)" using s(5) by auto
  have "conn_at x y = Some c" using c fd [OF x(2)] x(1) by (simp add: conn_at_def)
  then have "close_loop env (x # xs) y = Some y'" using s(1,2) i(1) assms(4) by simp
  moreover have "y_conns y' = filter (\<lambda>(f, w). nat f \<notin> set (x # xs)) (y_conns y)"
    unfolding i(3) s(4) AList.delete_eq filter_filter using fd x by (intro filter_cong) (auto simp: nat_eq_iff)
  ultimately show ?case using i(2,4) by blast
qed simp


section \<open>The close list\<close>

text \<open>The assumption on the erased controllers: the memory still holds what it held before.\<close>

definition stale_readable :: "'w tcp_env \<Rightarrow> bool" where
  "stale_readable env \<longleftrightarrow> (\<forall>c. e_stale env c = Some (c_info c))"

lemma core_inv_cList: "core_inv env R (on_sock (\<lambda>s. s\<lparr>s_cList := f s\<rparr>) y) = core_inv env R y"
  by (simp add: core_inv_def hooks_ok_def)

lemma HandleCloseList_ok:
  assumes inv: "server_inv env R y" and st: "stale_readable env"
  shows "\<exists>y'. HandleCloseList env y = Some y' \<and> server_inv env R y' \<and> s_cList (y_sock y') = [] \<and>
    y_conns y' = filter (\<lambda>(fd, c). nat fd \<notin> set (s_cList (y_sock y))) (y_conns y)"
proof -
  let ?xs = "s_cList (y_sock y)" and ?clear = "on_sock (\<lambda>s. s\<lparr>s_cList := []\<rparr>)"
  have D: "core_inv env R y" "distinct ?xs" "set ?xs \<subseteq> nat ` fst ` set (y_conns y)" using inv by (simp_all add: server_inv_def)
  have st': "\<And>c. e_stale env c = Some (c_info c)" using st by (simp add: stale_readable_def)
  show ?thesis
  proof (cases "length ?xs > 10")
    case True
    from close_loop_ok [of env R "?clear y" ?xs] D st' obtain y' where
      "close_loop env ?xs (?clear y) = Some y'" "core_inv env R y'"
      "y_conns y' = filter (\<lambda>(fd, c). nat fd \<notin> set ?xs) (y_conns y)" "s_cList (y_sock y') = []"
      by (auto simp: core_inv_cList)
    with True show ?thesis by (simp add: HandleCloseList_def server_inv_def)
  next
    case False
    from close_loop_ok [OF D st'] obtain y' where
      "close_loop env ?xs y = Some y'" "core_inv env R y'" "y_conns y' = filter (\<lambda>(fd, c). nat fd \<notin> set ?xs) (y_conns y)"
      by auto
    with False show ?thesis by (intro exI [of _ "?clear y'"]) (simp add: HandleCloseList_def server_inv_def core_inv_cList)
  qed
qed

section \<open>Accepting connections\<close>

lemma least_loaded_min:
  assumes "1 \<le> best" "best < i"
  shows "let p = least_loaded best cnt i xs in (p = best \<or> i \<le> p \<and> p < i + length xs) \<and>
    (if p = best then cnt else io_count (xs ! (p - i))) \<le> cnt \<and>
    (\<forall>j < length xs. (if p = best then cnt else io_count (xs ! (p - i))) \<le> io_count (xs ! j))"
  using assms
proof (induction best cnt i xs rule: least_loaded.induct)
  case (2 best cnt i x xs)
  show ?case
  proof (cases "io_count x < cnt")
    case True
    let ?p = "least_loaded i (io_count x) (Suc i) xs"
    from 2(1) [OF True] 2(3,4) have h: "?p = i \<or> Suc i \<le> ?p \<and> ?p < Suc i + length xs"
      "(if ?p = i then io_count x else io_count (xs ! (?p - Suc i))) \<le> io_count x"
      "\<forall>j < length xs. (if ?p = i then io_count x else io_count (xs ! (?p - Suc i))) \<le> io_count (xs ! j)"
      by (simp_all add: Let_def)
    have e: "io_count ((x # xs) ! (?p - i)) = (if ?p = i then io_count x else io_count (xs ! (?p - Suc i)))"
      using h(1) by (auto simp: nth_Cons')
    have "?p \<noteq> best" "i \<le> ?p \<and> ?p < i + length (x # xs)" using h(1) 2(4) by auto
    moreover have "io_count ((x # xs) ! (?p - i)) \<le> io_count ((x # xs) ! j)" if "j < length (x # xs)" for j
      unfolding e using h(2,3) that by (cases j) (auto split: if_splits)
    moreover have "io_count ((x # xs) ! (?p - i)) \<le> cnt" unfolding e using h(2) True by linarith
    ultimately show ?thesis using True by (simp add: Let_def del: nth_Cons_0)
  next
    case False
    let ?p = "least_loaded best cnt (Suc i) xs"
    from 2(2) [OF False] 2(3,4) have h: "?p = best \<or> Suc i \<le> ?p \<and> ?p < Suc i + length xs"
      "(if ?p = best then cnt else io_count (xs ! (?p - Suc i))) \<le> cnt"
      "\<forall>j < length xs. (if ?p = best then cnt else io_count (xs ! (?p - Suc i))) \<le> io_count (xs ! j)"
      by (simp_all add: Let_def)
    have e: "?p \<noteq> best \<Longrightarrow> io_count ((x # xs) ! (?p - i)) = io_count (xs ! (?p - Suc i))"
      using h(1) by (auto simp: nth_Cons')
    let ?v = "if ?p = best then cnt else io_count ((x # xs) ! (?p - i))"
    have v: "?v = (if ?p = best then cnt else io_count (xs ! (?p - Suc i)))" using e by simp
    have "?v \<le> io_count ((x # xs) ! j)" if "j < length (x # xs)" for j
      unfolding v using h(2,3) that False by (cases j) (auto split: if_splits)
    moreover have "?v \<le> cnt" unfolding v by (rule h(2))
    moreover have "?p = best \<or> i \<le> ?p \<and> ?p < i + length (x # xs)" using h(1) by auto
    ultimately show ?thesis using False by (simp only: least_loaded.simps if_False Let_def) blast
  qed
qed simp

text \<open>The chosen thread serves the fewest connections.\<close>

lemma least_loaded_ok:
  assumes "p = least_loaded 1 (io_count i0) 2 rest"
  shows "0 < p" "p \<le> length (i0 # rest)" "\<forall>j < length (i0 # rest). io_count ((i0 # rest) ! (p - 1)) \<le> io_count ((i0 # rest) ! j)"
proof -
  have "(1 :: nat) \<le> 1" "(1 :: nat) < 2" by simp_all
  note m = least_loaded_min [OF this, of "io_count i0" rest, folded assms, unfolded Let_def]
  note h = m [THEN conjunct1] m [THEN conjunct2, THEN conjunct1] m [THEN conjunct2, THEN conjunct2]
  show "0 < p" "p \<le> length (i0 # rest)" using h(1) by auto
  have e: "io_count ((i0 # rest) ! (p - 1)) = (if p = 1 then io_count i0 else io_count (rest ! (p - 2)))"
    using h(1) by (auto simp: nth_Cons' numeral_2_eq_2)
  show "\<forall>j < length (i0 # rest). io_count ((i0 # rest) ! (p - 1)) \<le> io_count ((i0 # rest) ! j)"
    unfolding e using h(2,3) by (auto simp: nth_Cons' split: if_splits)
qed


text \<open>Calls that change neither the descriptors nor the interest lists nor the object.\<close>

definition kern_only :: "'w tcp_sys \<Rightarrow> 'w tcp_sys \<Rightarrow> bool" where
  "kern_only y y' \<longleftrightarrow> (\<exists>k. y' = y\<lparr>y_kern := k\<rparr> \<and> same_files (y_kern y) k)"

lemma kern_only_refl [simp]: "kern_only y y"
  unfolding kern_only_def by (rule exI [of _ "y_kern y"]) simp

lemma kern_only_trans: "kern_only x y \<Longrightarrow> kern_only y z \<Longrightarrow> kern_only x z"
  unfolding kern_only_def by clarsimp (blast dest: same_files_trans)

lemma on_kern_only: "same_files (y_kern y) (snd (f (y_kern y))) \<Longrightarrow> kern_only y (snd (on_kern f y))"
  unfolding kern_only_def on_kern_def by (auto split: prod.splits)

lemma setsockopt_only: "kern_only y (snd (on_kern (sys_setsockopt fd opt) y))"
  by (rule on_kern_only) (rule simple_calls_same)

lemma SetLinger_only: "kern_only y (SetLinger fd y)"
  unfolding SetLinger_def by (rule setsockopt_only)

lemma SetKeepAlive_only: "kern_only y (SetKeepAlive fd y)"
  unfolding SetKeepAlive_def Let_def by (blast intro: setsockopt_only kern_only_trans)

lemma prepare_socket_only: "kern_only y (snd (prepare_socket fd y))"
proof -
  let ?y1 = "if keepAlive (s_alive (y_sock y)) \<noteq> 0 then SetKeepAlive fd y else y"
  let ?y2 = "if l_onoff (s_lin (y_sock ?y1)) \<noteq> 0 then SetLinger fd ?y1 else ?y1"
  let ?y3 = "snd (on_kern (sys_getfl fd) ?y2)"
  have "kern_only y ?y1" using SetKeepAlive_only [of y fd] by simp
  moreover have "kern_only ?y1 ?y2" using SetLinger_only [of ?y1 fd] by simp
  moreover have "kern_only ?y2 ?y3" by (intro on_kern_only simple_calls_same)
  moreover have "kern_only ?y3 (snd (on_kern (sys_set_nonblock fd) ?y3))" by (intro on_kern_only simple_calls_same)
  ultimately have "kern_only y ?y3" "kern_only y (snd (on_kern (sys_set_nonblock fd) ?y3))" by (blast intro: kern_only_trans)+
  moreover have "snd (prepare_socket fd y) = ?y3 \<or> snd (prepare_socket fd y) = snd (on_kern (sys_set_nonblock fd) ?y3)"
    unfolding prepare_socket_def Let_def by (auto split: prod.splits)
  ultimately show ?thesis by metis
qed

text \<open>Whether the pool can serve one more controller.\<close>

definition pool_can_serve :: "'w tcp_env \<Rightarrow> 'w tcp_sys \<Rightarrow> bool" where
  "pool_can_serve env y \<longleftrightarrow>
     (case ctrl_init (e_malloc env) (y_cfg y) 0 null null (ctrl_new [] 0) (y_bufs y) of
        None \<Rightarrow> False | Some (ok, _) \<Rightarrow> ok)"

lemma ctrl_init_same_ok:
  assumes "ctrl_init mal cfg fd ctx info (ctrl_new ip port) p = Some (ok, c, b)"
    "ctrl_init mal cfg fd' ctx' info' (ctrl_new ip' port') p = Some (ok', c', b')"
  shows "ok = ok'"
  using assms by (auto simp: ctrl_init_def ctrl_new_def split: Option.bind_splits if_splits)

lemma epoll_files [simp]: "kn_fds (snd (epoll_add ep fd ev k)) = kn_fds k" "kn_fds (snd (epoll_mod ep fd ev k)) = kn_fds k"
  "kn_fds (snd (epoll_del ep fd k)) = kn_fds k"
  by (cases "kcall k"; use kcall_files [of k] in \<open>auto simp: kern_simps split: option.splits\<close>)+

lemma counts_insert:
  assumes "counts_ok is cs" "0 < c_info c" "c_info c \<le> length is"
  shows "counts_ok (is[c_info c - 1 := (is ! (c_info c - 1))\<lparr>io_count := io_count (is ! (c_info c - 1)) + 1\<rparr>]) (cs @ [(fd, c)])"
proof -
  have "c_info c - 1 = i \<longleftrightarrow> c_info c = Suc i" for i using assms(2) by linarith
  moreover have "load (cs @ [(fd, c)]) p = load cs p + (if c_info c = p then 1 else 0)" for p by (simp add: load_def)
  ultimately show ?thesis using assms(1) by (simp add: counts_ok_def nth_list_update)
qed


text \<open>A state in which a descriptor has been accepted and is not yet in the table.\<close>

definition accepted :: "'w tcp_env \<Rightarrow> int set \<Rightarrow> int \<Rightarrow> 'w tcp_sys \<Rightarrow> bool" where
  "accepted env R fd y \<longleftrightarrow> y_instance y \<and> hooks_ok y \<and> table_ok (length (y_info y)) (y_conns y) \<and>
     pool_ready (e_malloc env) (y_cfg y) (table_holds (y_conns y)) (y_bufs y) \<and> counts_ok (y_info y) (y_conns y) \<and>
     set (kn_fds (y_kern y)) = insert fd (R \<union> fst ` set (y_conns y)) \<and> R \<inter> fst ` set (y_conns y) = {} \<and>
     fd \<notin> R \<union> fst ` set (y_conns y) \<and> 0 \<le> fd"

lemma accepted_close: "accepted env R fd y \<Longrightarrow> core_inv env R (k_close fd y)"
  by (auto simp: accepted_def core_inv_def hooks_ok_def fds_ok_def)

lemma update_snoc: "k \<notin> fst ` set cs \<Longrightarrow> AList.update k v (cs @ [(k, w)]) = cs @ [(k, v)]"
  by (induction cs) auto

lemma set_conn_twice:
  assumes "fd \<notin> fst ` set (y_conns y)" "0 \<le> fd"
  shows "set_conn (nat fd) c ((set_conn (nat fd) c0 y)\<lparr>y_app := w\<rparr>\<lparr>y_bufs := b\<rparr>) =
    y\<lparr>y_app := w, y_bufs := b, y_sock := (y_sock y)\<lparr>s_connections := y_conns y @ [(fd, c)]\<rparr>\<rparr>"
  using assms by (simp add: set_conn_def on_sock_def update_absent update_snoc)

text \<open>
  The new connection is stored, counted at the least loaded thread, and registered; when the
  registration fails everything is undone.
\<close>

lemma setup_connection_ok:
  assumes a: "accepted env R fd y" and ne: "y_info y \<noteq> []" and can: "pool_can_serve env y"
  shows "\<exists>y'. setup_connection env fd (ctrl_new ip port) (set_conn (nat fd) (ctrl_new ip port) y) = Some y' \<and>
    core_inv env R y' \<and> s_cList (y_sock y') = s_cList (y_sock y) \<and>
    (y_conns y' = y_conns y \<or> (\<exists>c. y_conns y' = y_conns y @ [(fd, c)] \<and>
       (\<forall>i < length (y_info y). load (y_conns y) (c_info c) \<le> load (y_conns y) (Suc i))))"
proof -
  from a have A: "y_instance y" "hooks_ok y" "table_ok (length (y_info y)) (y_conns y)"
    "pool_ready (e_malloc env) (y_cfg y) (table_holds (y_conns y)) (y_bufs y)" "counts_ok (y_info y) (y_conns y)"
    "set (kn_fds (y_kern y)) = insert fd (R \<union> fst ` set (y_conns y))" "R \<inter> fst ` set (y_conns y) = {}"
    "fd \<notin> R \<union> fst ` set (y_conns y)" "0 \<le> fd" by (simp_all add: accepted_def)
  then have fresh: "fd \<notin> fst ` set (y_conns y)" by blast
  let ?c0 = "ctrl_new ip port" and ?f = "cnp (s_proc (y_sock y))"
  let ?ys = "set_conn (nat fd) ?c0 y"
  obtain ctx w where cw: "(if ?f \<noteq> null then e_cnp env ?f ip port (y_app y) else (null, y_app y)) = (ctx, w)"
    by (metis surj_pair)
  obtain i0 rest where inf: "y_info y = i0 # rest" using ne by (cases "y_info y") auto
  let ?p = "least_loaded 1 (io_count i0) 2 rest"
  note L = least_loaded_ok [OF refl, of i0 rest]
  obtain ok c b where I: "ctrl_init (e_malloc env) (y_cfg y) fd ctx ?p ?c0 (y_bufs y) = Some (ok, c, b)"
    and T: "b_type (c_readBuf c) = BUFFER_TYPE_READ" "b_type (c_writeBuf c) = BUFFER_TYPE_WRITE"
    and H: "ctrl_holds c \<inter> table_holds (y_conns y) = {}"
      "pool_ready (e_malloc env) (y_cfg y) (table_holds (y_conns y) \<union> ctrl_holds c) b"
    and K: "ok \<longrightarrow> ctrl_inv c \<and> c_fd c = fd \<and> c_info c = ?p"
    using ctrl_init_ok [OF A(4), of fd ctx ?p ip port] by blast
  have "ok" using can I ctrl_init_same_ok unfolding pool_can_serve_def by (fastforce split: option.splits prod.splits)
  with K have c: "ctrl_inv c" "c_fd c = fd" "c_info c = ?p" by simp_all
  have ck: "conn_ok (length (y_info y)) fd c" using c T A(9) L(1,2) inf by (simp add: conn_ok_def)
  note TI = table_insert [OF A(3) fresh ck H(1)]
  let ?cs = "y_conns y @ [(fd, c)]"
  let ?y2 = "y\<lparr>y_app := w, y_bufs := b, y_sock := (y_sock y)\<lparr>s_connections := ?cs\<rparr>\<rparr>"
  have ia: "info_at ?p ?y2 = Some (y_info y ! (?p - 1))" using L(1,2) inf by (simp add: info_at_def)
  let ?ev = "EPOLLERR OR EPOLLHUP OR EPOLLRDHUP OR EPOLLONESHOT OR EPOLL_DEFAULT_EVENT (y_cfg y)"
  obtain added k where E: "epoll_add (io_epollfd (y_info y ! (?p - 1))) fd ?ev (y_kern y) = (added, k)" by (metis surj_pair)
  let ?y3 = "?y2\<lparr>y_kern := k\<rparr>"
  have kf: "kn_fds k = kn_fds (y_kern y)" using E by (metis epoll_files(1) snd_conv)
  have S: "setup_connection env fd ?c0 ?ys = (if \<not> added then CloseConnection env (nat fd) ?y3 else add_count 1 ?p ?y3)"
  proof -
    have v: "y_info ?ys = i0 # rest" "s_proc (y_sock ?ys) = s_proc (y_sock y)" "y_app ?ys = y_app y" "y_bufs ?ys = y_bufs y"
      "y_cfg ?ys = y_cfg y" "c_ip ?c0 = ip" "c_port ?c0 = port" by (simp_all add: set_conn_def inf ctrl_new_def)
    have cw': "(if cnp (s_proc (y_sock ?ys)) \<noteq> null then e_cnp env (cnp (s_proc (y_sock ?ys))) (c_ip ?c0) (c_port ?c0) (y_app ?ys)
        else (null, y_app ?ys)) = (ctx, w)" unfolding v by (rule cw)
    show ?thesis
      unfolding setup_connection_def Let_def cw' prod.case
      using v I \<open>ok\<close> ia E set_conn_twice [OF fresh A(9), where c = c and w = w and b = b] inf
      by (simp add: on_kern_def split del: if_split)
  qed
  show ?thesis
  proof (cases added)
    case False
    have m: "map_of (y_conns ?y3) fd = Some c" using fresh map_of_eq_None_iff [of "y_conns y" fd] by (simp add: map_add_def)
    have "table_ok (length (y_info y)) (y_conns ?y3)" "pool_ready (e_malloc env) (y_cfg ?y3) (table_holds (y_conns ?y3)) (y_bufs ?y3)"
      using TI(1,2) H(2) by simp_all
    from CloseConnection_ok [OF this m, of env] obtain w' b' where
      C: "CloseConnection env (nat fd) ?y3 = Some (?y3\<lparr>y_app := w', y_bufs := b', y_kern := sys_close fd k,
        y_sock := (y_sock ?y3)\<lparr>s_connections := AList.delete fd ?cs\<rparr>\<rparr>)"
        "pool_ready (e_malloc env) (y_cfg y) (table_holds (AList.delete fd ?cs)) b'" by auto
    have d: "AList.delete fd ?cs = y_conns y" using fresh by (simp add: AList.delete_eq filter_id_conv) force
    have "core_inv env R (?y3\<lparr>y_app := w', y_bufs := b', y_kern := sys_close fd k,
        y_sock := (y_sock ?y3)\<lparr>s_connections := y_conns y\<rparr>\<rparr>)"
      using A C(2) kf unfolding d by (auto simp: core_inv_def hooks_ok_def fds_ok_def)
    with S False C(1) show ?thesis unfolding d by auto
  next
    case True
    let ?is = "(y_info y)[?p - 1 := (y_info y ! (?p - 1))\<lparr>io_count := io_count (y_info y ! (?p - 1)) + 1\<rparr>]"
    let ?y4 = "?y3\<lparr>y_sock := (y_sock ?y3)\<lparr>s_loopInfo := ?is\<rparr>\<rparr>"
    have "add_count 1 ?p ?y3 = Some ?y4" using L(1,2) inf by (simp add: add_count_def info_at_def on_sock_def)
    moreover have "core_inv env R ?y4"
    proof -
      have "0 < c_info c" "c_info c \<le> length (y_info y)" using L(1,2) inf c(3) by simp_all
      from counts_insert [OF A(5) this, of fd] have "counts_ok ?is ?cs" unfolding c(3) .
      moreover have "fds_ok R k ?cs" using A(6-8) kf by (auto simp: fds_ok_def)
      ultimately show ?thesis using A(1,2) TI(1,2) H(2) by (simp add: core_inv_def hooks_ok_def)
    qed
    moreover have "\<forall>i < length (y_info y). load (y_conns y) (c_info c) \<le> load (y_conns y) (Suc i)"
    proof (intro allI impI)
      fix i
      assume i: "i < length (y_info y)"
      have "load (y_conns y) (c_info c) = io_count (y_info y ! (?p - 1))"
        using A(5) L(1,2) inf c(3) by (simp add: counts_ok_def)
      also have "\<dots> \<le> io_count (y_info y ! i)" using L(3) i inf by simp
      also have "\<dots> = load (y_conns y) (Suc i)" using A(5) i by (simp add: counts_ok_def)
      finally show "load (y_conns y) (c_info c) \<le> load (y_conns y) (Suc i)" .
    qed
    ultimately show ?thesis using S True by auto
  qed
qed


lemma accept_cases:
  "(\<exists>e k. sys_accept k0 = (Inl e, k) \<and> same_files k0 k) \<or>
   (\<exists>fd ip port k. sys_accept k0 = (Inr (fd, ip, port), k) \<and> kn_fds k = fd # kn_fds k0 \<and> fd \<notin> set (kn_fds k0) \<and> 0 \<le> fd)"
proof -
  obtain e k1 where k: "kcall k0 = (e, k1)" by (cases "kcall k0")
  have f: "same_files k0 k1" "kn_fds k1 = kn_fds k0" using kcall_same [of k0] k by (simp_all add: same_files_def)
  show ?thesis
    using k f first_free_fresh [of "kn_fds k0"]
    by (cases e; cases "kn_backlog k1") (auto simp: sys_accept_def Let_def)
qed

lemma core_inv_kern_only: "kern_only y y' \<Longrightarrow> core_inv env R y \<Longrightarrow> core_inv env R y'"
  by (clarsimp simp: kern_only_def core_inv_def hooks_ok_def fds_ok_def same_files_def)

lemma accepted_kern_only: "kern_only y y' \<Longrightarrow> accepted env R fd y \<Longrightarrow> accepted env R fd y'"
  by (clarsimp simp: kern_only_def accepted_def hooks_ok_def same_files_def)

text \<open>\<open>HandleConnect\<close> when \<open>accept\<close> succeeds, and when it fails with an error other than \<open>EMFILE\<close>.\<close>

lemma HandleConnect_ok:
  assumes inv: "core_inv env R y" and ne: "y_info y \<noteq> []" and can: "pool_can_serve env y"
    and acc: "sys_accept (y_kern y) = (Inr (fd, ip, port), k)"
  shows "\<exists>y'. HandleConnect env idlefd y = Some (True, y') \<and> core_inv env R y' \<and> s_cList (y_sock y') = s_cList (y_sock y) \<and>
    (y_conns y' = y_conns y \<or> (\<exists>c. y_conns y' = y_conns y @ [(fd, c)] \<and>
       (\<forall>i < length (y_info y). load (y_conns y) (c_info c) \<le> load (y_conns y) (Suc i))))"
proof -
  note D = core_invD [OF inv]
  have k: "kn_fds k = fd # kn_fds (y_kern y)" "fd \<notin> set (kn_fds (y_kern y))" "0 \<le> fd" using accept_cases [of "y_kern y"] acc by auto
  let ?y1 = "y\<lparr>y_kern := k\<rparr>"
  have a1: "accepted env R fd ?y1" using D k by (auto simp: accepted_def hooks_ok_def fds_ok_def)
  obtain ready y2 where p: "prepare_socket fd ?y1 = (ready, y2)" by (cases "prepare_socket fd ?y1")
  have o: "kern_only ?y1 y2" using prepare_socket_only [of ?y1 fd] p by simp
  then have s: "y_sock y2 = y_sock y" "y_cfg y2 = y_cfg y" "y_bufs y2 = y_bufs y" by (auto simp: kern_only_def)
  have a2: "accepted env R fd y2" by (rule accepted_kern_only [OF o a1])
  have H: "HandleConnect env idlefd y = (if \<not> ready then Some (True, k_close fd y2)
      else if map_of (y_conns y2) fd \<noteq> None then Some (True, k_close fd y2)
      else map_option (\<lambda>y3. (True, y3)) (setup_connection env fd (ctrl_new ip port) (set_conn (nat fd) (ctrl_new ip port) y2)))"
    using acc p by (simp add: HandleConnect_def on_kern_def Let_def)
  show ?thesis
  proof (cases "ready \<and> map_of (y_conns y2) fd = None")
    case True
    have "y_info y2 \<noteq> []" "pool_can_serve env y2" using ne can s by (simp_all add: pool_can_serve_def)
    from setup_connection_ok [OF a2 this, of ip port] H True s show ?thesis by fastforce
  next
    case False
    with H accepted_close [OF a2] s show ?thesis by (intro exI [of _ "k_close fd y2"]) auto
  qed
qed

lemma HandleConnect_fails:
  assumes "sys_accept (y_kern y) = (Inl e, k)" "e \<noteq> EMFILE"
  shows "HandleConnect env idlefd y = Some (False, y\<lparr>y_kern := k\<rparr>)" "core_inv env R y \<Longrightarrow> core_inv env R (y\<lparr>y_kern := k\<rparr>)"
proof -
  show "HandleConnect env idlefd y = Some (False, y\<lparr>y_kern := k\<rparr>)"
    using assms by (simp add: HandleConnect_def on_kern_def accept_failed_def)
  have "same_files (y_kern y) k" using accept_cases [of "y_kern y"] assms(1) by auto
  then have "kern_only y (y\<lparr>y_kern := k\<rparr>)" by (auto simp: kern_only_def)
  then show "core_inv env R y \<Longrightarrow> core_inv env R (y\<lparr>y_kern := k\<rparr>)" by (rule core_inv_kern_only)
qed


end
