(* ===== verification/SP_Events.thy ===== *)
theory SP_Events
  imports SP_Server
begin

text \<open>
  The handlers of the I/O threads on the server state: reading and writing a connection, arming
  its events again, handing it to the thread pool or to the close list. The server state is a
  sink of tasks in the sense of \<open>task_sink\<close>.
\<close>

section \<open>Events of a connection\<close>

text \<open>The transfers of a controller stay in its buffers.\<close>

definition same_store :: "SPBuffer \<Rightarrow> SPBuffer \<Rightarrow> bool" where
  "same_store b b' \<longleftrightarrow> b_buffer b' = b_buffer b \<and> b_type b' = b_type b"

lemma commitRead_store: "SPBuffer_commitRead n b = Some b' \<Longrightarrow> same_store b b'"
  by (auto simp: SPBuffer_commitRead_def same_store_def Let_def split: if_splits)

lemma receive_store: "Option.bind (fill xs b) (SPBuffer_commitWrite n) = Some b' \<Longrightarrow> same_store b b'"
  by (auto simp: fill_def SPBuffer_commitWrite_def same_store_def Let_def split: if_splits Option.bind_splits)

lemma readSocket_store: "readSocket_loop b k = Some (ok, b', k') \<Longrightarrow> same_store b b'"
proof (induction b k arbitrary: ok b' k' rule: readSocket_loop.induct)
  case (1 b k)
  show ?case
  proof (rule ccontr)
    assume n: "\<not> same_store b b'"
    let ?len = "SPBuffer_distanceWrite b"
    from n have nb: "b' \<noteq> b" by (auto simp: same_store_def)
    have v: "?len \<noteq> 0" "\<not> length (b_mem b) < SPBuffer_writePtr b + unat ?len"
      using 1(2) nb by (auto simp: readSocket_loop.simps [of b k] Let_def split: if_splits)
    obtain bytes xs k1 where r: "readInner (unat ?len) k = (bytes, xs, k1)" by (cases "readInner (unat ?len) k")
    have p: "bytes > 0" using 1(2) nb v r by (auto simp: readSocket_loop.simps [of b k] Let_def split: if_splits)
    obtain b1 where b1: "Option.bind (fill xs b) (SPBuffer_commitWrite (word_of_int bytes)) = Some b1"
      using 1(2) v r p by (auto simp: readSocket_loop.simps [of b k] Let_def split: if_splits option.splits)
    note s1 = receive_store [OF b1]
    have "b' = b1 \<or> readSocket_loop b1 k1 = Some (ok, b', k') \<and> \<not> bytes < int (unat ?len)"
      using 1(2) v r p b1 by (auto simp: readSocket_loop.simps [of b k] Let_def split: if_splits)
    then have "same_store b1 b'" using 1(1) [OF refl v r [symmetric] refl p b1] by (auto simp: same_store_def)
    with s1 n show False by (simp add: same_store_def)
  qed
qed

lemma commitWrite_store: "commitWrite_loop b k = Some (r, b', k') \<Longrightarrow> same_store b b'"
proof (induction b k arbitrary: r b' k' rule: commitWrite_loop.induct)
  case (1 b k)
  show ?case
  proof (rule ccontr)
    assume n: "\<not> same_store b b'"
    let ?len = "SPBuffer_distanceRead b"
    from n have nb: "b' \<noteq> b" by (auto simp: same_store_def)
    have v: "?len \<noteq> 0" using 1(2) nb by (auto simp: commitWrite_loop.simps [of b k] Let_def split: if_splits)
    obtain data where d: "buf_peek_lin (unat ?len) b = Some data"
      using 1(2) v by (auto simp: commitWrite_loop.simps [of b k] Let_def split: option.splits)
    obtain bytes k1 where w: "writeInner data k = (bytes, k1)" by (cases "writeInner data k")
    have p: "bytes > 0" using 1(2) nb v d w by (auto simp: commitWrite_loop.simps [of b k] Let_def split: if_splits)
    obtain b1 where b1: "SPBuffer_commitRead (word_of_int bytes) b = Some b1"
      using 1(2) v d w p by (auto simp: commitWrite_loop.simps [of b k] Let_def split: if_splits option.splits)
    note s1 = commitRead_store [OF b1]
    have "b' = b1 \<or> commitWrite_loop b1 k1 = Some (r, b', k') \<and> \<not> bytes < int (unat ?len)"
      using 1(2) v d w p b1 by (auto simp: commitWrite_loop.simps [of b k] Let_def split: if_splits)
    then have "same_store b1 b'" using 1(1) [OF refl v d w [symmetric] p b1] by (auto simp: same_store_def)
    with s1 n show False by (simp add: same_store_def)
  qed
qed


lemma conn_shape_read: "same_store (c_readBuf c) b \<Longrightarrow> conn_shape (c\<lparr>c_readBuf := b\<rparr>) = conn_shape c"
  by (simp add: conn_shape_def same_store_def ctrl_holds_def)

lemma conn_shape_write: "same_store (c_writeBuf c) b \<Longrightarrow> conn_shape (c\<lparr>c_writeBuf := b\<rparr>) = conn_shape c"
  by (simp add: conn_shape_def same_store_def ctrl_holds_def)

lemma conn_shape_flags [simp]: "conn_shape (c\<lparr>c_events := e\<rparr>) = conn_shape c" "conn_shape (c\<lparr>c_peerClosed := p\<rparr>) = conn_shape c"
  "ctrl_inv (c\<lparr>c_events := e\<rparr>) = ctrl_inv c" "ctrl_inv (c\<lparr>c_peerClosed := p\<rparr>) = ctrl_inv c"
  by (simp_all add: conn_shape_def ctrl_holds_def ctrl_inv_def)

lemma conn_shapeD: "conn_shape c' = conn_shape c \<Longrightarrow> c_fd c' = c_fd c \<and> c_info c' = c_info c"
  by (simp add: conn_shape_def)

text \<open>Changes that the invariant does not see.\<close>

lemma core_inv_cong:
  "kn_fds k = kn_fds (y_kern y) \<Longrightarrow> core_inv env R (y\<lparr>y_kern := k\<rparr>) = core_inv env R y"
  "core_inv env R (y\<lparr>y_sink := s\<rparr>) = core_inv env R y"
  by (simp_all add: core_inv_def hooks_ok_def fds_ok_def)

lemma set_conn_simps [simp]: "y_kern (set_conn x c y) = y_kern y" "y_sink (set_conn x c y) = y_sink y" "y_glob (set_conn x c y) = y_glob y"
  "y_bufs (set_conn x c y) = y_bufs y" "y_info (set_conn x c y) = y_info y" "s_cList (y_sock (set_conn x c y)) = s_cList (y_sock y)"
  "s_proc (y_sock (set_conn x c y)) = s_proc (y_sock y)" "y_family (set_conn x c y) = y_family y"
  "y_instance (set_conn x c y) = y_instance y" "y_conns (set_conn x c y) = AList.update (int x) c (y_conns y)"
  by (simp_all add: set_conn_def)

lemma conn_at_set_conn [simp]: "conn_at z (set_conn x c y) = (if z = x then Some c else conn_at z y)"
  by (simp add: conn_at_def update_conv')

lemma info_at_same: "y_info y' = y_info y \<Longrightarrow> info_at p y' = info_at p y"
  by (simp add: info_at_def)

lemma at_fields [simp]: "info_at p (y\<lparr>y_kern := k\<rparr>) = info_at p y" "info_at p (y\<lparr>y_sink := s\<rparr>) = info_at p y"
  "conn_at x (y\<lparr>y_kern := k\<rparr>) = conn_at x y" "conn_at x (y\<lparr>y_sink := s\<rparr>) = conn_at x y"
  by (simp_all add: info_at_def conn_at_def)

lemma core_inv_set_conn:
  assumes "core_inv env R y" "conn_at x y = Some c" "conn_shape c' = conn_shape c" "ctrl_inv c'"
  shows "core_inv env R (set_conn x c' y)"
proof -
  note D = core_invD [OF assms(1)]
  have c: "map_of (y_conns y) (int x) = Some c" using assms(2) by (simp add: conn_at_def)
  note T = table_update [OF D(3) c assms(3,4)]
  have "load (AList.update (int x) c' (y_conns y)) p = load (y_conns y) p" for p
    by (rule load_update [OF c]) (use conn_shapeD [OF assms(3)] in simp)
  then have "counts_ok (y_info y) (AList.update (int x) c' (y_conns y))" using D(5) by (simp add: counts_ok_def)
  with D(1,2,4,6) T show ?thesis by (simp add: core_inv_def hooks_ok_def fds_ok_def)
qed

lemma conn_facts:
  assumes "core_inv env R y" "conn_at x y = Some c"
  shows "c_fd c = int x" "ctrl_inv c" "info_at (c_info c) y = Some (y_info y ! (c_info c - 1))"
proof -
  have "conn_ok (length (y_info y)) (int x) c"
    by (rule table_okD(2) [OF core_invD(3) [OF assms(1)]]) (use assms(2) in \<open>simp add: conn_at_def map_of_SomeD\<close>)
  then show "c_fd c = int x" "ctrl_inv c" "info_at (c_info c) y = Some (y_info y ! (c_info c - 1))"
    by (simp_all add: conn_ok_def info_at_def)
qed

section \<open>Arming\<close>

text \<open>The registration of a connection is armed for at least one event.\<close>

definition armed :: "addr \<Rightarrow> 'w tcp_sys \<Rightarrow> bool" where
  "armed x y \<longleftrightarrow> (\<exists>c i ev. conn_at x y = Some c \<and> info_at (c_info c) y = Some i \<and>
     kn_interest (y_kern y) (io_epollfd i, c_fd c) = Some ev \<and> ev \<noteq> 0)"

text \<open>
  What a handler does to the registrations: it removes some and changes the events of those of
  the connections in \<open>F\<close>; it adds none and opens or closes no descriptor.
\<close>

definition regs_step :: "addr set \<Rightarrow> kern \<Rightarrow> kern \<Rightarrow> bool" where
  "regs_step F k k' \<longleftrightarrow> kn_fds k' = kn_fds k \<and>
     (\<forall>p. kn_interest k' p = kn_interest k p \<or> kn_interest k' p = None \<or> kn_interest k p \<noteq> None \<and> snd p \<in> int ` F)"

lemma regs_step_refl [simp]: "regs_step F k k"
  by (simp add: regs_step_def)

lemma regs_step_trans: "regs_step F k k' \<Longrightarrow> regs_step G k' k'' \<Longrightarrow> F \<subseteq> H \<Longrightarrow> G \<subseteq> H \<Longrightarrow> regs_step H k k''"
  unfolding regs_step_def by (metis image_mono subsetD)

lemma epoll_mod_cases:
  assumes "epoll_mod ep fd ev k = (r, k')"
  shows "kn_fds k' = kn_fds k \<and> kn_sock k' = kn_sock k \<and>
    (if r then kn_interest k' = (kn_interest k)((ep, fd) := Some ev) \<and> kn_interest k (ep, fd) \<noteq> None else kn_interest k' = kn_interest k)"
  using assms kcall_files [of k] by (cases "kcall k") (auto simp: epoll_mod_def split: option.splits if_splits)

lemma oneshot_not_zero: "(EPOLLERR OR EPOLLRDHUP OR EPOLLHUP OR EPOLLONESHOT) OR e \<noteq> (0 :: u32)"
proof
  assume "(EPOLLERR OR EPOLLRDHUP OR EPOLLHUP OR EPOLLONESHOT) OR e = 0"
  then have "bit ((EPOLLERR OR EPOLLRDHUP OR EPOLLHUP OR EPOLLONESHOT) OR e) 3 = bit (0 :: u32) 3" by simp
  then show False by (simp add: epoll_defs bit_or_iff)
qed


text \<open>
  What is on its way through a connection: the input that the application has not taken yet, in its order, and everything that was
  handed over for sending.
\<close>

definition flow :: "SOCKController \<Rightarrow> ksock \<Rightarrow> byte list \<times> byte list" where
  "flow c k = (contents (c_readBuf c) @ k_in k, k_out k @ contents (c_writeBuf c))"

definition flow_at :: "addr \<Rightarrow> 'w tcp_sys \<Rightarrow> (byte list \<times> byte list) option" where
  "flow_at x y = map_option (\<lambda>c. flow c (kn_sock (y_kern y) (int x))) (conn_at x y)"

lemma flow_flags [simp]: "flow (c\<lparr>c_events := e\<rparr>) k = flow c k" "flow (c\<lparr>c_peerClosed := p\<rparr>) k = flow c k"
  by (simp_all add: flow_def)

lemma flow_at_fields [simp]: "kn_sock k = kn_sock (y_kern y) \<Longrightarrow> flow_at x (y\<lparr>y_kern := k\<rparr>) = flow_at x y"
  "flow_at x (y\<lparr>y_sink := s\<rparr>) = flow_at x y" "flow_at x (on_sock (\<lambda>s. s\<lparr>s_cList := f s\<rparr>) y) = flow_at x y"
  by (simp_all add: flow_at_def conn_at_def on_sock_def)

text \<open>
  The relation between the states before and after a handler: the invariant holds and the table has the same keys; and
  no byte of any stream is lost, added or moved past another.
\<close>

definition tabled :: "'w tcp_env \<Rightarrow> int set \<Rightarrow> 'w tcp_sys \<Rightarrow> 'w tcp_sys \<Rightarrow> bool" where
  "tabled env R y y' \<longleftrightarrow> core_inv env R y' \<and> y_glob y' = y_glob y \<and> y_info y' = y_info y \<and>
     s_proc (y_sock y') = s_proc (y_sock y) \<and> (\<forall>z. (conn_at z y' = None) = (conn_at z y = None))"

definition kept :: "'w tcp_env \<Rightarrow> int set \<Rightarrow> 'w tcp_sys \<Rightarrow> 'w tcp_sys \<Rightarrow> bool" where
  "kept env R y y' \<longleftrightarrow> tabled env R y y' \<and> (\<forall>z. flow_at z y' = flow_at z y)"

lemmas kept_defs = kept_def tabled_def

lemma kept_tabled: "kept env R y y' \<Longrightarrow> tabled env R y y'"
  by (simp add: kept_def)

lemma kept_refl: "core_inv env R y \<Longrightarrow> kept env R y y"
  by (simp add: kept_defs)

lemma tabled_trans: "tabled env R x y \<Longrightarrow> tabled env R y z \<Longrightarrow> tabled env R x z"
  by (simp add: tabled_def)

lemma kept_trans: "kept env R x y \<Longrightarrow> kept env R y z \<Longrightarrow> kept env R x z"
  by (simp add: kept_defs)

lemma tabled_set_conn:
  "core_inv env R y \<Longrightarrow> conn_at x y = Some c \<Longrightarrow> conn_shape c' = conn_shape c \<Longrightarrow> ctrl_inv c' \<Longrightarrow> tabled env R y (set_conn x c' y)"
  using core_inv_set_conn [of env R y x c c'] by (simp add: tabled_def)

lemma tabled_kern: "core_inv env R y \<Longrightarrow> kn_fds k = kn_fds (y_kern y) \<Longrightarrow> tabled env R y (y\<lparr>y_kern := k\<rparr>)"
  by (simp add: tabled_def core_inv_cong conn_at_def)

lemma kept_set_conn:
  "core_inv env R y \<Longrightarrow> conn_at x y = Some c \<Longrightarrow> conn_shape c' = conn_shape c \<Longrightarrow> ctrl_inv c' \<Longrightarrow> (\<And>k. flow c' k = flow c k) \<Longrightarrow>
    kept env R y (set_conn x c' y)"
  using tabled_set_conn [of env R y x c c'] by (simp add: kept_def flow_at_def)

lemma kept_kern:
  "core_inv env R y \<Longrightarrow> kn_fds k = kn_fds (y_kern y) \<Longrightarrow> kn_sock k = kn_sock (y_kern y) \<Longrightarrow> kept env R y (y\<lparr>y_kern := k\<rparr>)"
  by (simp add: kept_def tabled_kern)

lemma kept_sink: "core_inv env R y \<Longrightarrow> kept env R y (y\<lparr>y_sink := s\<rparr>)"
  by (simp add: kept_defs core_inv_cong conn_at_def)

lemma kept_conn:
  assumes "kept env R y y'" "conn_at x y = Some c"
  obtains c' where "conn_at x y' = Some c'"
  using assms by (cases "conn_at x y'") (auto simp: kept_defs)

lemma EnableEvent_ok:
  assumes inv: "core_inv env R y" and c: "conn_at x y = Some c0" "conn_shape c = conn_shape c0"
  shows "\<exists>r k. run_event c rd wr y = Some (r, y\<lparr>y_kern := k\<rparr>) \<and> kn_fds k = kn_fds (y_kern y) \<and> kn_sock k = kn_sock (y_kern y) \<and>
    (r \<longrightarrow> armed x (y\<lparr>y_kern := k\<rparr>)) \<and> (\<not> r \<longrightarrow> kn_interest k = kn_interest (y_kern y)) \<and>
    regs_step (if r then {x} else {}) (y_kern y) k"
proof -
  note F = conn_facts [OF inv c(1)]
  have s: "c_fd c = int x" "c_info c = c_info c0" using conn_shapeD [OF c(2)] F(1) by simp_all
  let ?i = "y_info y ! (c_info c0 - 1)" and ?base = "EPOLLERR OR EPOLLRDHUP OR EPOLLHUP OR EPOLLONESHOT"
  define ev where "ev = (if wr then (if rd then ?base OR EPOLLIN else ?base) OR EPOLLOUT else if rd then ?base OR EPOLLIN else ?base)"
  have ev0: "ev \<noteq> 0"
    using oneshot_not_zero [of 0] oneshot_not_zero [of EPOLLIN] oneshot_not_zero [of EPOLLOUT] oneshot_not_zero [of "EPOLLIN OR EPOLLOUT"]
    by (auto simp: ev_def or.assoc)
  obtain r k where e: "epoll_mod (io_epollfd ?i) (int x) ev (y_kern y) = (r, k)" by (metis surj_pair)
  note E = epoll_mod_cases [OF e]
  have "run_event c rd wr y = EnableEvent c rd wr y" using core_invD(2) [OF inv] by (simp add: run_event_def hooks_ok_def)
  also have "\<dots> = Some (r, y\<lparr>y_kern := k\<rparr>)"
    using F(3) s e by (simp add: EnableEvent_def on_kern_def Let_def ev_def)
  finally have "run_event c rd wr y = Some (r, y\<lparr>y_kern := k\<rparr>)" .
  moreover have "armed x (y\<lparr>y_kern := k\<rparr>)" if r
    using that E F c(1) ev0 by (auto simp: armed_def)
  moreover have "regs_step (if r then {x} else {}) (y_kern y) k" using E by (cases r) (auto simp: regs_step_def)
  ultimately show ?thesis using E by auto
qed

lemma ActiveClose_ok:
  assumes inv: "core_inv env R y" and c: "conn_at x y = Some c0" "conn_shape c = conn_shape c0"
  shows "\<exists>y'. ActiveClose new_ok c y = Some y' \<and> kept env R y y' \<and> y_sink y' = y_sink y \<and>
    s_cList (y_sock y') = s_cList (y_sock y) @ [x] \<and> regs_step {} (y_kern y) (y_kern y') \<and> conn_at x y' = conn_at x y"
proof -
  note F = conn_facts [OF inv c(1)]
  have s: "c_fd c = int x" "c_info c = c_info c0" using conn_shapeD [OF c(2)] F(1) by simp_all
  let ?k = "snd (epoll_del (io_epollfd (y_info y ! (c_info c0 - 1))) (int x) (y_kern y))"
  let ?y' = "on_sock (\<lambda>s. s\<lparr>s_cList := s_cList s @ [x]\<rparr>) (y\<lparr>y_kern := ?k\<rparr>)"
  have "ActiveClose new_ok c y = Some ?y'"
    using F(3) s core_invD(1) [OF inv] by (simp add: ActiveClose_def on_kern_def GetInstance_def split: prod.splits)
  moreover have "core_inv env R ?y'" unfolding core_inv_cList by (simp add: core_inv_cong inv)
  moreover have "regs_step {} (y_kern y) ?k"
    using kcall_files [of "y_kern y"] by (cases "kcall (y_kern y)") (auto simp: epoll_del_def regs_step_def split: option.splits)
  moreover have "kn_sock ?k = kn_sock (y_kern y)"
    using kcall_files [of "y_kern y"] by (cases "kcall (y_kern y)") (auto simp: epoll_del_def split: option.splits)
  ultimately show ?thesis by (simp add: kept_defs conn_at_def)
qed

lemma armed_set_conn:
  "armed x y \<Longrightarrow> conn_at x y = Some c0 \<Longrightarrow> conn_shape c = conn_shape c0 \<Longrightarrow> armed x (set_conn x c y)"
  using conn_shapeD [of c c0] by (auto simp: armed_def info_at_same [OF set_conn_simps(5)])

text \<open>Arming again, by the controller and through \<open>renableProc\<close>.\<close>

lemma renable_events_ok:
  assumes inv: "core_inv env R y" and c: "conn_at x y = Some c"
  shows "\<exists>r y'. on_events x (renableEvents run_event) y = Some (r, y') \<and> kept env R y y' \<and> y_sink y' = y_sink y \<and>
    s_cList (y_sock y') = s_cList (y_sock y) \<and> (r \<longrightarrow> armed x y') \<and> regs_step (if r then {x} else {}) (y_kern y) (y_kern y')"
proof -
  obtain r k where e: "run_event c (c_events c AND EPOLLIN \<noteq> 0) (c_events c AND EPOLLOUT \<noteq> 0) y = Some (r, y\<lparr>y_kern := k\<rparr>)"
    "kn_fds k = kn_fds (y_kern y)" "r \<longrightarrow> armed x (y\<lparr>y_kern := k\<rparr>)" "regs_step (if r then {x} else {}) (y_kern y) k"
    "kn_sock k = kn_sock (y_kern y)" using EnableEvent_ok [OF inv c refl] by blast
  let ?c = "if r then c else c\<lparr>c_events := 0\<rparr>" and ?y = "y\<lparr>y_kern := k\<rparr>"
  have k: "kept env R y ?y" by (rule kept_kern [OF inv e(2,5)])
  then have inv': "core_inv env R ?y" by (simp add: kept_defs)
  have at: "conn_at x ?y = Some c" using c by (simp add: conn_at_def)
  have s: "conn_shape ?c = conn_shape c" "ctrl_inv ?c" "\<And>k. flow ?c k = flow c k" using conn_facts(2) [OF inv c] by simp_all
  have "kept env R y (set_conn x ?c ?y)" by (rule kept_trans [OF k kept_set_conn [OF inv' at s]])
  moreover have "on_events x (renableEvents run_event) y = Some (r, set_conn x ?c ?y)"
    using c e(1) by (simp add: on_events_def renableEvents_def)
  moreover have "r \<longrightarrow> armed x (set_conn x ?c ?y)" using e(3) armed_set_conn [OF _ at s(1)] by blast
  ultimately show ?thesis using e(4) by auto
qed

lemma tcp_renable_ok:
  assumes inv: "core_inv env R y" and c: "conn_at x y = Some c"
  shows "\<exists>y'. tcp_renable new_ok x y = Some y' \<and> kept env R y y' \<and>
    y_sink y' = (y_sink y)\<lparr>sk_rearmed := sk_rearmed (y_sink y) @ [x]\<rparr> \<and>
    (s_cList (y_sock y') = s_cList (y_sock y) \<and> armed x y' \<and> regs_step {x} (y_kern y) (y_kern y') \<or>
     s_cList (y_sock y') = s_cList (y_sock y) @ [x] \<and> regs_step {} (y_kern y) (y_kern y'))"
proof -
  obtain r k where e: "run_event c (c_events c AND EPOLLIN \<noteq> 0) (c_events c AND EPOLLOUT \<noteq> 0) y = Some (r, y\<lparr>y_kern := k\<rparr>)"
    "kn_fds k = kn_fds (y_kern y)" "r \<longrightarrow> armed x (y\<lparr>y_kern := k\<rparr>)" "regs_step (if r then {x} else {}) (y_kern y) k"
    "kn_sock k = kn_sock (y_kern y)" using EnableEvent_ok [OF inv c refl] by blast
  let ?c = "if r then c else c\<lparr>c_events := 0\<rparr>" and ?y = "y\<lparr>y_kern := k\<rparr>"
  let ?log = "\<lambda>z. z\<lparr>y_sink := y_sink z\<lparr>sk_rearmed := sk_rearmed (y_sink z) @ [x]\<rparr>\<rparr>"
  have k: "kept env R y ?y" by (rule kept_kern [OF inv e(2,5)])
  then have inv': "core_inv env R ?y" by (simp add: kept_defs)
  have at: "conn_at x ?y = Some c" using c by (simp add: conn_at_def)
  have s: "conn_shape ?c = conn_shape c" "ctrl_inv ?c" "\<And>k. flow ?c k = flow c k" using conn_facts(2) [OF inv c] by simp_all
  have h: "g_renableProc (y_glob y) = Hook_REnableFunc" "g_funcClose (y_glob y) = Hook_ActiveClose (y_family y)"
    using core_invD(2) [OF inv] by (simp_all add: hooks_ok_def)
  obtain z where z: "(if r then Some ?y else ctrl_close (run_close new_ok) ?c ?y) = Some z" "kept env R ?y z" "y_sink z = y_sink y"
    "if r then z = ?y else s_cList (y_sock z) = s_cList (y_sock y) @ [x]" "conn_at x z = Some c" "regs_step {} k (y_kern z)"
  proof (cases r)
    case True
    with that [of ?y] kept_refl [OF inv'] at show ?thesis by simp
  next
    case False
    from ActiveClose_ok [OF inv' at s(1), of new_ok] False h(2) at that show ?thesis
      by (auto simp: ctrl_close_def run_close_def)
  qed
  have iz: "core_inv env R (?log z)" using z(2) by (simp add: kept_defs core_inv_cong)
  have az: "conn_at x (?log z) = Some c" using z(5) by (simp add: conn_at_def)
  have "kept env R y (?log z)"
    using kept_trans [OF k z(2)] kept_sink [of env R z "y_sink z\<lparr>sk_rearmed := sk_rearmed (y_sink z) @ [x]\<rparr>"]
    by (meson kept_def tabled_def kept_trans)
  then have "kept env R y (set_conn x ?c (?log z))" by (rule kept_trans) (rule kept_set_conn [OF iz az s])
  moreover have "tcp_renable new_ok x y = Some (set_conn x ?c (?log z))"
    using c h(1) e(1) z(1) by (auto simp: tcp_renable_def REnableFunc_def renableEvents_def split: if_splits)
  moreover have "armed x (set_conn x ?c (?log z))" if r
  proof (rule armed_set_conn [OF _ az s(1)])
    show "armed x (?log z)" using that z(4) e(3) by (simp add: armed_def)
  qed
  moreover have "regs_step (if r then {x} else {}) (y_kern y) (y_kern z)" by (rule regs_step_trans [OF e(4) z(6)]) simp_all
  ultimately show ?thesis using z(3,4) by (cases r) auto
qed


section \<open>The server as a sink of tasks\<close>

definition tcp_ok :: "'w tcp_env \<Rightarrow> int set \<Rightarrow> nat \<Rightarrow> u32 \<Rightarrow> u32 \<Rightarrow> addr set \<Rightarrow> 'w tcp_sys \<Rightarrow> bool" where
  "tcp_ok env R n b len L y \<longleftrightarrow> core_inv env R y \<and> sink_ok n b len (y_sink y) \<and> (\<forall>x \<in> L. conn_at x y \<noteq> None)"

lemma tcp_ok_kept:
  "tcp_ok env R n b len L y \<Longrightarrow> kept env R y y' \<Longrightarrow> sink_ok n b len (y_sink y') \<Longrightarrow> tcp_ok env R n b len L y'"
  by (simp add: tcp_ok_def kept_defs)

lemma sink_rearmed [simp]: "sink_ok n b len (s\<lparr>sk_rearmed := xs\<rparr>) = sink_ok n b len s" "sink_taken (s\<lparr>sk_rearmed := xs\<rparr>) = sink_taken s"
  by (simp_all add: sink_ok_def sink_taken_def)

interpretation tcp: task_sink "tcp_ok env R n b len L" L len "\<lambda>y. sink_taken (y_sink y)" "\<lambda>y. sk_rearmed (y_sink y)"
  "tcp_emplace env" "tcp_append env" "tcp_append_bulk env" "tcp_renable new_ok"
  for env :: "'w tcp_env" and R n b len L new_ok
proof
  fix y :: "'w tcp_sys" and t
  assume y: "tcp_ok env R n b len L y"
  then have s: "sink_ok n b len (y_sink y)" and inv: "core_inv env R y" by (simp_all add: tcp_ok_def)
  have k: "tcp_ok env R n b len L (y\<lparr>y_sink := s'\<rparr>)" if "sink_ok n b len s'" for s'
    by (rule tcp_ok_kept [OF y kept_sink [OF inv]]) (use that in simp)
  show "\<exists>r y'. tcp_emplace env t y = Some (r, y') \<and> tcp_ok env R n b len L y' \<and>
      sink_taken (y_sink y') = sink_taken (y_sink y) @ (if r then [t] else []) \<and> sk_rearmed (y_sink y') = sk_rearmed (y_sink y)"
    using pool_sink.emplace_law [OF s, of "e_seen env" t] k by (auto simp: tcp_emplace_def)
  show "\<exists>r y'. tcp_append env t y = Some (r, y') \<and> tcp_ok env R n b len L y' \<and>
      sink_taken (y_sink y') = sink_taken (y_sink y) @ (if r then [t] else []) \<and> sk_rearmed (y_sink y') = sk_rearmed (y_sink y)"
    using pool_sink.append_law [OF s, of "e_seen env" t] k by (auto simp: tcp_append_def)
  fix cnt :: u32 and ts :: "SockTaskTcp list"
  assume "cnt \<le> len" "unat cnt \<le> length ts"
  from pool_sink.bulk_law [OF s this, of "e_seen env"] k show "\<exists>m y'. tcp_append_bulk env ts cnt y = Some (m, y') \<and> m \<le> cnt \<and>
      tcp_ok env R n b len L y' \<and> sink_taken (y_sink y') = sink_taken (y_sink y) @ take (unat m) ts \<and>
      sk_rearmed (y_sink y') = sk_rearmed (y_sink y)"
    by (auto simp: tcp_append_bulk_def)
next
  fix y :: "'w tcp_sys" and x
  assume y: "tcp_ok env R n b len L y" and x: "x \<in> L"
  then obtain c where c: "conn_at x y = Some c" by (auto simp: tcp_ok_def)
  from y have inv: "core_inv env R y" by (simp add: tcp_ok_def)
  from tcp_renable_ok [OF inv c, of new_ok] obtain y' where
    y': "tcp_renable new_ok x y = Some y'" "kept env R y y'" "y_sink y' = (y_sink y)\<lparr>sk_rearmed := sk_rearmed (y_sink y) @ [x]\<rparr>"
    by blast
  have "tcp_ok env R n b len L y'" by (rule tcp_ok_kept [OF y y'(2)]) (use y y'(3) in \<open>simp add: tcp_ok_def\<close>)
  with y' show "\<exists>y'. tcp_renable new_ok x y = Some y' \<and> tcp_ok env R n b len L y' \<and>
      sink_taken (y_sink y') = sink_taken (y_sink y) \<and> sk_rearmed (y_sink y') = sk_rearmed (y_sink y) @ [x]" by simp
qed

section \<open>Settling an event\<close>

text \<open>
  The ways to settle an event of a connection: its task is submitted, its registration is armed
  again, or it is queued for closing.
\<close>

definition submitted :: "addr \<Rightarrow> addr \<Rightarrow> 'w tcp_sys \<Rightarrow> 'w tcp_sys \<Rightarrow> bool" where
  "submitted x proc y y' \<longleftrightarrow> sink_taken (y_sink y') = sink_taken (y_sink y) @ [\<lparr>st_ctx = x, st_proc = proc\<rparr>] \<and>
     s_cList (y_sock y') = s_cList (y_sock y) \<and> regs_step {} (y_kern y) (y_kern y')"

definition rearmed :: "addr \<Rightarrow> 'w tcp_sys \<Rightarrow> 'w tcp_sys \<Rightarrow> bool" where
  "rearmed x y y' \<longleftrightarrow> sink_taken (y_sink y') = sink_taken (y_sink y) \<and> s_cList (y_sock y') = s_cList (y_sock y) \<and>
     armed x y' \<and> regs_step {x} (y_kern y) (y_kern y')"

definition closing :: "addr \<Rightarrow> 'w tcp_sys \<Rightarrow> 'w tcp_sys \<Rightarrow> bool" where
  "closing x y y' \<longleftrightarrow> sink_taken (y_sink y') = sink_taken (y_sink y) \<and> s_cList (y_sock y') = s_cList (y_sock y) @ [x] \<and>
     regs_step {} (y_kern y) (y_kern y')"

text \<open>A state that differs from \<open>y\<close> only in the streams and the controllers.\<close>

definition same_duty :: "'w tcp_sys \<Rightarrow> 'w tcp_sys \<Rightarrow> bool" where
  "same_duty y y' \<longleftrightarrow> y_sink y' = y_sink y \<and> s_cList (y_sock y') = s_cList (y_sock y) \<and> regs_step {} (y_kern y) (y_kern y')"

lemma same_duty_refl [simp]: "same_duty y y"
  by (simp add: same_duty_def)

lemma same_duty_settles:
  assumes "same_duty y y1"
  shows "submitted x proc y1 y' \<Longrightarrow> submitted x proc y y'" "rearmed x y1 y' \<Longrightarrow> rearmed x y y'" "closing x y1 y' \<Longrightarrow> closing x y y'"
    "same_duty y1 y' \<Longrightarrow> same_duty y y'"
  using assms regs_step_trans [where F = "{}" and H = "{}"] regs_step_trans [where F = "{}" and H = "{x}"]
  by (auto simp: same_duty_def submitted_def rearmed_def closing_def)

lemma on_stream_ok:
  assumes inv: "core_inv env R y" and c: "conn_at x y = Some c"
    and f: "\<And>k. \<exists>r c1 k1. f c k = Some (r, c1, k1) \<and> conn_shape c1 = conn_shape c \<and> ctrl_inv c1 \<and> flow c1 k1 = flow c k"
  shows "\<exists>r c1 y1. on_stream x f y = Some (r, c1, y1) \<and> kept env R y y1 \<and> same_duty y y1 \<and> conn_at x y1 = Some c1"
proof -
  obtain r c1 k1 where f': "f c (kn_sock (y_kern y) (c_fd c)) = Some (r, c1, k1)" "conn_shape c1 = conn_shape c" "ctrl_inv c1"
    "flow c1 k1 = flow c (kn_sock (y_kern y) (c_fd c))" using f by blast
  let ?y = "y\<lparr>y_kern := (y_kern y)\<lparr>kn_sock := (kn_sock (y_kern y))(c_fd c := k1)\<rparr>\<rparr>"
  have k: "tabled env R y ?y" by (rule tabled_kern [OF inv]) simp
  then have "core_inv env R ?y" by (simp add: tabled_def)
  from tabled_set_conn [OF this _ f'(2,3), of x] c have "tabled env R ?y (set_conn x c1 ?y)" by simp
  moreover have "flow_at z (set_conn x c1 ?y) = flow_at z y" for z
    using c f'(4) conn_facts(1) [OF inv c] by (simp add: flow_at_def)
  ultimately have "kept env R y (set_conn x c1 ?y)" using tabled_trans [OF k] by (simp add: kept_def)
  then show ?thesis using c f'(1) by (simp add: on_stream_def same_duty_def regs_step_def)
qed

lemma readSocket_shape:
  assumes "ctrl_inv c"
  shows "\<exists>r c1 k1. readSocket c k = Some (r, c1, k1) \<and> conn_shape c1 = conn_shape c \<and> ctrl_inv c1 \<and> flow c1 k1 = flow c k"
proof -
  from assms have "buf_inv (c_readBuf c)" by (simp add: ctrl_inv_def)
  from readSocket_loop_ok [OF this, of k] obtain ok b k1 where "readSocket_loop (c_readBuf c) k = Some (ok, b, k1)" "buf_inv b"
    "contents b @ k_in k1 = contents (c_readBuf c) @ k_in k" "k_out k1 = k_out k" by auto
  with readSocket_store conn_shape_read assms show ?thesis by (fastforce simp: readSocket_def ctrl_inv_def flow_def)
qed

lemma commitWrite_shape:
  assumes "ctrl_inv c"
  shows "\<exists>r c1 k1. ctrl_commitWrite c k = Some (r, c1, k1) \<and> conn_shape c1 = conn_shape c \<and> ctrl_inv c1 \<and> flow c1 k1 = flow c k"
proof -
  from assms have "buf_inv (c_writeBuf c)" by (simp add: ctrl_inv_def)
  from commitWrite_loop_ok [OF this, of k] obtain r b k1 where "commitWrite_loop (c_writeBuf c) k = Some (r, b, k1)" "buf_inv b"
    "k_out k1 @ contents b = k_out k @ contents (c_writeBuf c)" "k_in k1 = k_in k" by auto
  with commitWrite_store conn_shape_write assms show ?thesis by (fastforce simp: ctrl_commitWrite_def ctrl_inv_def flow_def)
qed


text \<open>Single submission, as long as no task of the round has been refused.\<close>

definition single_mode :: "UtilTaskTcp \<Rightarrow> 'w tcp_sys \<Rightarrow> bool" where
  "single_mode u y \<longleftrightarrow> THREADPOOL_BATCH_SIZE_SUBMIT (y_cfg y) = 1 \<and> ts_flag (ut_ts u)"

lemma task_append_single:
  assumes inv: "core_inv env R y" and sk: "sink_ok n b len (y_sink y)" and c: "conn_at x y = Some c" and m: "single_mode u y"
  shows "\<exists>u' y'. task_append env x proc u y = Some (u', y') \<and> kept env R y y' \<and> sink_ok n b len (y_sink y') \<and>
    (submitted x proc y y' \<and> y_kern y' = y_kern y \<or> rearmed x y y' \<or> closing x y y')"
proof -
  let ?t = "\<lparr>st_ctx = x, st_proc = proc\<rparr>" and ?v = "ut_ts u"
  from m have one: "THREADPOOL_BATCH_SIZE_SUBMIT (y_cfg y) = 1" "ts_flag ?v" by (simp_all add: single_mode_def)
  obtain r s where e: "sink_emplace (e_seen env) ?t (y_sink y) = Some (r, s)" "sink_ok n b len s"
    "sink_taken s = sink_taken (y_sink y) @ (if r then [?t] else [])" using pool_sink.emplace_law [OF sk] by metis
  let ?y = "y\<lparr>y_sink := s\<rparr>"
  have k: "kept env R y ?y" by (rule kept_sink [OF inv])
  show ?thesis
  proof (cases r)
    case True
    with e one have "task_append env x proc u y = Some (u, ?y)"
      by (simp add: task_append_def util_append_def single_append_def tcp_emplace_def)
    with True e k show ?thesis by (auto simp: submitted_def)
  next
    case False
    have "core_inv env R ?y" using k by (simp add: kept_defs)
    from tcp_renable_ok [OF this, of x c "e_new env"] c obtain y' where
      y': "tcp_renable (e_new env) x ?y = Some y'" "kept env R ?y y'" "y_sink y' = s\<lparr>sk_rearmed := sk_rearmed s @ [x]\<rparr>"
        "s_cList (y_sock y') = s_cList (y_sock y) \<and> armed x y' \<and> regs_step {x} (y_kern y) (y_kern y') \<or>
         s_cList (y_sock y') = s_cList (y_sock y) @ [x] \<and> regs_step {} (y_kern y) (y_kern y')" by auto
    have "task_append env x proc u y = Some (u\<lparr>ut_ts := ?v\<lparr>ts_flag := False\<rparr>\<rparr>, y')"
      using False e(1) one y'(1) by (simp add: task_append_def util_append_def single_append_def tcp_emplace_def)
    with kept_trans [OF k y'(2)] y' e False show ?thesis by (auto simp: rearmed_def closing_def)
  qed
qed

text \<open>
  What the two handlers come to once they have worked on the stream: the connection is to be closed, its task is appended, or
  it is armed again. A result of false is followed by \<open>ActiveClose\<close>.
\<close>

definition handler_run :: "'w tcp_env \<Rightarrow> addr \<Rightarrow> addr \<Rightarrow> UtilTaskTcp \<Rightarrow> 'w tcp_sys \<Rightarrow> (bool \<times> UtilTaskTcp \<times> 'w tcp_sys) option \<Rightarrow> bool" where
  "handler_run env x proc u y r \<longleftrightarrow> r = Some (False, u, y) \<or>
     r = Option.bind (task_append env x proc u y) (\<lambda>(u2, y2). Some (True, u2, y2)) \<or>
     r = Option.bind (on_events x (renableEvents run_event) y) (\<lambda>(ret, y2). Some (ret, u, y2))"

lemma HandleRead_run:
  assumes inv: "core_inv env R y" and c: "conn_at x y = Some c" and p: "rdp (s_proc (y_sock y)) \<noteq> null"
  shows "\<exists>y1 c1. kept env R y y1 \<and> same_duty y y1 \<and> conn_at x y1 = Some c1 \<and> handler_run env x (rdp (s_proc (y_sock y))) u y1 (HandleRead env x u y)"
proof -
  let ?mark = "readMark (g_markGlobal (y_glob y))"
  from on_stream_ok [where f = readSocket, OF inv c readSocket_shape [OF conn_facts(2) [OF inv c]]] obtain ok c1 y1 where
    s: "on_stream x readSocket y = Some (ok, c1, y1)" "kept env R y y1" "same_duty y y1" "conn_at x y1 = Some c1" by blast
  have "handler_run env x (rdp (s_proc (y_sock y))) u y1 (HandleRead env x u y)"
    unfolding handler_run_def using p s(1)
    by (cases "\<not> ok \<or> isPeerClosed c1 \<and> getReadBufferSize c1 = 0"; cases "?mark = 0 \<or> getReadBufferSize c1 \<ge> ucast ?mark")
       (auto simp: HandleRead_def Let_def)
  with s(2-4) show ?thesis by blast
qed

lemma HandleWrite_run:
  assumes inv: "core_inv env R y" and c: "conn_at x y = Some c" and p: "wtp (s_proc (y_sock y)) \<noteq> null"
  shows "\<exists>y1 c1. kept env R y y1 \<and> same_duty y y1 \<and> conn_at x y1 = Some c1 \<and> handler_run env x (wtp (s_proc (y_sock y))) u y1 (HandleWrite env x u y)"
proof -
  let ?mark = "writeMark (g_markGlobal (y_glob y))" and ?closed = "isPeerClosed c \<and> getReadBufferSize c = 0"
  show ?thesis
  proof (cases "?closed \<or> ?mark = 0xffffffff")
    case True
    then have "handler_run env x (wtp (s_proc (y_sock y))) u y (HandleWrite env x u y)"
      unfolding handler_run_def using p c by (cases ?closed) (auto simp: HandleWrite_def Let_def)
    with kept_refl [OF inv] c show ?thesis by auto
  next
    case False
    from on_stream_ok [where f = ctrl_commitWrite, OF inv c commitWrite_shape [OF conn_facts(2) [OF inv c]]] obtain r c1 y1 where
      s: "on_stream x ctrl_commitWrite y = Some (r, c1, y1)" "kept env R y y1" "same_duty y y1" "conn_at x y1 = Some c1" by blast
    have "handler_run env x (wtp (s_proc (y_sock y))) u y1 (HandleWrite env x u y)"
      unfolding handler_run_def using p c s(1) False
      by (cases "r = -1"; cases "getWriteBufferSize c1 \<le> ucast ?mark") (auto simp: HandleWrite_def Let_def)
    with s(2-4) show ?thesis by blast
  qed
qed


lemma cList_keys: "core_inv env R y \<Longrightarrow> nat ` fst ` set (y_conns y) = {z. conn_at z y \<noteq> None}"
proof -
  assume inv: "core_inv env R y"
  have "0 \<le> f" if "(f, c) \<in> set (y_conns y)" for f c
    using table_okD(2) [OF core_invD(3) [OF inv] that] by (simp add: conn_ok_def)
  then show ?thesis by (force simp: conn_at_def map_of_eq_None_iff image_iff)
qed

lemma server_inv_kept:
  assumes "server_inv env R y" "tabled env R y y'"
    "s_cList (y_sock y') = s_cList (y_sock y) \<or> s_cList (y_sock y') = s_cList (y_sock y) @ [x] \<and> x \<notin> set (s_cList (y_sock y)) \<and> conn_at x y \<noteq> None"
  shows "server_inv env R y'"
proof -
  have i: "core_inv env R y" "core_inv env R y'" using assms(1,2) by (simp_all add: server_inv_def kept_defs)
  have "nat ` fst ` set (y_conns y') = nat ` fst ` set (y_conns y)"
    using assms(2) unfolding cList_keys [OF i(1)] cList_keys [OF i(2)] kept_defs by auto
  with assms(1,3) i cList_keys [OF i(1)] show ?thesis by (auto simp: server_inv_def)
qed

text \<open>An event that a handler exists for: an error, data to read, or room to write.\<close>

definition has_handler :: "u32 \<Rightarrow> 'w tcp_sys \<Rightarrow> bool" where
  "has_handler ev y \<longleftrightarrow> ev AND (EPOLLHUP OR EPOLLERR) \<noteq> 0 \<or>
     ev AND (EPOLLIN OR EPOLLRDHUP) \<noteq> 0 \<and> rdp (s_proc (y_sock y)) \<noteq> null \<or>
     ev AND (EPOLLIN OR EPOLLRDHUP) = 0 \<and> ev AND EPOLLOUT \<noteq> 0 \<and> wtp (s_proc (y_sock y)) \<noteq> null"

definition proc_of :: "u32 \<Rightarrow> 'w tcp_sys \<Rightarrow> addr" where
  "proc_of ev y = (if ev AND (EPOLLIN OR EPOLLRDHUP) \<noteq> 0 then rdp (s_proc (y_sock y)) else wtp (s_proc (y_sock y)))"

text \<open>The tail of an event: a connection that is not kept goes to the close list.\<close>

definition close_event :: "'w tcp_env \<Rightarrow> addr \<Rightarrow> UtilTaskTcp \<Rightarrow> 'w tcp_sys \<Rightarrow> (bool \<times> UtilTaskTcp \<times> 'w tcp_sys) option" where
  "close_event env x u y = do { c \<leftarrow> conn_at x y; y2 \<leftarrow> ActiveClose (e_new env) c y; Some (False, u, y2) }"

definition rearm_event :: "'w tcp_env \<Rightarrow> addr \<Rightarrow> UtilTaskTcp \<Rightarrow> 'w tcp_sys \<Rightarrow> (bool \<times> UtilTaskTcp \<times> 'w tcp_sys) option" where
  "rearm_event env x u y = do {
     (ret, y2) \<leftarrow> on_events x (renableEvents run_event) y;
     if ret then Some (False, u, y2) else close_event env x u y2
   }"

lemma close_event_ok:
  assumes inv: "core_inv env R y" and c: "conn_at x y = Some c"
  shows "\<exists>y'. close_event env x u y = Some (False, u, y') \<and> kept env R y y' \<and> y_sink y' = y_sink y \<and> closing x y y'"
  using ActiveClose_ok [OF inv c refl, of "e_new env"] c by (auto simp: close_event_def closing_def)

lemma rearm_event_ok:
  assumes inv: "core_inv env R y" and c: "conn_at x y = Some c"
  shows "\<exists>y'. rearm_event env x u y = Some (False, u, y') \<and> kept env R y y' \<and> y_sink y' = y_sink y \<and> (rearmed x y y' \<or> closing x y y')"
proof -
  from renable_events_ok [OF assms] obtain r y1 where
    e: "on_events x (renableEvents run_event) y = Some (r, y1)" "kept env R y y1" "y_sink y1 = y_sink y"
      "s_cList (y_sock y1) = s_cList (y_sock y)" "r \<longrightarrow> armed x y1" "regs_step (if r then {x} else {}) (y_kern y) (y_kern y1)" by blast
  show ?thesis
  proof (cases r)
    case True
    with e show ?thesis by (simp add: rearm_event_def rearmed_def)
  next
    case False
    then have d: "same_duty y y1" using e by (simp add: same_duty_def)
    obtain c1 where c1: "conn_at x y1 = Some c1" using kept_conn [OF e(2) c] .
    have "core_inv env R y1" using e(2) by (simp add: kept_defs)
    from close_event_ok [OF this c1, of u] kept_trans [OF e(2)] e False same_duty_settles(3) [OF d] show ?thesis by (auto simp: rearm_event_def)
  qed
qed

text \<open>An event of a connection comes to one of the three, after work on its stream and flags only.\<close>

lemma io_event_run:
  assumes inv: "core_inv env R y" and c: "conn_at (nat fd) y = Some c" and fd: "fd \<noteq> exitfd" and h: "has_handler ev y"
  obtains y1 c1 where "kept env R y y1" "same_duty y y1" "conn_at (nat fd) y1 = Some c1"
    "io_event env exitfd (fd, ev) u y = close_event env (nat fd) u y1 \<or>
     io_event env exitfd (fd, ev) u y = Option.bind (task_append env (nat fd) (proc_of ev y) u y1) (\<lambda>(u2, y2). Some (False, u2, y2)) \<or>
     io_event env exitfd (fd, ev) u y = rearm_event env (nat fd) u y1"
proof -
  let ?x = "nat fd"
  let ?finish = "\<lambda>(keep, u1, y1). if keep then Some (False, u1, y1) else close_event env ?x u1 y1"
  have fin: "Option.bind r ?finish = close_event env ?x u y1 \<or>
      Option.bind r ?finish = Option.bind (task_append env ?x proc u y1) (\<lambda>(u2, y2). Some (False, u2, y2)) \<or>
      Option.bind r ?finish = rearm_event env ?x u y1" if "handler_run env ?x proc u y1 r" for r proc y1
    using that unfolding handler_run_def rearm_event_def
    by (cases "on_events ?x (renableEvents run_event) y1"; cases "task_append env ?x proc u y1") auto
  consider "ev AND (EPOLLHUP OR EPOLLERR) \<noteq> 0"
    | "ev AND (EPOLLHUP OR EPOLLERR) = 0" "ev AND (EPOLLIN OR EPOLLRDHUP) \<noteq> 0" "rdp (s_proc (y_sock y)) \<noteq> null"
    | "ev AND (EPOLLHUP OR EPOLLERR) = 0" "ev AND (EPOLLIN OR EPOLLRDHUP) = 0" "ev AND EPOLLOUT \<noteq> 0" "wtp (s_proc (y_sock y)) \<noteq> null"
    using h by (auto simp: has_handler_def)
  then show thesis
  proof cases
    case 1
    then have "io_event env exitfd (fd, ev) u y = close_event env ?x u y" using fd by (simp add: io_event_def Let_def close_event_def)
    with that [OF kept_refl [OF inv] _ c] show ?thesis by simp
  next
    case 2
    let ?c = "c\<lparr>c_peerClosed := True\<rparr>"
    let ?y = "if ev AND EPOLLRDHUP \<noteq> 0 then set_conn ?x ?c y else y"
    have k: "kept env R y ?y" "same_duty y ?y" using kept_set_conn [OF inv c, of ?c] conn_facts(2) [OF inv c] kept_refl [OF inv]
      by (simp_all add: same_duty_def)
    obtain c' where c': "conn_at ?x ?y = Some c'" using kept_conn [OF k(1) c] .
    have i: "core_inv env R ?y" "s_proc (y_sock ?y) = s_proc (y_sock y)" using k by (simp_all add: kept_defs)
    from HandleRead_run [OF i(1) c', of u] 2(3) i(2) obtain y1 c1 where
      r: "kept env R ?y y1" "same_duty ?y y1" "conn_at ?x y1 = Some c1" "handler_run env ?x (proc_of ev y) u y1 (HandleRead env ?x u ?y)"
      by (auto simp: proc_of_def 2(2))
    have "io_event env exitfd (fd, ev) u y = Option.bind (HandleRead env ?x u ?y) ?finish"
      unfolding close_event_def using 2 fd c by (simp add: io_event_def Let_def)
    with fin [OF r(4)] show ?thesis
      by (intro that [OF kept_trans [OF k(1) r(1)] same_duty_settles(4) [OF k(2) r(2)] r(3)]) simp
  next
    case 3
    from HandleWrite_run [OF inv c 3(4), of u] obtain y1 c1 where
      r: "kept env R y y1" "same_duty y y1" "conn_at ?x y1 = Some c1" "handler_run env ?x (proc_of ev y) u y1 (HandleWrite env ?x u y)"
      by (auto simp: proc_of_def 3(2))
    have "io_event env exitfd (fd, ev) u y = Option.bind (HandleWrite env ?x u y) ?finish"
      unfolding close_event_def using 3 fd c by (simp add: io_event_def Let_def)
    with fin [OF r(4)] show ?thesis by (intro that [OF r(1-3)]) simp
  qed
qed

lemma io_event_handled:
  assumes inv: "core_inv env R y" and sk: "sink_ok n b len (y_sink y)" and c: "conn_at (nat fd) y = Some c" and m: "single_mode u y"
    and fd: "fd \<noteq> exitfd" and h: "has_handler ev y"
  shows "\<exists>u' y'. io_event env exitfd (fd, ev) u y = Some (False, u', y') \<and> kept env R y y' \<and> sink_ok n b len (y_sink y') \<and>
    (submitted (nat fd) (proc_of ev y) y y' \<or> rearmed (nat fd) y y' \<or> closing (nat fd) y y')"
proof (rule io_event_run [OF inv c fd h, of u])
  fix y1 c1
  assume k: "kept env R y y1" "same_duty y y1" and c1: "conn_at (nat fd) y1 = Some c1"
  assume run: "io_event env exitfd (fd, ev) u y = close_event env (nat fd) u y1 \<or>
     io_event env exitfd (fd, ev) u y = Option.bind (task_append env (nat fd) (proc_of ev y) u y1) (\<lambda>(u2, y2). Some (False, u2, y2)) \<or>
     io_event env exitfd (fd, ev) u y = rearm_event env (nat fd) u y1"
  have i: "core_inv env R y1" "sink_ok n b len (y_sink y1)" "single_mode u y1"
    using k sk m by (simp_all add: kept_defs same_duty_def single_mode_def)
  have "\<exists>u' y'. io_event env exitfd (fd, ev) u y = Some (False, u', y') \<and> kept env R y1 y' \<and> sink_ok n b len (y_sink y') \<and>
    (submitted (nat fd) (proc_of ev y) y1 y' \<or> rearmed (nat fd) y1 y' \<or> closing (nat fd) y1 y')"
    using run close_event_ok [OF i(1) c1, of u] rearm_event_ok [OF i(1) c1, of u] task_append_single [OF i(1,2) c1 i(3), of "proc_of ev y"] i(2)
    by (elim disjE) auto
  with kept_trans [OF k(1)] same_duty_settles(1-3) [OF k(2)] show ?thesis by blast
qed

end
