(* ===== verification/SP_Tcp_Props.thy ===== *)
theory SP_Tcp_Props
  imports SP_Events
begin

text \<open>
  Properties of the TCP server: what its start and its end do with descriptors and memory, the
  number of threads, the behaviour when memory runs out, and the defects of the handlers.
\<close>

section \<open>A sample server\<close>

text \<open>Buffers are allocated in single pairs and tasks are submitted one by one.\<close>

definition server_cfg :: SPTcpConfig where
  "server_cfg = tcp_config_default\<lparr>BUFFER_POOL_PEER_ALLOC_NUM := 1, BUFFER_POOL_MIN_BLOCK_NUM := 1, THREADPOOL_BATCH_SIZE_SUBMIT := 1\<rparr>"

definition server_env :: "unit tcp_env" where
  "server_env = \<lparr>e_cnp = (\<lambda>_ _ _ w. (null, w)), e_csp = (\<lambda>_ _ w. w), e_malloc = bump_malloc, e_new = True, e_amal = (\<lambda>_ _. 64),
     e_nsz = 16, e_seen = seen_first, e_stale = (\<lambda>c. Some (c_info c)), e_pton = (\<lambda>_ _. Some [127, 0, 0, 1]), e_cores = 4, e_workers = id\<rparr>"

definition kern0 :: kern where
  "kern0 = \<lparr>kn_fds = [0, 1, 2, 3, 4, 5, 6], kn_script = [], kn_backlog = [(''10.0.0.1'', 4000, sample_sock)],
     kn_interest = (\<lambda>_. None)((4, 5) := Some EPOLLIN), kn_opts = [], kn_nonblock = [], kn_bound = [], kn_listening = [3],
     kn_signalled = [], kn_handlers = [], kn_sock = (\<lambda>_. sample_sock)\<rparr>"

text \<open>Descriptor 3 listens, 4 and 5 belong to the I/O thread, 6 is the reserve. No connection yet.\<close>

definition server0 :: "unit tcp_sys" where
  "server0 = \<lparr>y_family = ADDRESS_FAMILY_INET, y_instance = True,
     y_sock = tcp_new\<lparr>s_status := 3, s_listenfd := 3, s_proc := \<lparr>rdp = 100, wtp = 200, cnp = null, csp = null\<rparr>,
       s_loops := [(4, 5)], s_loopInfo := [\<lparr>io_count = 0, io_epollfd = 4, io_exitfd = 5\<rparr>]\<rparr>,
     y_exitFlag = True,
     y_glob = \<lparr>g_tcpConfig = server_cfg, g_udpConfig = udp_config_default, g_markGlobal = \<lparr>readMark = 0, writeMark = 0\<rparr>,
       g_minLevel = LOG_LEVEL_NONE, g_renableProc = Hook_REnableFunc, g_funcClose = Hook_ActiveClose ADDRESS_FAMILY_INET,
       g_funcEvent = Hook_EnableEvent ADDRESS_FAMILY_INET\<rparr>,
     y_kern = kern0, y_bufs = pool_init (\<lambda>_. 0), y_sink = sample_sink, y_app = ()\<rparr>"

text \<open>The same server with connection 7, whose event has just been delivered.\<close>

definition made :: "bool \<times> SOCKController \<times> bpool" where
  "made = the (ctrl_init bump_malloc server_cfg 7 null 1 (ctrl_new ''10.0.0.1'' 4000) (pool_init (\<lambda>_. 0)))"

definition server1 :: "unit tcp_sys" where
  "server1 = server0\<lparr>y_bufs := snd (snd made), y_kern := kern0\<lparr>kn_fds := 7 # kn_fds kern0, kn_interest := (kn_interest kern0)((4, 7) := Some 0)\<rparr>,
     y_sock := (y_sock server0)\<lparr>s_connections := [(7, fst (snd made))], s_loopInfo := [\<lparr>io_count = 1, io_epollfd = 4, io_exitfd = 5\<rparr>]\<rparr>\<rparr>"

definition server_fds :: "int set" where
  "server_fds = {0, 1, 2, 3, 4, 5, 6}"

lemma server_sizes: "peerBSize server_cfg BUFFER_TYPE_READ = 16400" "peerBSize server_cfg BUFFER_TYPE_WRITE = 32784"
  "totalSize server_cfg 1 = 49188" "BUFFER_POOL_PEER_ALLOC_NUM server_cfg = 1"
  by (simp_all add: peerBSize_def totalSize_def cfg_bsize_def server_cfg_def tcp_config_default_def to_int32_def)

lemma server_pool_config: "pool_config server_cfg"
  using tcp_config_default_ok unfolding pool_config_def
  by (simp add: server_cfg_def tcp_config_default_def tcp_config_ok_def tcp_config_typed_def is_int_def)

lemma server_ctrl_init: "\<exists>c b. ctrl_init bump_malloc server_cfg fd ctx info (ctrl_new ip port) (pool_init m) = Some (True, c, b)"
proof -
  have "\<exists>r p. GetBuffer bump_malloc server_cfg BUFFER_TYPE_READ (pool_init m) = Some (r, p) \<and> r \<noteq> null \<and>
      (\<exists>r' p'. GetBuffer bump_malloc server_cfg BUFFER_TYPE_WRITE p = Some (r', p') \<and> r' \<noteq> null)"
    by (simp add: GetBuffer_def GetReadBufferInner_def GetWriteBufferInner_def GetBufferInner_def Alloc_def server_sizes
      Alloc_loop.simps [of _ _ 1] tryAlloc_def Let_def to_size_t_def bump_malloc_def addr_limit_def pool_init_def link_nodes.simps
      take_node_def valid_at_def)
  then show ?thesis by (auto simp: ctrl_init_def ctrl_new_def SPBuffer_Init_def SPBuffer_new_def)
qed

lemmas server_simps = server0_def server_env_def kern0_def server_fds_def tcp_new_def

lemma server0_ready: "pool_ready bump_malloc server_cfg {} (pool_init (\<lambda>_. 0))"
  by (rule pool_ready_init [OF bump_malloc_ok server_pool_config])

lemma server0_inv: "server_inv server_env server_fds server0"
  using server0_ready
  by (auto simp: server_inv_def core_inv_def hooks_ok_def table_ok_def table_holds_def counts_ok_def load_def fds_ok_def server_simps)

lemma server0_serves: "pool_can_serve server_env server0"
  using server_ctrl_init [of 0 null null "[]" 0 "\<lambda>_. 0"] by (auto simp: pool_can_serve_def server_simps)

lemma made_facts:
  "fst made" "conn_ok 1 7 (fst (snd made))" "c_info (fst (snd made)) = 1"
  "pool_ready bump_malloc server_cfg (ctrl_holds (fst (snd made))) (snd (snd made))"
proof -
  from server_ctrl_init [of 7 null 1 "''10.0.0.1''" 4000 "\<lambda>_. 0"] obtain c b where
    i: "ctrl_init bump_malloc server_cfg 7 null 1 (ctrl_new ''10.0.0.1'' 4000) (pool_init (\<lambda>_. 0)) = Some (True, c, b)" by blast
  from ctrl_init_ok [OF server0_ready, of 7 null 1 "''10.0.0.1''" 4000] i
  show "fst made" "conn_ok 1 7 (fst (snd made))" "c_info (fst (snd made)) = 1"
    "pool_ready bump_malloc server_cfg (ctrl_holds (fst (snd made))) (snd (snd made))"
    by (auto simp: made_def conn_ok_def)
qed

lemma server1_inv: "server_inv server_env server_fds server1"
  using made_facts
  by (auto simp: server_inv_def core_inv_def hooks_ok_def table_ok_def table_holds_def counts_ok_def load_def fds_ok_def
      server1_def server_simps)

lemma server1_conn: "conn_at 7 server1 = Some (fst (snd made))"
  by (simp add: conn_at_def server1_def)

lemma server1_sink: "sink_ok 1 1 4 (y_sink server1)" "single_mode util_new server1" "has_handler EPOLLIN server1"
  using sample_sink_ok by (simp_all add: server1_def server0_def single_mode_def server_cfg_def util_new_def has_handler_def epoll_defs)


section \<open>Connections\<close>

lemma HandleConnect_server_inv:
  assumes "server_inv env R y" "y_info y \<noteq> []" "pool_can_serve env y" "sys_accept (y_kern y) = (Inr (fd, ip, port), k)"
  shows "\<exists>y'. HandleConnect env idlefd y = Some (True, y') \<and> server_inv env R y' \<and>
    (y_conns y' = y_conns y \<or> (\<exists>c. y_conns y' = y_conns y @ [(fd, c)] \<and>
       (\<forall>i < length (y_info y). load (y_conns y) (c_info c) \<le> load (y_conns y) (Suc i))))"
proof -
  have D: "core_inv env R y" "distinct (s_cList (y_sock y))" "set (s_cList (y_sock y)) \<subseteq> nat ` fst ` set (y_conns y)"
    using assms(1) by (simp_all add: server_inv_def)
  from HandleConnect_ok [OF D(1) assms(2-4), of idlefd] obtain y' where
    y': "HandleConnect env idlefd y = Some (True, y')" "core_inv env R y'" "s_cList (y_sock y') = s_cList (y_sock y)"
      "y_conns y' = y_conns y \<or> (\<exists>c. y_conns y' = y_conns y @ [(fd, c)] \<and>
         (\<forall>i < length (y_info y). load (y_conns y) (c_info c) \<le> load (y_conns y) (Suc i)))" by blast
  have "set (y_conns y) \<subseteq> set (y_conns y')" using y'(4) by auto
  then have "set (s_cList (y_sock y')) \<subseteq> nat ` fst ` set (y_conns y')" using D(3) unfolding y'(3) by blast
  with y' D(2) show ?thesis by (auto simp: server_inv_def)
qed




definition server1_closing :: "unit tcp_sys" where
  "server1_closing = on_sock (\<lambda>s. s\<lparr>s_cList := [7]\<rparr>) server1"

lemma server1_closing_inv: "server_inv server_env server_fds server1_closing"
  using server1_inv unfolding server1_closing_def server_inv_def core_inv_cList by (simp add: server1_def)


text \<open>
  The loop over the close list reads the member \<open>info\<close> of a controller after it has been
  erased from the table: when the memory of the erased controller cannot be read, every
  non-empty close list makes the behaviour undefined.
\<close>

theorem close_list_uses_freed_controller:
  assumes "\<forall>c. e_stale env c = None" "s_cList (y_sock y) \<noteq> []"
  shows "HandleCloseList env y = None"
proof -
  obtain x xs where x: "s_cList (y_sock y) = x # xs" using assms(2) by (cases "s_cList (y_sock y)") auto
  have "close_loop env (x # xs) z = None" for z using assms(1) by (auto split: Option.bind_splits)
  with x show ?thesis by (simp add: HandleCloseList_def)
qed

theorem close_list_uses_freed_controller_witness:
  "HandleCloseList (server_env\<lparr>e_stale := \<lambda>_. None\<rparr>) server1_closing = None"
  by (rule close_list_uses_freed_controller) (simp_all add: server1_closing_def)

lemma io_event_server_inv:
  assumes "server_inv env R y" "sink_ok n b len (y_sink y)" "conn_at (nat fd) y = Some c" "single_mode u y"
    "fd \<noteq> exitfd" "has_handler ev y" "nat fd \<notin> set (s_cList (y_sock y))"
  shows "\<exists>u' y'. io_event env exitfd (fd, ev) u y = Some (False, u', y') \<and> server_inv env R y' \<and> kept env R y y' \<and> sink_ok n b len (y_sink y') \<and>
    (submitted (nat fd) (proc_of ev y) y y' \<or> rearmed (nat fd) y y' \<or> closing (nat fd) y y')"
proof -
  have inv: "core_inv env R y" using assms(1) by (simp add: server_inv_def)
  from io_event_handled [OF inv assms(2-6)] obtain u' y' where
    e: "io_event env exitfd (fd, ev) u y = Some (False, u', y')" "kept env R y y'" "sink_ok n b len (y_sink y')"
      "submitted (nat fd) (proc_of ev y) y y' \<or> rearmed (nat fd) y y' \<or> closing (nat fd) y y'" by blast
  have "server_inv env R y'"
    by (rule server_inv_kept [OF assms(1) kept_tabled [OF e(2)], of "nat fd"])
      (use e(4) assms(3,7) in \<open>auto simp: submitted_def rearmed_def closing_def\<close>)
  with e show ?thesis by blast
qed



text \<open>
  C39. A server with a write callback only mishandles readable events. The test of the result of
  \<open>enableEvents\<close> is inverted: when the registration could be switched to write events the
  handler asks for the connection to be closed; when it failed, the connection is kept although
  nothing is armed.
\<close>

theorem HandleRead_inverted_test:
  assumes "core_inv env R y" "conn_at x y = Some c" "rdp (s_proc (y_sock y)) = null" "wtp (s_proc (y_sock y)) \<noteq> null"
  shows "\<exists>keep y'. HandleRead env x u y = Some (keep, u, y') \<and> core_inv env R y' \<and> (\<not> keep \<longrightarrow> armed x y') \<and>
    (keep \<longrightarrow> kn_interest (y_kern y') = kn_interest (y_kern y))"
proof -
  obtain r k where e: "run_event c False True y = Some (r, y\<lparr>y_kern := k\<rparr>)" "kn_fds k = kn_fds (y_kern y)"
    "r \<longrightarrow> armed x (y\<lparr>y_kern := k\<rparr>)" and i: "\<not> r \<longrightarrow> kn_interest k = kn_interest (y_kern y)"
    using EnableEvent_ok [OF assms(1,2) refl] by blast
  let ?c = "c\<lparr>c_events := if r then EPOLLOUT else 0\<rparr>" and ?y = "y\<lparr>y_kern := k\<rparr>"
  have at: "conn_at x ?y = Some c" using assms(2) by simp
  have inv: "core_inv env R ?y" using assms(1) e(2) by (simp add: core_inv_cong)
  have "HandleRead env x u y = Some (\<not> r, u, set_conn x ?c ?y)"
    using assms(2-4) e(1) by (simp add: HandleRead_def on_events_def enableEvents_def Let_def)
  moreover have "core_inv env R (set_conn x ?c ?y)"
    by (rule core_inv_set_conn [OF inv at]) (use conn_facts(2) [OF assms(1,2)] in simp_all)
  moreover have "r \<longrightarrow> armed x (set_conn x ?c ?y)" using e(3) armed_set_conn [OF _ at conn_shape_flags(1)] by blast
  ultimately show ?thesis using i by auto
qed

definition server1_write_only :: "unit tcp_sys" where
  "server1_write_only = on_sock (\<lambda>s. s\<lparr>s_proc := (s_proc s)\<lparr>rdp := null\<rparr>\<rparr>) server1"

theorem HandleRead_inverted_test_witness:
  "\<exists>keep y'. HandleRead server_env 7 util_new server1_write_only = Some (keep, util_new, y') \<and> core_inv server_env server_fds y' \<and>
    (\<not> keep \<longrightarrow> armed 7 y') \<and> (keep \<longrightarrow> kn_interest (y_kern y') = kn_interest (y_kern server1_write_only))"
proof (rule HandleRead_inverted_test)
  show "core_inv server_env server_fds server1_write_only"
    using server1_inv by (simp add: server1_write_only_def server_inv_def core_inv_def hooks_ok_def)
qed (use server1_conn in \<open>simp_all add: server1_write_only_def conn_at_def server1_def server0_def\<close>)


section \<open>Start and end\<close>

lemma listen_failed_ok:
  assumes "kn_fds (y_kern y) = fd # fds" "fd \<notin> set fds" "s_listenfd (y_sock y) = fd"
  shows "kn_fds (y_kern (listen_failed y)) = fds \<and> s_listenfd (y_sock (listen_failed y)) = -1 \<and>
    s_status (y_sock (listen_failed y)) = s_status (y_sock y) \<and> y_conns (listen_failed y) = y_conns y"
  using assms by (simp add: listen_failed_def)

lemma status_add_has: "status_has b (status_add b y)"
proof -
  have "(w OR b) AND b = b" for w by (rule bit_word_eqI) (auto simp: bit_and_iff bit_or_iff)
  then show ?thesis by (simp add: status_has_def status_add_def)
qed

lemma sys_bind_bound: "sys_bind fd a k = (True, k') \<Longrightarrow> (fd, a) \<in> set (kn_bound k')"
  by (auto simp: sys_bind_def split: prod.splits option.splits)

lemma sys_listen_listening: "sys_listen fd k = (b, k') \<Longrightarrow> (b \<longrightarrow> fd \<in> set (kn_listening k')) \<and> kn_bound k' = kn_bound k"
  by (auto simp: sys_listen_def kcall_def split: prod.splits option.splits list.splits)

lemma Listen_cases:
  "case Listen env port ip y of (ok, y') \<Rightarrow>
     s_connections (y_sock y') = s_connections (y_sock y) \<and>
     (if ok then (\<exists>fd a. fd \<notin> set (kn_fds (y_kern y)) \<and> kn_fds (y_kern y') = fd # kn_fds (y_kern y) \<and> s_listenfd (y_sock y') = fd \<and>
          SOCKADDR_INIT (e_pton env) (y_family y) ip port = Some a \<and> (fd, a) \<in> set (kn_bound (y_kern y')) \<and>
          fd \<in> set (kn_listening (y_kern y')) \<and> status_has 1 y' \<and> Listen env port' ip' y' = (False, y'))
      else kn_fds (y_kern y') = kn_fds (y_kern y) \<and> s_status (y_sock y') = s_status (y_sock y) \<and>
        (y' = y \<or> s_listenfd (y_sock y') = -1))"
proof (cases "status_has 1 y \<or> SOCKADDR_INIT (e_pton env) (y_family y) ip port = None")
  case True
  then show ?thesis by (auto simp: Listen_def)
next
  case False
  then obtain a where a: "SOCKADDR_INIT (e_pton env) (y_family y) ip port = Some a" and st: "\<not> status_has 1 y" by auto
  from new_fd_cases [of "y_kern y"] show ?thesis
  proof (elim disjE exE conjE)
    fix e k
    assume "new_fd (y_kern y) = (Inl e, k)" "same_files (y_kern y) k"
    with a st show ?thesis by (simp add: Listen_def on_kern_def same_files_def)
  next
    fix fd k
    assume n: "new_fd (y_kern y) = (Inr fd, k)" "kn_fds k = fd # kn_fds (y_kern y)" "fd \<notin> set (kn_fds (y_kern y))"
    obtain b1 k1 where k1: "sys_setsockopt fd (SO_REUSEADDR 1) k = (b1, k1)" by (metis surj_pair)
    obtain b2 k2 where k2: "sys_setsockopt fd (SO_REUSEPORT 1) k1 = (b2, k2)" by (metis surj_pair)
    obtain b3 k3 where k3: "sys_bind fd a k2 = (b3, k3)" by (metis surj_pair)
    obtain b4 k4 where k4: "sys_listen fd k3 = (b4, k4)" by (metis surj_pair)
    note F = simple_calls_fds(1) [OF k1] simple_calls_fds(1) [OF k2] simple_calls_fds(2) [OF k3] simple_calls_fds(3) [OF k4]
    define Y where "Y k' = y\<lparr>y_sock := (y_sock y)\<lparr>s_listenfd := fd\<rparr>, y_kern := k'\<rparr>" for k'
    have L: "Listen env port ip y = (if \<not> b1 then (False, listen_failed (Y k1)) else if \<not> b2 then (False, listen_failed (Y k2))
        else if \<not> b3 then (False, listen_failed (Y k3)) else if \<not> b4 then (False, listen_failed (Y k4)) else (True, status_add 1 (Y k4)))"
      using a st n(1) k1 k2 k3 k4 by (simp add: Listen_def on_kern_def on_sock_def Y_def)
    note fl = listen_failed_ok [of "Y _", OF _ n(3)]
    have fds: "kn_fds k1 = fd # kn_fds (y_kern y)" "kn_fds k2 = fd # kn_fds (y_kern y)" "kn_fds k3 = fd # kn_fds (y_kern y)"
      "kn_fds k4 = fd # kn_fds (y_kern y)" using F n(2) by simp_all
    show ?thesis
    proof (cases "b1 \<and> b2 \<and> b3 \<and> b4")
      case True
      have "status_has 1 (status_add 1 (Y k4))" by (rule status_add_has)
      moreover from this have "Listen env port' ip' (status_add 1 (Y k4)) = (False, status_add 1 (Y k4))" by (simp add: Listen_def)
      ultimately show ?thesis using True L a n(3) fds(4) sys_bind_bound [of fd a k2 k3] sys_listen_listening [OF k4] k3 by (auto simp: status_add_def Y_def)
    next
      case False
      with L fl [of k1] fl [of k2] fl [of k3] fl [of k4] fds show ?thesis by (auto simp: Y_def split: if_splits)
    qed
  qed
qed

text \<open>
  C30. \<open>Listen\<close> is all or nothing. When it returns false no descriptor is left open and the
  status is unchanged, and the listening descriptor is invalid if a socket had been created;
  when it returns true exactly one descriptor is new, it is the listening socket, it is bound
  to the address, it listens, and the status records the call, which makes every further call
  fail without effect.
\<close>

theorem Listen_all_or_nothing:
  "case Listen env port ip y of (ok, y') \<Rightarrow>
     s_connections (y_sock y') = s_connections (y_sock y) \<and>
     (if ok then (\<exists>fd a. fd \<notin> set (kn_fds (y_kern y)) \<and> kn_fds (y_kern y') = fd # kn_fds (y_kern y) \<and> s_listenfd (y_sock y') = fd \<and>
          SOCKADDR_INIT (e_pton env) (y_family y) ip port = Some a \<and> (fd, a) \<in> set (kn_bound (y_kern y')) \<and>
          fd \<in> set (kn_listening (y_kern y')) \<and> status_has 1 y' \<and> Listen env port' ip' y' = (False, y'))
      else kn_fds (y_kern y') = kn_fds (y_kern y) \<and> s_status (y_sock y') = s_status (y_sock y) \<and>
        (y' = y \<or> s_listenfd (y_sock y') = -1))"
  by (rule Listen_cases)


section \<open>Thread counts\<close>

lemma ulp_pos: "0 < d \<Longrightarrow> \<exists>j. ulp n x d = d / 2 ^ j"
proof (induction n arbitrary: d)
  case 0
  show ?case by (intro exI [of _ 0]) simp
next
  case (Suc n)
  show ?case
  proof (cases "x < d * 2 ^ 23")
    case True
    from Suc.IH [of "d / 2"] Suc.prems obtain j where "ulp n x (d / 2) = d / 2 / 2 ^ j" by auto
    with True show ?thesis by (intro exI [of _ "Suc j"]) simp
  next
    case False
    then show ?thesis by (intro exI [of _ 0]) simp
  qed
qed

lemma round_even_le: "x \<le> of_int m \<Longrightarrow> round_even x \<le> m"
proof -
  assume h: "x \<le> of_int m"
  then have f: "\<lfloor>x\<rfloor> \<le> m" by linarith
  show ?thesis
  proof (cases "\<lfloor>x\<rfloor> = m")
    case True
    then have "x = of_int m" using h by linarith
    then show ?thesis by (simp add: round_even_def)
  next
    case False
    with f have "\<lfloor>x\<rfloor> + 1 \<le> m" by simp
    then show ?thesis by (simp add: round_even_def Let_def)
  qed
qed

lemma round_even_nonneg: "0 \<le> x \<Longrightarrow> 0 \<le> round_even x"
  by (simp add: round_even_def Let_def)

lemma float32_bounds:
  assumes "0 \<le> x" "x \<le> of_int m"
  shows "0 \<le> float32 x" "float32 x \<le> of_int m"
proof -
  obtain j where j: "ulp 149 x 1 = 1 / 2 ^ j" using ulp_pos [of 1 149 x] by auto
  let ?d = "1 / 2 ^ j :: rat"
  show "0 \<le> float32 x" using round_even_nonneg [of "x / ?d"] assms(1) by (simp add: float32_def Let_def j)
  have "x / ?d \<le> of_int (m * 2 ^ j)" using assms(2) by simp
  from round_even_le [OF this] have "of_int (round_even (x / ?d)) \<le> (of_int (m * 2 ^ j) :: rat)" by (simp only: of_int_le_iff)
  then have "of_int (round_even (x / ?d)) * ?d \<le> of_int (m * 2 ^ j) * ?d" by (intro mult_right_mono) simp_all
  then show "float32 x \<le> of_int m" by (simp add: float32_def Let_def j)
qed




section \<open>The descriptors of the I/O threads\<close>

definition info_fds :: "IOThreadInfo list \<Rightarrow> int list" where
  "info_fds is = concat (map (\<lambda>i. [io_exitfd i, io_epollfd i]) (rev is))"

lemma close_info_fds: "kn_fds (y_kern (close_info is y)) = filter (\<lambda>f. f \<notin> set (info_fds is)) (kn_fds (y_kern y)) \<and>
    y_sock (close_info is y) = y_sock y"
proof (induction "is" arbitrary: y)
  case (Cons i "is")
  let ?z = "k_close (io_exitfd i) (k_close (io_epollfd i) y)"
  have "close_info (i # is) y = close_info is ?z" by (simp add: close_info_def)
  moreover have "set (info_fds (i # is)) = {io_exitfd i, io_epollfd i} \<union> set (info_fds is)" by (auto simp: info_fds_def)
  ultimately show ?case
    using Cons.IH [of ?z] by (auto simp: removeAll_filter_not_eq intro: filter_cong)
qed (simp add: close_info_def info_fds_def)

lemma create_loops_ok:
  "\<exists>new k. create_loops n y = y\<lparr>y_kern := k, y_sock := (y_sock y)\<lparr>s_loopInfo := y_info y @ new\<rparr>\<rparr> \<and> length new \<le> n \<and>
    kn_fds k = info_fds new @ kn_fds (y_kern y) \<and> distinct (info_fds new) \<and> set (info_fds new) \<inter> set (kn_fds (y_kern y)) = {} \<and>
    (\<forall>i \<in> set new. io_count i = 0)"
proof (induction n arbitrary: y)
  case 0
  show ?case by (intro exI [of _ "[]"] exI [of _ "y_kern y"]) (simp add: info_fds_def)
next
  case (Suc n)
  have stop: ?case if "create_loops (Suc n) y = y\<lparr>y_kern := k\<rparr>" "kn_fds k = kn_fds (y_kern y)" for k
    using that by (intro exI [of _ "[]"] exI [of _ k]) (simp add: info_fds_def)
  from new_fd_cases [of "y_kern y"] show ?case
  proof (elim disjE exE conjE)
    fix e k
    assume "new_fd (y_kern y) = (Inl e, k)" "same_files (y_kern y) k"
    then show ?case by (intro stop [of k]) (simp_all add: on_kern_def same_files_def)
  next
    fix ep k1
    assume n1: "new_fd (y_kern y) = (Inr ep, k1)" "kn_fds k1 = ep # kn_fds (y_kern y)" "ep \<notin> set (kn_fds (y_kern y))"
    from new_fd_cases [of k1] show ?case
    proof (elim disjE exE conjE)
      fix e k2
      assume "new_fd k1 = (Inl e, k2)" "same_files k1 k2"
      with n1 show ?case by (intro stop [of "sys_close ep k2"]) (simp_all add: on_kern_def same_files_def k_close_def)
    next
      fix ex k2
      assume n2: "new_fd k1 = (Inr ex, k2)" "kn_fds k2 = ex # kn_fds k1" "ex \<notin> set (kn_fds k1)"
      obtain b k3 where a: "epoll_add ep ex (EPOLLIN OR EPOLLERR OR EPOLLHUP) k2 = (b, k3)" by (metis surj_pair)
      have k3: "kn_fds k3 = ex # ep # kn_fds (y_kern y)" using n1(2) n2(2) a by (metis epoll_files(1) snd_conv)
      show ?case
      proof (cases b)
        case False
        have "ex \<noteq> ep" "ex \<notin> set (kn_fds (y_kern y))" using n1(2) n2(3) by auto
        with False n1 n2 a k3 show ?thesis
          by (intro stop [of "sys_close ex (sys_close ep k3)"]) (simp_all add: on_kern_def k_close_def)
      next
        case True
        let ?i = "\<lparr>io_count = 0, io_epollfd = ep, io_exitfd = ex\<rparr>"
        let ?y = "y\<lparr>y_kern := k3, y_sock := (y_sock y)\<lparr>s_loopInfo := y_info y @ [?i]\<rparr>\<rparr>"
        have c: "create_loops (Suc n) y = create_loops n ?y" using True n1(1) n2(1) a by (simp add: on_kern_def on_sock_def)
        from Suc.IH [of ?y] obtain new k where
          h: "create_loops n ?y = ?y\<lparr>y_kern := k, y_sock := (y_sock ?y)\<lparr>s_loopInfo := y_info ?y @ new\<rparr>\<rparr>" "length new \<le> n"
            "kn_fds k = info_fds new @ kn_fds k3" "distinct (info_fds new)" "set (info_fds new) \<inter> set (kn_fds k3) = {}"
            "\<forall>i \<in> set new. io_count i = 0" by auto
        have f: "info_fds (?i # new) = info_fds new @ [ex, ep]" by (simp add: info_fds_def)
        show ?thesis
          by (intro exI [of _ "?i # new"] exI [of _ k]) (use c h k3 n1(2,3) n2(3) in \<open>auto simp: f\<close>)
      qed
    qed
  qed
qed

text \<open>
  C29. The creation of the I/O threads is all or nothing. When one of the calls fails, every
  descriptor that was opened is closed again; otherwise each thread has an epoll and an exit
  descriptor of its own, all of them new and distinct, and starts without connections.
\<close>

theorem CreateIOEventLoop_all_or_nothing:
  assumes "y_info y = []" "s_loops (y_sock y) = []"
  shows "case CreateIOEventLoop num y of (ok, y') \<Rightarrow>
    if ok then length (y_info y') = nat num \<and> kn_fds (y_kern y') = info_fds (y_info y') @ kn_fds (y_kern y) \<and>
        distinct (info_fds (y_info y')) \<and> set (info_fds (y_info y')) \<inter> set (kn_fds (y_kern y)) = {} \<and>
        (\<forall>i \<in> set (y_info y'). io_count i = 0) \<and> s_loops (y_sock y') = map (\<lambda>i. (io_epollfd i, io_exitfd i)) (y_info y')
    else kn_fds (y_kern y') = kn_fds (y_kern y) \<and> s_loops (y_sock y') = []"
proof -
  from create_loops_ok [of "nat num" y] assms(1) obtain new k where
    h: "create_loops (nat num) y = y\<lparr>y_kern := k, y_sock := (y_sock y)\<lparr>s_loopInfo := new\<rparr>\<rparr>"
      "kn_fds k = info_fds new @ kn_fds (y_kern y)" "distinct (info_fds new)" "set (info_fds new) \<inter> set (kn_fds (y_kern y)) = {}"
      "\<forall>i \<in> set new. io_count i = 0" by auto
  have "filter (\<lambda>f. f \<notin> set (info_fds new)) (info_fds new @ kn_fds (y_kern y)) = kn_fds (y_kern y)"
    using h(4) by (auto simp: filter_id_conv)
  with h assms(2) close_info_fds [of new "create_loops (nat num) y"] show ?thesis by (simp add: CreateIOEventLoop_def Let_def)
qed

definition server_idle :: "unit tcp_sys" where
  "server_idle = on_sock (\<lambda>s. s\<lparr>s_loops := [], s_loopInfo := []\<rparr>) server0"

theorem CreateIOEventLoop_all_or_nothing_witness:
  "case CreateIOEventLoop 3 server_idle of (ok, y') \<Rightarrow>
    if ok then length (y_info y') = nat 3 \<and> kn_fds (y_kern y') = info_fds (y_info y') @ kn_fds (y_kern server_idle) \<and>
        distinct (info_fds (y_info y')) \<and> set (info_fds (y_info y')) \<inter> set (kn_fds (y_kern server_idle)) = {} \<and>
        (\<forall>i \<in> set (y_info y'). io_count i = 0) \<and> s_loops (y_sock y') = map (\<lambda>i. (io_epollfd i, io_exitfd i)) (y_info y')
    else kn_fds (y_kern y') = kn_fds (y_kern server_idle) \<and> s_loops (y_sock y') = []"
  by (rule CreateIOEventLoop_all_or_nothing) (simp_all add: server_idle_def)


section \<open>Release\<close>

lemma destroy_all_ok:
  assumes "table_ok n cs" "pool_ready mal cfg (table_holds cs) p"
  shows "\<exists>p'. destroy_all cfg cs p = Some p' \<and> pool_ready mal cfg {} p'"
  using assms
proof (induction cs arbitrary: p)
  case (Cons a cs)
  obtain fd c where a: "a = (fd, c)" by (cases a)
  note T = table_okD [OF Cons.prems(1)]
  have t: "table_ok n cs" 
  proof (rule table_okI)
    fix f c g d
    show "(f, c) \<in> set cs \<Longrightarrow> conn_ok n f c" using T(2) [of f c] by simp
    show "(f, c) \<in> set cs \<Longrightarrow> (g, d) \<in> set cs \<Longrightarrow> f \<noteq> g \<Longrightarrow> ctrl_holds c \<inter> ctrl_holds d = {}" using T(3) [of f c g d] by simp
  qed (use T(1) in simp)
  have k: "conn_ok n fd c" by (rule table_okD(2) [OF Cons.prems(1)]) (simp add: a)
  have dj: "ctrl_holds c \<inter> table_holds cs = {}"
  proof -
    have "fd \<notin> fst ` set cs" using T(1) by (simp add: a)
    then have "fd \<noteq> f" if "(f, d) \<in> set cs" for f d using that by (metis fst_conv image_eqI)
    then have "ctrl_holds c \<inter> ctrl_holds d = {}" if "(f, d) \<in> set cs" for f d
      using table_okD(3) [OF Cons.prems(1), of fd c f d] that by (simp add: a)
    then show ?thesis unfolding table_holds_def by blast
  qed
  have "table_holds (a # cs) = table_holds cs \<union> ctrl_holds c" by (auto simp: table_holds_def a)
  with Cons.prems(2) have "pool_ready mal cfg (table_holds cs \<union> ctrl_holds c) p" by simp
  from ctrl_destroy_ok [OF this dj] k obtain p1 where "ctrl_destroy cfg c p = Some p1" "pool_ready mal cfg (table_holds cs) p1"
    by (auto simp: conn_ok_def)
  with Cons.IH [OF t] show ?case by (auto simp: a)
qed (simp add: table_holds_def)

text \<open>
  C40. \<open>Release\<close> returns all memory and closes the listening socket, but not the connections. From
  every consistent state it is defined, destroys the instance and every controller, and hands
  every block of the buffer pool back; the descriptors of the connections stay open, since only
  \<open>Cleanup\<close> would close them and nothing calls it.
\<close>

theorem Release_leaks_descriptors:
  assumes "server_inv env R y" "s_listenfd (y_sock y) \<in> R"
  shows "\<exists>y'. tcp_Release y = Some y' \<and> \<not> y_instance y' \<and> y_conns y' = [] \<and> p_live (y_bufs y') = [] \<and>
    s_listenfd (y_sock y) \<notin> set (kn_fds (y_kern y')) - {-1} \<and> fst ` set (y_conns y) \<subseteq> set (kn_fds (y_kern y'))"
proof -
  have inv: "core_inv env R y" using assms(1) by (simp add: server_inv_def)
  note D = core_invD [OF inv]
  let ?l = "s_listenfd (y_sock y)"
  define y1 where "y1 = (if ?l \<noteq> -1 then k_close ?l y else y)"
  have y1: "y_cfg y1 = y_cfg y" "y_conns y1 = y_conns y" "y_bufs y1 = y_bufs y" "?l \<notin> set (kn_fds (y_kern y1)) - {-1}"
    "set (kn_fds (y_kern y)) - {?l} \<subseteq> set (kn_fds (y_kern y1))" by (auto simp: y1_def)
  obtain p where p: "destroy_all (y_cfg y) (y_conns y) (y_bufs y) = Some p" "pool_ready (e_malloc env) (y_cfg y) {} p"
    using destroy_all_ok [OF D(3,4)] by blast
  obtain p' where p': "pool_reset p = Some p'" "p_live p' = []" using pool_reset_ready [OF p(2)] by blast
  define y2 where "y2 = on_sock (\<lambda>s. s\<lparr>s_connections := []\<rparr>) (y1\<lparr>y_bufs := p\<rparr>)"
  have y2: "y_conns y2 = []" "y_kern y2 = y_kern y1" "y_bufs y2 = p" by (simp_all add: y2_def)
  have "tcp_destroy y = Some y2" using p(1) y1(1-3) by (simp add: tcp_destroy_def Let_def y2_def flip: y1_def)
  then have r: "tcp_Release y = Some (y2\<lparr>y_instance := False, y_bufs := p'\<rparr>)" using D(1) p'(1) y2(3) by (simp add: tcp_Release_def)
  have "K \<subseteq> S - {l}" if "S = R \<union> K \<and> R \<inter> K = {}" "l \<in> R" for S K and l :: int using that by auto
  from this [OF D(6) [unfolded fds_ok_def] assms(2)] y1(5) have "fst ` set (y_conns y) \<subseteq> set (kn_fds (y_kern y1))" by (rule subset_trans)
  with r y1(4) y2 p'(2) show ?thesis by (intro exI [of _ "y2\<lparr>y_instance := False, y_bufs := p'\<rparr>"]) simp
qed

theorem Release_leaks_descriptors_witness:
  "\<exists>y'. tcp_Release server1 = Some y' \<and> \<not> y_instance y' \<and> y_conns y' = [] \<and> p_live (y_bufs y') = [] \<and>
    s_listenfd (y_sock server1) \<notin> set (kn_fds (y_kern y')) - {-1} \<and> fst ` set (y_conns server1) \<subseteq> set (kn_fds (y_kern y'))"
  by (rule Release_leaks_descriptors [OF server1_inv]) (simp add: server1_def server0_def server_fds_def)

section \<open>Exhausted memory\<close>

text \<open>
  When the buffers of a new connection cannot be allocated, the wrong descriptor is closed.
  \<open>init\<close> fails before it stores the descriptor, so \<open>CloseConnection\<close> closes descriptor 0 and erases
  the table entry 0: the new socket stays open and its controller stays in the table, uncounted and
  not registered with any I/O thread.
\<close>

theorem connect_without_memory:
  assumes "core_inv env R y" "y_info y \<noteq> []" "\<not> pool_can_serve env y" "sys_accept (y_kern y) = (Inr (fd, ip, port), k)"
    "fst (prepare_socket fd (y\<lparr>y_kern := k\<rparr>))" "0 \<in> R"
  shows "\<exists>c y'. HandleConnect env idlefd y = Some (True, y') \<and> y_conns y' = y_conns y @ [(fd, c)] \<and> c_fd c = 0 \<and>
    fd \<in> set (kn_fds (y_kern y')) \<and> 0 \<notin> set (kn_fds (y_kern y')) \<and> y_info y' = y_info y"
proof -
  note D = core_invD [OF assms(1)]
  have k: "kn_fds k = fd # kn_fds (y_kern y)" "fd \<notin> set (kn_fds (y_kern y))" "0 \<le> fd" using accept_cases [of "y_kern y"] assms(4) by auto
  have R: "0 \<in> set (kn_fds (y_kern y))" "0 \<notin> fst ` set (y_conns y)" "fd \<notin> fst ` set (y_conns y)" using D(6) assms(6) k(2) by (auto simp: fds_ok_def)
  then have fd: "fd \<noteq> 0" using k(2) by auto
  obtain y2 where p: "prepare_socket fd (y\<lparr>y_kern := k\<rparr>) = (True, y2)" using assms(5) by (metis prod.collapse)
  obtain k2 where y2: "y2 = y\<lparr>y_kern := k2\<rparr>" "kn_fds k2 = fd # kn_fds (y_kern y)"
    using prepare_socket_only [of "y\<lparr>y_kern := k\<rparr>" fd] p k(1) by (auto simp: kern_only_def same_files_def)
  let ?c0 = "ctrl_new ip port" and ?f = "cnp (s_proc (y_sock y))"
  obtain ctx w where cw: "(if ?f \<noteq> null then e_cnp env ?f ip port (y_app y) else (null, y_app y)) = (ctx, w)" by (metis surj_pair)
  obtain i0 rest where inf: "y_info y = i0 # rest" using assms(2) by (cases "y_info y") auto
  obtain ok c b where I: "ctrl_init (e_malloc env) (y_cfg y) fd ctx (least_loaded 1 (io_count i0) 2 rest) ?c0 (y_bufs y) = Some (ok, c, b)"
    "\<not> ok \<longrightarrow> c_fd c = 0" using ctrl_init_ok [OF D(4), of fd ctx "least_loaded 1 (io_count i0) 2 rest" ip port] by blast
  obtain ok' c' b' where I': "ctrl_init (e_malloc env) (y_cfg y) 0 null null (ctrl_new [] 0) (y_bufs y) = Some (ok', c', b')"
    using ctrl_init_ok [OF D(4), of 0 null null "[]" 0] by blast
  have ok: "\<not> ok" using assms(3) I' ctrl_init_same_ok [OF I(1) I'] by (simp add: pool_can_serve_def)
  let ?cs = "y_conns y @ [(fd, c)]"
  let ?y3 = "y2\<lparr>y_app := w, y_bufs := b, y_sock := (y_sock y)\<lparr>s_connections := ?cs\<rparr>\<rparr>"
  have "map_of (y_conns y) fd = None" "map_of (y_conns y) 0 = None" using R(2,3) by (simp_all add: map_of_eq_None_iff)
  then have m: "map_of ?cs fd = Some c" "map_of ?cs 0 = None" using fd by (simp_all add: map_add_def)
  have tw: "set_conn (nat fd) c ((set_conn (nat fd) ?c0 y2)\<lparr>y_app := w, y_bufs := b\<rparr>) = ?y3"
    using set_conn_twice [where y = y2 and fd = fd and c = c and w = w and b = b] R(3) k(3) y2(1) by simp
  have S: "setup_connection env fd ?c0 (set_conn (nat fd) ?c0 y2) = CloseConnection env (nat fd) ?y3"
  proof -
    let ?ys = "set_conn (nat fd) ?c0 y2"
    have v: "y_info ?ys = i0 # rest" "s_proc (y_sock ?ys) = s_proc (y_sock y)" "y_app ?ys = y_app y" "y_bufs ?ys = y_bufs y"
      "y_cfg ?ys = y_cfg y" "c_ip ?c0 = ip" "c_port ?c0 = port" by (simp_all add: set_conn_def inf ctrl_new_def y2(1))
    have cw': "(if cnp (s_proc (y_sock ?ys)) \<noteq> null then e_cnp env (cnp (s_proc (y_sock ?ys))) (c_ip ?c0) (c_port ?c0) (y_app ?ys)
        else (null, y_app ?ys)) = (ctx, w)" unfolding v by (rule cw)
    show ?thesis unfolding setup_connection_def Let_def cw' prod.case using v I(1) ok tw by simp
  qed
  have at: "conn_at (nat fd) ?y3 = Some c" using m(1) k(3) unfolding conn_at_def by simp
  have er: "erase_conn 0 z = Some z" if "y_conns z = ?cs" for z :: "'a tcp_sys" using m(2) that unfolding erase_conn_def by (simp del: map_of_append)
  let ?w' = "if csp (s_proc (y_sock y)) \<noteq> null then e_csp env (csp (s_proc (y_sock y))) c w else w"
  have C: "CloseConnection env (nat fd) ?y3 = Some (?y3\<lparr>y_app := ?w', y_kern := sys_close 0 k2\<rparr>)"
    unfolding CloseConnection_def at using I(2) ok by (simp add: er k_close_def y2(1))
  have "HandleConnect env idlefd y = Some (True, ?y3\<lparr>y_app := ?w', y_kern := sys_close 0 k2\<rparr>)"
    using assms(4) p S C R(3) y2(1) by (simp add: HandleConnect_def on_kern_def map_of_eq_None_iff)
  then show ?thesis using I(2) ok y2 fd by (intro exI [of _ c]) auto
qed

theorem connect_without_memory_witness:
  "\<exists>c y'. HandleConnect (server_env\<lparr>e_malloc := \<lambda>_ _. 0\<rparr>) 6 server0 = Some (True, y') \<and> y_conns y' = y_conns server0 @ [(7, c)] \<and> c_fd c = 0 \<and>
    7 \<in> set (kn_fds (y_kern y')) \<and> 0 \<notin> set (kn_fds (y_kern y')) \<and> y_info y' = y_info server0"
proof (rule connect_without_memory)
  let ?env = "server_env\<lparr>e_malloc := \<lambda>_ _. 0\<rparr>"
  have "pool_ready (\<lambda>_ _. 0) server_cfg {} (pool_init (\<lambda>_. 0))" by (rule pool_ready_init [OF _ server_pool_config]) (simp add: malloc_ok_def)
  then show "core_inv ?env server_fds server0"
    by (auto simp: core_inv_def hooks_ok_def table_ok_def table_holds_def counts_ok_def load_def fds_ok_def server_simps)
  have "ctrl_init (\<lambda>_ _. 0) server_cfg 0 null null (ctrl_new [] 0) (pool_init (\<lambda>_. 0)) \<noteq> None \<and>
      \<not> fst (the (ctrl_init (\<lambda>_ _. 0) server_cfg 0 null null (ctrl_new [] 0) (pool_init (\<lambda>_. 0))))"
    by (simp add: ctrl_init_def ctrl_new_def SPBuffer_Init_def SPBuffer_new_def GetBuffer_def GetReadBufferInner_def GetBufferInner_def Alloc_def
      server_sizes Alloc_loop.simps [of _ _ 1] Alloc_loop.simps [of _ _ 0] tryAlloc_def Let_def to_size_t_def pool_init_def)
  then show "\<not> pool_can_serve ?env server0" by (auto simp: pool_can_serve_def server_simps split: option.splits)
  show "sys_accept (y_kern server0) = (Inr (7, ''10.0.0.1'', 4000), kern0\<lparr>kn_fds := 7 # kn_fds kern0, kn_backlog := [],
      kn_sock := (kn_sock kern0)(7 := sample_sock)\<rparr>)"
    by (simp add: sys_accept_def kcall_def server0_def kern0_def first_free_def upt_rec)
qed (simp_all add: server0_def server_fds_def tcp_new_def prepare_socket_def on_kern_def sys_getfl_def sys_set_nonblock_def kcall_def kern0_def)


section \<open>The event loop\<close>

lemma run_loops_status:
  assumes "run_loops env rs start io y = Some (Ended (True, y'))"
  shows "status_has 8 y'"
proof -
  obtain z where "y' = status_add 8 z"
    using assms by (auto simp: run_loops_def split: prod.splits if_splits Option.bind_splits loop_state.splits)
  with status_add_has show ?thesis by simp
qed

text \<open>
  \<open>EventLoop\<close> runs once, after \<open>Listen\<close> and \<open>SetCallback\<close>. It returns true only when both calls have been
  made and it had not run before, and it has recorded the run, so that every later call
  returns false and changes nothing.
\<close>

theorem EventLoop_runs_once:
  assumes "EventLoop env rs start idx y = Some (Ended (True, y'))"
  shows "status_has 1 y \<and> status_has 2 y \<and> \<not> status_has 8 y \<and> status_has 8 y' \<and>
    EventLoop env' rs' start' idx' y' = Some (Ended (False, y'))"
proof -
  have g: "\<not> status_has 8 y" "status_has 1 y" "status_has 2 y" using assms by (auto simp: EventLoop_def split: if_splits)
  then have "status_has 8 y'"
    using assms run_loops_status by (auto simp: EventLoop_def split: option.splits Option.bind_splits if_splits)
  with g show ?thesis by (simp add: EventLoop_def)
qed

text \<open>A machine with two cores, workers that end when they are told to, and a signal in the first turn.\<close>

definition run_env :: "unit tcp_env" where
  "run_env = server_env\<lparr>e_cores := 2, e_workers := (\<lambda>t. t\<lparr>t_pool := (t_pool t)\<lparr>tp_workers := map (\<lambda>w. w\<lparr>w_pc := WDone\<rparr>) (tp_workers (t_pool t))\<rparr>\<rparr>)\<rparr>"

definition server_run :: "unit tcp_sys" where
  "server_run = server_idle\<lparr>y_glob := (y_glob server_idle)\<lparr>g_tcpConfig := server_cfg\<lparr>THREADPOOL_QUEUE_LENGTH := 4, THREADPOOL_BATCH_SIZE_PROCESS := 1\<rparr>\<rparr>\<rparr>"

definition signal_round :: "unit poll_round" where
  "signal_round = \<lparr>pr_signal = True, pr_now = 0, pr_poll = (\<lambda>_. Inr 0), pr_other = Some, pr_now2 = 0\<rparr>"

lemma server_run_ends: "map_option (\<lambda>r. case r of Ended (b, _) \<Rightarrow> b | Running _ \<Rightarrow> False) (EventLoop run_env [signal_round] 0 0 server_run) = Some True"
  by code_simp

theorem EventLoop_runs_once_witness:
  "\<exists>y'. EventLoop run_env [signal_round] 0 0 server_run = Some (Ended (True, y')) \<and> status_has 8 y' \<and>
    EventLoop run_env [] 0 0 y' = Some (Ended (False, y'))"
proof -
  obtain r where r: "EventLoop run_env [signal_round] 0 0 server_run = Some r" "case r of Ended (b, _) \<Rightarrow> b | Running _ \<Rightarrow> False"
    using server_run_ends by auto
  then obtain y' where "EventLoop run_env [signal_round] 0 0 server_run = Some (Ended (True, y'))" by (cases r) auto
  with EventLoop_runs_once [OF this] show ?thesis by blast
qed

end
