(* ===== verification/SP_Protocol.thy ===== *)
theory SP_Protocol
  imports SP_Tcp_Props
begin

text \<open>
  The ownership of connections. A connection is registered with one-shot events: the delivery of
  an event disarms it, a submitted task owns it until the callback arms it again or closes it, and
  the acceptor thread erases what is on the close list. The steps of the acceptor, the I/O threads
  and the workers are interleaved in an inductive relation, and an invariant shows that no
  connection is erased while a task owns it and that no connection has two tasks.
\<close>

section \<open>Registrations\<close>

text \<open>Only open descriptors are registered, each with one epoll instance.\<close>

definition regs_ok :: "kern \<Rightarrow> bool" where
  "regs_ok k \<longleftrightarrow> (\<forall>ep f. kn_interest k (ep, f) \<noteq> None \<longrightarrow> f \<in> set (kn_fds k)) \<and>
     (\<forall>ep ep' f. kn_interest k (ep, f) \<noteq> None \<longrightarrow> kn_interest k (ep', f) \<noteq> None \<longrightarrow> ep = ep')"

text \<open>The connection can receive an event.\<close>

definition live :: "addr \<Rightarrow> kern \<Rightarrow> bool" where
  "live x k \<longleftrightarrow> (\<exists>ep ev. kn_interest k (ep, int x) = Some ev \<and> ev \<noteq> 0)"

text \<open>Changes that take registrations away, and those that may add one for \<open>fd\<close>.\<close>

definition regs_less :: "kern \<Rightarrow> kern \<Rightarrow> bool" where
  "regs_less k k' \<longleftrightarrow> (regs_ok k \<longrightarrow> regs_ok k') \<and> (\<forall>p. kn_interest k' p = kn_interest k p \<or> kn_interest k' p = None)"

definition regs_new :: "int \<Rightarrow> kern \<Rightarrow> kern \<Rightarrow> bool" where
  "regs_new fd k k' \<longleftrightarrow> (regs_ok k \<and> fd \<in> set (kn_fds k) \<and> (\<forall>ep. kn_interest k (ep, fd) = None) \<longrightarrow> regs_ok k') \<and>
     (\<forall>p. snd p \<noteq> fd \<longrightarrow> kn_interest k' p = kn_interest k p \<or> kn_interest k' p = None)"

lemma regs_less_refl [simp]: "regs_less k k"
  by (simp add: regs_less_def)

lemma regs_lessD: "regs_less k k' \<Longrightarrow> kn_interest k' p = kn_interest k p \<or> kn_interest k' p = None"
  unfolding regs_less_def by (drule conjunct2) (erule spec)

lemma regs_newD: "regs_new fd k k' \<Longrightarrow> snd p \<noteq> fd \<Longrightarrow> kn_interest k' p = kn_interest k p \<or> kn_interest k' p = None"
  unfolding regs_new_def by (drule conjunct2, drule spec, erule mp)

lemma regs_stepD:
  "regs_step F k k' \<Longrightarrow> kn_interest k' p = kn_interest k p \<or> kn_interest k' p = None \<or> kn_interest k p \<noteq> None \<and> snd p \<in> int ` F"
  unfolding regs_step_def by (drule conjunct2) (erule spec)

lemma regs_less_trans: "regs_less k k' \<Longrightarrow> regs_less k' k'' \<Longrightarrow> regs_less k k''"
  unfolding regs_less_def by metis

lemma regs_new_less:
  assumes "regs_new fd k k'" "regs_less k' k''"
  shows "regs_new fd k k''"
  unfolding regs_new_def
proof (intro conjI allI impI)
  fix p :: "int \<times> int"
  assume "snd p \<noteq> fd"
  from regs_newD [OF assms(1) this] regs_lessD [OF assms(2), of p]
  show "kn_interest k'' p = kn_interest k p \<or> kn_interest k'' p = None" by auto
qed (use assms in \<open>simp add: regs_new_def regs_less_def\<close>)

lemma regs_less_new: "regs_less k k' \<Longrightarrow> regs_new fd k k'"
  unfolding regs_less_def regs_new_def by (intro conjI allI impI) (simp, elim conjE, erule spec)

lemma sys_close_less: "regs_less k (sys_close fd k)"
  unfolding regs_less_def regs_ok_def by (auto simp: sys_close_def split: if_splits)

lemma regs_ok_mono:
  assumes "regs_ok k" "kn_fds k' = kn_fds k" "\<And>p. kn_interest k' p \<noteq> None \<Longrightarrow> kn_interest k p \<noteq> None"
  shows "regs_ok k'"
  unfolding regs_ok_def assms(2) using assms(1,3) unfolding regs_ok_def by blast

lemma regs_step_ok: "regs_ok k \<Longrightarrow> regs_step F k k' \<Longrightarrow> regs_ok k'"
proof (erule regs_ok_mono)
  assume s: "regs_step F k k'"
  then show "kn_fds k' = kn_fds k" by (simp add: regs_step_def)
  fix p
  show "kn_interest k' p \<noteq> None \<Longrightarrow> kn_interest k p \<noteq> None" using regs_stepD [OF s, of p] by auto
qed

lemma live_mono:
  assumes "live z k'" "\<And>ep. kn_interest k' (ep, int z) = kn_interest k (ep, int z) \<or> kn_interest k' (ep, int z) = None"
  shows "live z k"
proof -
  obtain ep ev where e: "kn_interest k' (ep, int z) = Some ev" "ev \<noteq> 0" using assms(1) by (auto simp: live_def)
  with assms(2) [of ep] have "kn_interest k (ep, int z) = Some ev" by auto
  with e(2) show ?thesis by (auto simp: live_def)
qed

lemma regs_step_live: "regs_step F k k' \<Longrightarrow> live z k' \<Longrightarrow> z \<notin> F \<Longrightarrow> live z k"
  by (erule live_mono) (drule regs_stepD, auto)

lemma regs_less_live: "regs_less k k' \<Longrightarrow> live z k' \<Longrightarrow> live z k"
  by (erule live_mono) (rule regs_lessD)

lemma regs_new_live: "regs_new fd k k' \<Longrightarrow> live z k' \<Longrightarrow> int z \<noteq> fd \<Longrightarrow> live z k"
  by (erule live_mono) (rule regs_newD, simp_all)

lemma epoll_add_new:
  assumes "epoll_add ep fd ev k = (r, k')"
  shows "regs_new fd k k'"
proof -
  obtain e k1 where k: "kcall k = (e, k1)" by (cases "kcall k")
  note F = kcall_files [of k, unfolded k snd_conv]
  have same: "regs_less k k1" using F by (auto simp: regs_less_def intro: regs_ok_mono)
  show ?thesis
  proof (cases "r")
    case True
    then have k': "k' = k1\<lparr>kn_interest := (kn_interest k)((ep, fd) := Some ev)\<rparr>"
      using assms k F by (auto simp: epoll_add_def split: option.splits if_splits)
    show ?thesis unfolding regs_new_def
    proof (intro conjI impI allI, elim conjE)
      assume "regs_ok k" "fd \<in> set (kn_fds k)" "\<forall>ep. kn_interest k (ep, fd) = None"
      then show "regs_ok k'" unfolding regs_ok_def k' using F by (auto split: if_splits)
    qed (auto simp: k')
  next
    case False
    then have "k' = k1" using assms k by (auto simp: epoll_add_def split: option.splits if_splits)
    with same show ?thesis by (simp add: regs_less_new)
  qed
qed

lemma epoll_add_sock: "epoll_add ep fd ev k = (r, k') \<Longrightarrow> kn_sock k' = kn_sock k"
  using kcall_files(3) [of k] by (cases "kcall k") (auto simp: epoll_add_def split: option.splits if_splits)

text \<open>The delivery of an event disarms the connection.\<close>

lemma epoll_fire_ok:
  assumes "regs_ok k" "kn_interest k (ep, int x) = Some w"
  shows "regs_step {x} k (epoll_fire ep (int x) k)" "\<not> live x (epoll_fire ep (int x) k)"
proof -
  show "regs_step {x} k (epoll_fire ep (int x) k)" using assms(2) by (auto simp: regs_step_def epoll_fire_def)
  have "kn_interest k (ep', int x) = None" if "ep' \<noteq> ep" for ep'
    using assms that unfolding regs_ok_def by (metis option.distinct(1))
  then have "kn_interest (epoll_fire ep (int x) k) (ep', int x) \<in> {None, Some 0}" for ep'
    using assms(2) by (cases "ep' = ep") (simp_all add: epoll_fire_def)
  then show "\<not> live x (epoll_fire ep (int x) k)" unfolding live_def by (metis empty_iff insert_iff option.distinct(1) option.inject)
qed

section \<open>The acceptor and the registrations\<close>

text \<open>The acceptor leaves the task queues, the number of I/O threads and the streams alone.\<close>

definition same_side :: "'w tcp_sys \<Rightarrow> 'w tcp_sys \<Rightarrow> bool" where
  "same_side y y' \<longleftrightarrow> y_sink y' = y_sink y \<and> length (y_info y') = length (y_info y) \<and> kn_sock (y_kern y') = kn_sock (y_kern y)"

lemma same_side_refl [simp]: "same_side y y"
  by (simp add: same_side_def)

lemma same_side_trans: "same_side x y \<Longrightarrow> same_side y z \<Longrightarrow> same_side x z"
  by (simp add: same_side_def)

lemma CloseConnection_kern: "CloseConnection env x y = Some y' \<Longrightarrow> (\<exists>fd. y_kern y' = sys_close fd (y_kern y)) \<and> same_side y y'"
  by (auto simp: CloseConnection_def erase_conn_def Let_def same_side_def split: Option.bind_splits option.splits if_splits)

lemma CloseConnection_less: "CloseConnection env x y = Some y' \<Longrightarrow> regs_less (y_kern y) (y_kern y') \<and> same_side y y'"
  using CloseConnection_kern [of env x y y'] sys_close_less by fastforce

lemma add_count_kern: "add_count d p y = Some y' \<Longrightarrow> y_kern y' = y_kern y \<and> same_side y y'"
  by (auto simp: add_count_def same_side_def)

lemma close_loop_less: "close_loop env xs y = Some y' \<Longrightarrow> regs_less (y_kern y) (y_kern y') \<and> same_side y y'"
proof (induction xs arbitrary: y)
  case (Cons x xs)
  then obtain y1 y2 p where s: "CloseConnection env x y = Some y1" "add_count (-1) p y1 = Some y2" "close_loop env xs y2 = Some y'"
    by (auto split: Option.bind_splits)
  from CloseConnection_less [OF s(1)] add_count_kern [OF s(2)] Cons.IH [OF s(3)] show ?case
    by (metis regs_less_trans same_side_trans)
qed simp

lemma HandleCloseList_less:
  assumes "HandleCloseList env y = Some y'"
  shows "regs_less (y_kern y) (y_kern y') \<and> same_side y y'"
proof -
  have "same_side (on_sock (\<lambda>s. s\<lparr>s_cList := []\<rparr>) z) z' = same_side z z'" "same_side z' (on_sock (\<lambda>s. s\<lparr>s_cList := []\<rparr>) z) = same_side z' z"
    for z z' :: "'a tcp_sys" by (simp_all add: same_side_def)
  with assms close_loop_less [of env "s_cList (y_sock y)" "on_sock (\<lambda>s. s\<lparr>s_cList := []\<rparr>) y" y'] close_loop_less [of env "s_cList (y_sock y)" y]
  show ?thesis by (auto simp: HandleCloseList_def split: if_splits)
qed

lemma setup_connection_new:
  assumes "setup_connection env fd c0 y = Some y'"
  shows "regs_new fd (y_kern y) (y_kern y') \<and> same_side y y'"
proof -
  have close: "regs_new fd (y_kern y) (y_kern z') \<and> same_side y z'"
    if "CloseConnection env x z = Some z'" "regs_new fd (y_kern y) (y_kern z)" "same_side y z" for x z z'
    using CloseConnection_less [OF that(1)] regs_new_less [OF that(2)] same_side_trans [OF that(3)] by auto
  have refl: "regs_new fd (y_kern y) (y_kern y)" by (rule regs_less_new) simp
  obtain ctx w where cw: "(if cnp (s_proc (y_sock y)) \<noteq> null then e_cnp env (cnp (s_proc (y_sock y))) (c_ip c0) (c_port c0) (y_app y)
      else (null, y_app y)) = (ctx, w)" by (metis surj_pair)
  from assms[unfolded setup_connection_def Let_def cw prod.case] obtain i0 rest ok c b where
    i: "y_info y = i0 # rest"
      "ctrl_init (e_malloc env) (y_cfg y) fd ctx (least_loaded 1 (io_count i0) 2 rest) c0 (y_bufs y) = Some (ok, c, b)"
    by (cases "y_info y") (auto split: Option.bind_splits)
  define y2 where "y2 = set_conn (nat fd) c (y\<lparr>y_app := w, y_bufs := b\<rparr>)"
  have k2: "y_kern y2 = y_kern y" "same_side y y2" by (simp_all add: y2_def same_side_def)
  show ?thesis
  proof (cases ok)
    case False
    then have "CloseConnection env (nat fd) y2 = Some y'"
      using assms[unfolded setup_connection_def Let_def cw prod.case] i by (simp add: y2_def)
    from close [OF this] refl k2 show ?thesis by simp
  next
    case True
    let ?p = "least_loaded 1 (io_count i0) 2 rest"
    note S = assms[unfolded setup_connection_def Let_def cw prod.case]
    obtain i where ia: "info_at ?p y2 = Some i" using S i True by (cases "info_at ?p y2") (simp_all add: y2_def)
    obtain added k where e1: "epoll_add (io_epollfd i) fd
        (EPOLLERR OR EPOLLHUP OR EPOLLRDHUP OR EPOLLONESHOT OR EPOLL_DEFAULT_EVENT (y_cfg y2)) (y_kern y2) = (added, k)" by (metis surj_pair)
    have e2: "(if \<not> added then CloseConnection env (nat fd) (y2\<lparr>y_kern := k\<rparr>) else add_count 1 ?p (y2\<lparr>y_kern := k\<rparr>)) = Some y'"
      using S i True ia e1 unfolding y2_def by (simp add: on_kern_def split del: if_split)
    have n: "regs_new fd (y_kern y) k" "kn_sock k = kn_sock (y_kern y)" using epoll_add_new [OF e1] epoll_add_sock [OF e1] k2 by simp_all
    show ?thesis
    proof (cases added)
      case True
      with e2 n k2(2) show ?thesis using add_count_kern [of 1 ?p "y2\<lparr>y_kern := k\<rparr>" y'] by (simp add: same_side_def)
    next
      case False
      with e2 close [of "nat fd" "y2\<lparr>y_kern := k\<rparr>" y'] n k2(2) show ?thesis by (simp add: same_side_def)
    qed
  qed
qed


lemma HandleConnect_regs:
  assumes acc: "sys_accept (y_kern y) = (Inr (fd, ip, port), k)" and h: "HandleConnect env idlefd y = Some (b, y')" and ok: "regs_ok (y_kern y)"
  shows "regs_ok (y_kern y')" "live z (y_kern y') \<Longrightarrow> int z \<noteq> fd \<Longrightarrow> live z (y_kern y)" "same_side (y\<lparr>y_kern := k\<rparr>) y'"
proof -
  have k: "kn_fds k = fd # kn_fds (y_kern y)" "fd \<notin> set (kn_fds (y_kern y))" using accept_cases [of "y_kern y"] acc by auto
  have ki: "kn_interest k = kn_interest (y_kern y)" using acc kcall_files [of "y_kern y"]
    by (cases "kcall (y_kern y)") (auto simp: sys_accept_def Let_def split: option.splits list.splits)
  have no: "kn_interest (y_kern y) (ep, fd) = None" for ep using ok k(2) unfolding regs_ok_def by blast
  let ?y1 = "y\<lparr>y_kern := k\<rparr>"
  obtain ready y2 where p: "prepare_socket fd ?y1 = (ready, y2)" by (cases "prepare_socket fd ?y1")
  have f: "same_files k (y_kern y2)" and sd: "same_side ?y1 y2"
    using prepare_socket_only [of ?y1 fd] p by (auto simp: kern_only_def same_side_def same_files_def)
  then have k2: "kn_fds (y_kern y2) = fd # kn_fds (y_kern y)" "kn_interest (y_kern y2) = kn_interest (y_kern y)"
    using k ki by (simp_all add: same_files_def)
  have ok2: "regs_ok (y_kern y2)" using ok unfolding regs_ok_def k2 by auto
  have ns: "regs_new fd (y_kern y2) (y_kern y') \<and> same_side y2 y'"
  proof (cases "ready \<and> map_of (y_conns y2) fd = None")
    case True
    then have "setup_connection env fd (ctrl_new ip port) (set_conn (nat fd) (ctrl_new ip port) y2) = Some y'"
      using h acc p by (auto simp: HandleConnect_def on_kern_def Let_def)
    from setup_connection_new [OF this] show ?thesis by (simp add: same_side_def)
  next
    case False
    then have "y' = k_close fd y2" using h acc p by (auto simp: HandleConnect_def on_kern_def Let_def split: if_splits)
    then show ?thesis using regs_less_new [OF sys_close_less] by (simp add: same_side_def)
  qed
  then have n: "regs_new fd (y_kern y2) (y_kern y')" by simp
  show "same_side ?y1 y'" using same_side_trans [OF sd] ns by simp
  show "regs_ok (y_kern y')" using n ok2 no unfolding regs_new_def k2 by simp
  show "live z (y_kern y)" if "live z (y_kern y')" "int z \<noteq> fd"
    using regs_new_live [OF n that] by (simp add: live_def k2(2))
qed

section \<open>The steps\<close>

text \<open>
  A state of the protocol is the server and the list of the connections that a task owns, from
  its submission to the end of its callback. \<open>R\<close> are the descriptors that are not connections.

  The rules: the acceptor takes a waiting client, or works on the close list; an I/O thread
  takes an event of an armed connection; the workers of the pool take tasks; a callback works on
  the buffers and the stream of its connection; it arms the connection again, after which it does
  not own it if the call succeeded; or it closes the connection.
\<close>

type_synonym 'w proto = "'w tcp_sys \<times> addr list"

inductive proto_step :: "'w tcp_env \<Rightarrow> int set \<Rightarrow> nat \<Rightarrow> u32 \<Rightarrow> u32 \<Rightarrow> 'w proto \<Rightarrow> 'w proto \<Rightarrow> bool"
  for env R n b len where
  Accept: "sys_accept (y_kern y) = (Inr (fd, ip, port), k) \<Longrightarrow> pool_can_serve env y \<Longrightarrow> HandleConnect env idlefd y = Some (ok, y') \<Longrightarrow>
    proto_step env R n b len (y, own) (y', own)"
| CloseList: "HandleCloseList env y = Some y' \<Longrightarrow> proto_step env R n b len (y, own) (y', own)"
| Event: "kn_interest (y_kern y) (ep, fd) = Some w \<Longrightarrow> w \<noteq> 0 \<Longrightarrow> fd \<notin> R \<Longrightarrow> fd \<noteq> exitfd \<Longrightarrow> has_handler ev y \<Longrightarrow> single_mode u y \<Longrightarrow>
    io_event env exitfd (fd, ev) u (deliver ep exitfd [(fd, ev)] y) = Some (False, u', y') \<Longrightarrow>
    proto_step env R n b len (y, own) (y', own @ map st_ctx (drop (length (sink_taken (y_sink y))) (sink_taken (y_sink y'))))"
| Pool: "sink_ok n b len s \<Longrightarrow> proto_step env R n b len (y, own) (y\<lparr>y_sink := s\<rparr>, own)"
| Data: "x \<in> set own \<Longrightarrow> conn_at x y = Some c \<Longrightarrow> conn_shape c' = conn_shape c \<Longrightarrow> ctrl_inv c' \<Longrightarrow>
    proto_step env R n b len (y, own) (set_conn x c' (y\<lparr>y_kern := (y_kern y)\<lparr>kn_sock := f\<rparr>\<rparr>), own)"
| Enable: "x \<in> set own \<Longrightarrow> on_events x (enableEvents run_event rd wr) y = Some (r, y') \<Longrightarrow>
    proto_step env R n b len (y, own) (y', if r then remove1 x own else own)"
| Close: "x \<in> set own \<Longrightarrow> conn_at x y = Some c \<Longrightarrow> ctrl_close (run_close new_ok) c y = Some y' \<Longrightarrow>
    proto_step env R n b len (y, own) (y', remove1 x own)"

inductive_cases proto_stepE: "proto_step env R n b len (y, own) s'"

text \<open>
  The invariant: each connection is owned by at most one task, is in the table while it is owned
  and not on the close list, and neither an owned nor a listed connection can receive an event.
\<close>

definition proto_inv :: "'w tcp_env \<Rightarrow> int set \<Rightarrow> nat \<Rightarrow> u32 \<Rightarrow> u32 \<Rightarrow> 'w proto \<Rightarrow> bool" where
  "proto_inv env R n b len s = (case s of (y, own) \<Rightarrow> server_inv env R y \<and> sink_ok n b len (y_sink y) \<and> y_info y \<noteq> [] \<and>
     regs_ok (y_kern y) \<and> distinct own \<and> (\<forall>x \<in> set own. conn_at x y \<noteq> None) \<and> set own \<inter> set (s_cList (y_sock y)) = {} \<and>
     (\<forall>x \<in> set own \<union> set (s_cList (y_sock y)). \<not> live x (y_kern y)))"

lemma proto_invD:
  assumes "proto_inv env R n b len (y, own)"
  shows "server_inv env R y" "core_inv env R y" "sink_ok n b len (y_sink y)" "y_info y \<noteq> []" "regs_ok (y_kern y)" "distinct own"
    "\<And>x. x \<in> set own \<Longrightarrow> conn_at x y \<noteq> None" "set own \<inter> set (s_cList (y_sock y)) = {}"
    "\<And>x. x \<in> set own \<union> set (s_cList (y_sock y)) \<Longrightarrow> \<not> live x (y_kern y)"
  using assms by (simp_all add: proto_inv_def server_inv_def)

lemma proto_invI:
  assumes "server_inv env R y" "sink_ok n b len (y_sink y)" "y_info y \<noteq> []" "regs_ok (y_kern y)" "distinct own"
    "\<And>x. x \<in> set own \<Longrightarrow> conn_at x y \<noteq> None" "set own \<inter> set (s_cList (y_sock y)) = {}"
    "\<And>x. x \<in> set own \<union> set (s_cList (y_sock y)) \<Longrightarrow> \<not> live x (y_kern y)"
  shows "proto_inv env R n b len (y, own)"
  using assms by (simp add: proto_inv_def)


section \<open>Preservation\<close>

lemma conn_key: "core_inv env R y \<Longrightarrow> conn_at x y \<noteq> None \<Longrightarrow> int x \<in> set (kn_fds (y_kern y))"
  by (drule core_invD(6)) (simp add: fds_ok_def conn_at_def map_of_eq_None_iff)

lemma listed_key: "server_inv env R y \<Longrightarrow> x \<in> set (s_cList (y_sock y)) \<Longrightarrow> conn_at x y \<noteq> None"
  using cList_keys [of env R y] by (auto simp: server_inv_def)

text \<open>The steps that concern one connection \<open>x\<close>.\<close>

lemma proto_inv_one:
  assumes I: "proto_inv env R n b len (y, own)" and x: "conn_at x y \<noteq> None"
    and k: "tabled env R y y'" "sink_ok n b len (y_sink y')" "regs_step {x} (y_kern y) (y_kern y')"
    and o: "distinct own'" "set own' \<subseteq> insert x (set own)"
    and l: "s_cList (y_sock y') = s_cList (y_sock y) \<or> s_cList (y_sock y') = s_cList (y_sock y) @ [x] \<and> x \<notin> set (s_cList (y_sock y))"
    and d: "set own' \<inter> set (s_cList (y_sock y')) = {}" "x \<in> set own' \<union> set (s_cList (y_sock y')) \<Longrightarrow> \<not> live x (y_kern y')"
  shows "proto_inv env R n b len (y', own')"
proof (rule proto_invI)
  note D = proto_invD [OF I]
  show "server_inv env R y'" by (rule server_inv_kept [OF D(1) k(1), of x]) (use l x in auto)
  show "regs_ok (y_kern y')" by (rule regs_step_ok [OF D(5) k(3)])
  show "y_info y' \<noteq> []" using k(1) D(4) by (simp add: tabled_def)
  show "conn_at z y' \<noteq> None" if "z \<in> set own'" for z using k(1) D(7) x o(2) that by (auto simp: tabled_def)
  show "\<not> live z (y_kern y')" if z: "z \<in> set own' \<union> set (s_cList (y_sock y'))" for z
  proof (cases "z = x")
    case True
    with d(2) z show ?thesis by simp
  next
    case False
    then have "z \<in> set own \<union> set (s_cList (y_sock y))" using z o(2) l by auto
    from D(9) [OF this] regs_step_live [OF k(3)] False show ?thesis by blast
  qed
qed (use k o d in simp_all)

lemma proto_accept:
  assumes I: "proto_inv env R n b len (y, own)" and acc: "sys_accept (y_kern y) = (Inr (fd, ip, port), k)"
    and can: "pool_can_serve env y" and h: "HandleConnect env idlefd y = Some (ok, y')"
  shows "proto_inv env R n b len (y', own)"
proof (rule proto_invI)
  note D = proto_invD [OF I] and G = HandleConnect_regs [OF acc h D(5)]
  from HandleConnect_server_inv [OF D(1,4) can acc, of idlefd] h have
    y': "server_inv env R y'" "y_conns y' = y_conns y \<or> (\<exists>c. y_conns y' = y_conns y @ [(fd, c)])" by auto
  have cl: "s_cList (y_sock y') = s_cList (y_sock y)" using HandleConnect_ok [OF D(2,4) can acc, of idlefd] h by auto
  have "fd \<notin> set (kn_fds (y_kern y))" using accept_cases [of "y_kern y"] acc by auto
  then have old: "int z \<noteq> fd" if "conn_at z y \<noteq> None" for z using conn_key [OF D(2) that] by auto
  show "server_inv env R y'" "regs_ok (y_kern y')" using y'(1) G(1) .
  show "sink_ok n b len (y_sink y')" "y_info y' \<noteq> []" using G(3) D(3,4) by (auto simp: same_side_def)
  show "conn_at z y' \<noteq> None" if "z \<in> set own" for z
    using D(7) [OF that] y'(2) by (auto simp: conn_at_def map_add_def split: option.splits)
  show "\<not> live z (y_kern y')" if "z \<in> set own \<union> set (s_cList (y_sock y'))" for z
    using D(9) [of z] G(2) [of z] old [of z] D(7) [of z] listed_key [OF D(1), of z] that unfolding cl by blast
  show "distinct own" "set own \<inter> set (s_cList (y_sock y')) = {}" using D(6,8) cl by simp_all
qed

lemma map_of_filter_key: "map_of (filter (\<lambda>(f, c). P f) cs) k = (if P k then map_of cs k else None)"
  by (induction cs) auto

lemma proto_closelist:
  assumes I: "proto_inv env R n b len (y, own)" and st: "stale_readable env" and h: "HandleCloseList env y = Some y'"
  shows "proto_inv env R n b len (y', own)" "\<And>x. x \<in> set own \<Longrightarrow> conn_at x y' = conn_at x y"
proof -
  note D = proto_invD [OF I]
  from HandleCloseList_ok [OF D(1) st] h have
    y': "server_inv env R y'" "s_cList (y_sock y') = []"
      "y_conns y' = filter (\<lambda>(fd, c). nat fd \<notin> set (s_cList (y_sock y))) (y_conns y)" by auto
  from HandleCloseList_less [OF h] have g: "regs_less (y_kern y) (y_kern y')" "same_side y y'" by simp_all
  show same: "conn_at x y' = conn_at x y" if "x \<in> set own" for x
    using that D(8) by (auto simp: conn_at_def y'(3) map_of_filter_key)
  show "proto_inv env R n b len (y', own)"
  proof (rule proto_invI)
    show "regs_ok (y_kern y')" using g(1) D(5) by (simp add: regs_less_def)
    show "sink_ok n b len (y_sink y')" "y_info y' \<noteq> []" using g(2) D(3,4) by (auto simp: same_side_def)
    show "\<not> live z (y_kern y')" if "z \<in> set own \<union> set (s_cList (y_sock y'))" for z
      using D(9) [of z] regs_less_live [OF g(1)] that y'(2) by auto
    show "conn_at z y' \<noteq> None" if "z \<in> set own" for z using same [OF that] D(7) [OF that] by simp
  qed (use y' D(6) in simp_all)
qed


lemma enable_events_ok:
  assumes inv: "core_inv env R y" and c: "conn_at x y = Some c" and e: "on_events x (enableEvents run_event rd wr) y = Some (r, y')"
  shows "kept env R y y'" "y_sink y' = y_sink y" "s_cList (y_sock y') = s_cList (y_sock y)"
    "regs_step (if r then {x} else {}) (y_kern y) (y_kern y')"
proof -
  obtain r' k where run: "run_event c rd wr y = Some (r', y\<lparr>y_kern := k\<rparr>)" "kn_fds k = kn_fds (y_kern y)"
    "regs_step (if r' then {x} else {}) (y_kern y) k" "kn_sock k = kn_sock (y_kern y)" using EnableEvent_ok [OF inv c refl] by blast
  obtain ev where y': "r' = r" "y' = set_conn x (c\<lparr>c_events := ev\<rparr>) (y\<lparr>y_kern := k\<rparr>)"
    using e c run(1) by (auto simp: on_events_def enableEvents_def)
  have k: "kept env R y (y\<lparr>y_kern := k\<rparr>)" by (rule kept_kern [OF inv run(2,4)])
  then have "core_inv env R (y\<lparr>y_kern := k\<rparr>)" by (simp add: kept_defs)
  from kept_set_conn [OF this, of x c "c\<lparr>c_events := ev\<rparr>"] c conn_facts(2) [OF inv c]
  show "kept env R y y'" unfolding y'(2) using kept_trans [OF k] by simp
  show "y_sink y' = y_sink y" "s_cList (y_sock y') = s_cList (y_sock y)" "regs_step (if r then {x} else {}) (y_kern y) (y_kern y')"
    using run(3) y'(1) by (simp_all add: y'(2))
qed

lemma deliver_one: "fd \<noteq> exitfd \<Longrightarrow> deliver ep exitfd [(fd, ev)] y = y\<lparr>y_kern := epoll_fire ep fd (y_kern y)\<rparr>"
  by (simp add: deliver_def)

text \<open>An armed descriptor that is not of the server's own belongs to a connection that is neither owned nor listed.\<close>

lemma armed_free:
  assumes I: "proto_inv env R n b len (y, own)" and e: "kn_interest (y_kern y) (ep, fd) = Some w" "w \<noteq> 0" "fd \<notin> R"
  obtains x c where "fd = int x" "conn_at x y = Some c" "x \<notin> set own" "x \<notin> set (s_cList (y_sock y))"
proof -
  note D = proto_invD [OF I]
  have "fd \<in> set (kn_fds (y_kern y))" using D(5) e(1) unfolding regs_ok_def by blast
  then have "fd \<in> fst ` set (y_conns y)" using core_invD(6) [OF D(2)] e(3) by (auto simp: fds_ok_def)
  then obtain c where c: "map_of (y_conns y) fd = Some c" by (metis map_of_eq_None_iff option.exhaust)
  have "0 \<le> fd" using table_okD(2) [OF core_invD(3) [OF D(2)] map_of_SomeD [OF c]] by (simp add: conn_ok_def)
  then have x: "fd = int (nat fd)" by simp
  moreover have "live (nat fd) (y_kern y)" using e(1,2) x by (auto simp: live_def)
  ultimately show thesis using that [of "nat fd" c] c D(9) [of "nat fd"] by (auto simp: conn_at_def)
qed

lemma event_result:
  assumes I: "proto_inv env R n b len (y, own)" and e: "kn_interest (y_kern y) (ep, fd) = Some w" "w \<noteq> 0" "fd \<notin> R" "fd \<noteq> exitfd"
    and h: "has_handler ev y" "single_mode u y"
  obtains x u' y1 y' where "fd = int x" "y1 = deliver ep exitfd [(fd, ev)] y" "conn_at x y \<noteq> None" "x \<notin> set own" "x \<notin> set (s_cList (y_sock y))"
    "io_event env exitfd (fd, ev) u y1 = Some (False, u', y')" "kept env R y y'" "sink_ok n b len (y_sink y')"
    "regs_step {x} (y_kern y) (y_kern y1)" "\<not> live x (y_kern y1)" "y_sink y1 = y_sink y" "s_cList (y_sock y1) = s_cList (y_sock y)"
    "submitted x (proc_of ev y1) y1 y' \<or> rearmed x y1 y' \<or> closing x y1 y'"
proof -
  note D = proto_invD [OF I]
  obtain x c where x: "fd = int x" "conn_at x y = Some c" "x \<notin> set own" "x \<notin> set (s_cList (y_sock y))" by (rule armed_free [OF I e(1-3)])
  define y1 where "y1 = y\<lparr>y_kern := epoll_fire ep fd (y_kern y)\<rparr>"
  note F = epoll_fire_ok [OF D(5) e(1) [unfolded x(1)]]
  have k1: "kept env R y y1" unfolding y1_def by (rule kept_kern [OF D(2)]) (simp_all add: epoll_fire_def)
  have s1: "server_inv env R y1" by (rule server_inv_kept [OF D(1) kept_tabled [OF k1]]) (simp add: y1_def)
  have p1: "sink_ok n b len (y_sink y1)" "conn_at (nat fd) y1 = Some c" "single_mode u y1" "has_handler ev y1"
    "nat fd \<notin> set (s_cList (y_sock y1))"
    using D(3) x h by (simp_all add: y1_def single_mode_def has_handler_def)
  from io_event_server_inv [OF s1 p1(1,2,3) e(4) p1(4,5)] x(1) obtain u' y' where
    r: "io_event env exitfd (fd, ev) u y1 = Some (False, u', y')" "kept env R y1 y'" "sink_ok n b len (y_sink y')"
      "submitted x (proc_of ev y1) y1 y' \<or> rearmed x y1 y' \<or> closing x y1 y'" by auto
  show thesis
    by (rule that [of x y1 u' y']) (use r kept_trans [OF k1 r(2)] x F e(4) in \<open>simp_all add: y1_def deliver_one\<close>)
qed

lemma proto_event:
  assumes I: "proto_inv env R n b len (y, own)" and e: "kn_interest (y_kern y) (ep, fd) = Some w" "w \<noteq> 0" "fd \<notin> R" "fd \<noteq> exitfd"
    and h: "has_handler ev y" "single_mode u y" and io: "io_event env exitfd (fd, ev) u (deliver ep exitfd [(fd, ev)] y) = Some (False, u', y')"
  shows "proto_inv env R n b len (y', own @ map st_ctx (drop (length (sink_taken (y_sink y))) (sink_taken (y_sink y'))))"
proof -
  note D = proto_invD [OF I]
  obtain x u2 y1 y2 where r: "fd = int x" "y1 = deliver ep exitfd [(fd, ev)] y" "conn_at x y \<noteq> None" "x \<notin> set own"
    "x \<notin> set (s_cList (y_sock y))" "io_event env exitfd (fd, ev) u y1 = Some (False, u2, y2)" "kept env R y y2" "sink_ok n b len (y_sink y2)"
    "regs_step {x} (y_kern y) (y_kern y1)" "\<not> live x (y_kern y1)" "y_sink y1 = y_sink y" "s_cList (y_sock y1) = s_cList (y_sock y)"
    "submitted x (proc_of ev y1) y1 y2 \<or> rearmed x y1 y2 \<or> closing x y1 y2" by (rule event_result [OF I e h])
  have y2: "y2 = y'" using r(2,6) io by simp
  note one = proto_inv_one [OF I r(3) kept_tabled [OF r(7)] r(8), unfolded y2]
  have step: "regs_step {x} (y_kern y) (y_kern y')" if "regs_step F (y_kern y1) (y_kern y')" "F \<subseteq> {x}" for F
    by (rule regs_step_trans [OF r(9) that(1)]) (use that(2) in simp_all)
  have dead: "\<not> live x (y_kern y')" if "regs_step {} (y_kern y1) (y_kern y')" using regs_step_live [OF that] r(10) by auto
  from r(13) show ?thesis unfolding y2
  proof (elim disjE)
    assume s: "submitted x (proc_of ev y1) y1 y'"
    then have "map st_ctx (drop (length (sink_taken (y_sink y))) (sink_taken (y_sink y'))) = [x]" using r(11) by (simp add: submitted_def)
    with one [OF step, of "{}" "own @ [x]"] s dead r(4,5,12) D(6,8) show ?thesis by (auto simp: submitted_def)
  next
    assume s: "rearmed x y1 y'"
    then have "map st_ctx (drop (length (sink_taken (y_sink y))) (sink_taken (y_sink y'))) = []" using r(11) by (simp add: rearmed_def)
    with one [OF step, of "{x}" own] s r(4,5,12) D(6,8) show ?thesis by (auto simp: rearmed_def)
  next
    assume s: "closing x y1 y'"
    then have "map st_ctx (drop (length (sink_taken (y_sink y))) (sink_taken (y_sink y'))) = []" using r(11) by (simp add: closing_def)
    with one [OF step, of "{}" own] s dead r(4,5,12) D(6,8) show ?thesis by (auto simp: closing_def)
  qed
qed


lemma proto_worker:
  assumes I: "proto_inv env R n b len (y, own)" and x: "x \<in> set own"
  shows "conn_at x y = Some c \<Longrightarrow> conn_shape c' = conn_shape c \<Longrightarrow> ctrl_inv c' \<Longrightarrow>
      proto_inv env R n b len (set_conn x c' (y\<lparr>y_kern := (y_kern y)\<lparr>kn_sock := f\<rparr>\<rparr>), own)"
    "on_events x (enableEvents run_event rd wr) y = Some (r, y') \<Longrightarrow> proto_inv env R n b len (y', if r then remove1 x own else own)"
    "conn_at x y = Some c \<Longrightarrow> ctrl_close (run_close new_ok) c y = Some y' \<Longrightarrow> proto_inv env R n b len (y', remove1 x own)"
proof -
  note D = proto_invD [OF I]
  have nl: "\<not> live x (y_kern y)" and ncl: "x \<notin> set (s_cList (y_sock y))" using D(8,9) x by auto
  note one = proto_inv_one [OF I D(7) [OF x]]
  have dead: "\<not> live x k'" if "regs_step {} (y_kern y) k'" for k' using regs_step_live [OF that] nl by auto
  have wide: "regs_step {x} k k'" if "regs_step {} k k'" for k k' by (rule regs_step_trans [OF that regs_step_refl [of "{}"]]) simp_all
  have rm: "distinct (remove1 x own)" "set (remove1 x own) = set own - {x}" using D(6) by simp_all
  show "proto_inv env R n b len (set_conn x c' (y\<lparr>y_kern := (y_kern y)\<lparr>kn_sock := f\<rparr>\<rparr>), own)"
    if c: "conn_at x y = Some c" and s: "conn_shape c' = conn_shape c" "ctrl_inv c'"
  proof (rule one)
    let ?y = "y\<lparr>y_kern := (y_kern y)\<lparr>kn_sock := f\<rparr>\<rparr>"
    have k: "tabled env R y ?y" by (rule tabled_kern [OF D(2)]) simp
    then have "core_inv env R ?y" by (simp add: tabled_def)
    from tabled_set_conn [OF this _ s, of x] c show "tabled env R y (set_conn x c' ?y)" using tabled_trans [OF k] by simp
  qed (use D nl x in \<open>auto simp: regs_step_def live_def\<close>)
  show "proto_inv env R n b len (y', if r then remove1 x own else own)" if e: "on_events x (enableEvents run_event rd wr) y = Some (r, y')"
  proof -
    obtain c where "conn_at x y = Some c" using D(7) [OF x] by auto
    note E = enable_events_ok [OF D(2) this e]
    show ?thesis
    proof (cases r)
      case True
      with one [OF kept_tabled [OF E(1)], of "remove1 x own"] E D(3,8) ncl rm show ?thesis by auto
    next
      case False
      with one [OF kept_tabled [OF E(1)], of own] E D(3,6,8) x wide dead show ?thesis by auto
    qed
  qed
  show "proto_inv env R n b len (y', remove1 x own)" if c: "conn_at x y = Some c" and cl: "ctrl_close (run_close new_ok) c y = Some y'"
  proof -
    have "ActiveClose new_ok c y = Some y'"
      using cl core_invD(2) [OF D(2)] by (simp add: ctrl_close_def run_close_def hooks_ok_def)
    with ActiveClose_ok [OF D(2) c refl, of new_ok] have a: "kept env R y y'" "y_sink y' = y_sink y"
      "s_cList (y_sock y') = s_cList (y_sock y) @ [x]" "regs_step {} (y_kern y) (y_kern y')" by auto
    show ?thesis by (rule one [OF kept_tabled [OF a(1)] _ wide [OF a(4)] rm(1)]) (use a D(3,8) ncl rm dead in auto)
  qed
qed

lemma proto_step_inv:
  assumes "proto_step env R n b len s s'" "proto_inv env R n b len s" "stale_readable env"
  shows "proto_inv env R n b len s'"
  using assms(1,2)
proof (cases rule: proto_step.cases)
  case (Pool sk y own)
  then show ?thesis using assms(2)
    by (auto simp: proto_inv_def server_inv_def core_inv_cong conn_at_def)
next
  case (Enable x own rd wr y r y')
  then show ?thesis using assms(2) proto_worker(2) by metis
qed (use assms(2,3) in \<open>auto intro: proto_accept proto_closelist(1) proto_event proto_worker\<close>)

text \<open>A server that starts: consistent, nothing to close, no task submitted.\<close>

definition proto_start :: "'w tcp_env \<Rightarrow> int set \<Rightarrow> nat \<Rightarrow> u32 \<Rightarrow> u32 \<Rightarrow> 'w tcp_sys \<Rightarrow> bool" where
  "proto_start env R n b len y \<longleftrightarrow> server_inv env R y \<and> sink_ok n b len (y_sink y) \<and> y_info y \<noteq> [] \<and> regs_ok (y_kern y) \<and> s_cList (y_sock y) = []"

lemma proto_reach_inv:
  assumes "(proto_step env R n b len)\<^sup>*\<^sup>* (y0, []) s" "proto_start env R n b len y0" "stale_readable env"
  shows "proto_inv env R n b len s"
  using assms(1)
proof (induction rule: rtranclp_induct)
  case base
  show ?case using assms(2) by (simp add: proto_start_def proto_inv_def)
next
  case (step s s')
  then show ?case using proto_step_inv assms(3) by blast
qed


section \<open>Properties\<close>

text \<open>The sample server with connection 7 armed for reading.\<close>

definition server1_armed :: "unit tcp_sys" where
  "server1_armed = server1\<lparr>y_kern := (y_kern server1)\<lparr>kn_interest := (kn_interest kern0)((4, 7) := Some EPOLLIN)\<rparr>\<rparr>"

lemma server1_armed_start: "proto_start server_env server_fds 1 1 4 server1_armed"
proof -
  have k: "kept server_env server_fds server1 server1_armed"
    unfolding server1_armed_def by (rule kept_kern) (use server1_inv in \<open>simp_all add: server_inv_def\<close>)
  have "server_inv server_env server_fds server1_armed"
    by (rule server_inv_kept [OF server1_inv kept_tabled [OF k]]) (simp add: server1_armed_def)
  moreover have "regs_ok (y_kern server1_armed)"
    by (auto simp: regs_ok_def server1_armed_def server1_def server0_def kern0_def split: if_splits)
  ultimately show ?thesis
    using server1_sink(1) by (simp add: proto_start_def server1_armed_def server1_def server0_def tcp_new_def)
qed

lemma server1_armed_event:
  "\<exists>y own. (proto_step server_env server_fds 1 1 4)\<^sup>*\<^sup>* (server1_armed, []) (y, own) \<and> sink_ok 1 1 4 (y_sink y)"
proof -
  have I: "proto_inv server_env server_fds 1 1 4 (server1_armed, [])"
    using server1_armed_start by (simp add: proto_start_def proto_inv_def)
  have e: "kn_interest (y_kern server1_armed) (4, 7) = Some EPOLLIN" "EPOLLIN \<noteq> 0" "7 \<notin> server_fds" "(7 :: int) \<noteq> 5"
    by (simp_all add: server1_armed_def epoll_defs server_fds_def)
  have h: "has_handler EPOLLIN server1_armed" "single_mode util_new server1_armed"
    using server1_sink(2,3) by (simp_all add: server1_armed_def has_handler_def single_mode_def)
  obtain u' y' where io: "io_event server_env 5 (7, EPOLLIN) util_new (deliver 4 5 [(7, EPOLLIN)] server1_armed) = Some (False, u', y')"
    "sink_ok 1 1 4 (y_sink y')" by (rule event_result [OF I e h]) auto
  from r_into_rtranclp [of "proto_step server_env server_fds 1 1 4", OF proto_step.Event [OF e h io(1)]] io(2) show ?thesis by blast
qed

lemma server_env_stale: "stale_readable server_env"
  by (simp add: stale_readable_def server_env_def)



text \<open>
  An I/O thread never meets an erased connection. In every reachable state each armed descriptor
  that is not one of the server's own belongs to a connection of the table, and with single
  submission the handling of an event for which a callback exists is defined and returns.
\<close>

theorem events_never_undefined:
  assumes "proto_start env R n b len y0" "stale_readable env" "(proto_step env R n b len)\<^sup>*\<^sup>* (y0, []) (y, own)"
    "kn_interest (y_kern y) (ep, fd) = Some w" "w \<noteq> 0" "fd \<notin> R" "fd \<noteq> exitfd" "has_handler ev y" "single_mode u y"
  shows "conn_at (nat fd) y \<noteq> None \<and> (\<exists>u' y'. io_event env exitfd (fd, ev) u (deliver ep exitfd [(fd, ev)] y) = Some (False, u', y'))"
proof -
  have I: "proto_inv env R n b len (y, own)" by (rule proto_reach_inv [OF assms(3,1,2)])
  show ?thesis by (rule event_result [OF I assms(4-9)]) auto
qed

theorem events_never_undefined_witness:
  "conn_at (nat 7) server1_armed \<noteq> None \<and>
   (\<exists>u' y'. io_event server_env 5 (7, EPOLLIN) util_new (deliver 4 5 [(7, EPOLLIN)] server1_armed) = Some (False, u', y'))"
proof (rule events_never_undefined [OF server1_armed_start server_env_stale rtranclp.rtrancl_refl])
  show "kn_interest (y_kern server1_armed) (4, 7) = Some EPOLLIN" "EPOLLIN \<noteq> 0" "7 \<notin> server_fds" "(7 :: int) \<noteq> 5"
    by (simp_all add: server1_armed_def epoll_defs server_fds_def)
  show "has_handler EPOLLIN server1_armed" "single_mode util_new server1_armed"
    using server1_sink(2,3) by (simp_all add: server1_armed_def has_handler_def single_mode_def)
qed

end
