(* ===== verification/SP_Batch.thy ===== *)
theory SP_Batch
  imports SP_Protocol
begin

text \<open>
  The protocol of \<open>SP_Protocol\<close> with batch submission, the default of the library: every I/O thread collects the tasks of a
  round in its \<open>UtilTaskTcp_Multipe\<close> and commits them when the buffer is full and at the end of the round.

  A connection whose event was delivered is held by the I/O thread until its task is accepted by the pool, its
  registration is armed again or it is queued for closing. A commit that the pool refuses may also
  forget connections; they stay in the table without a registration that can fire. The steps keep the
  invariant of \<open>SP_Protocol\<close>, where the pending connections count as owned.
\<close>

section \<open>Dealing with held connections\<close>

text \<open>
  The connections \<open>P\<close> were held, \<open>P'\<close> are held afterwards: the others were accepted by the pool, armed, queued for
  closing, or forgotten.
\<close>

definition dealt :: "addr list \<Rightarrow> addr list \<Rightarrow> 'w tcp_sys \<Rightarrow> 'w tcp_sys \<Rightarrow> bool" where
  "dealt P P' y y' \<longleftrightarrow> (\<exists>acc arm cl lost. mset P = mset (map st_ctx acc @ arm @ cl @ lost @ P') \<and>
     sink_taken (y_sink y') = sink_taken (y_sink y) @ acc \<and> s_cList (y_sock y') = s_cList (y_sock y) @ cl \<and>
     regs_step (set arm) (y_kern y) (y_kern y'))"

text \<open>The connections whose tasks the pool has accepted between two states.\<close>

definition newly_taken :: "'w tcp_sys \<Rightarrow> 'w tcp_sys \<Rightarrow> addr list" where
  "newly_taken y y' = map st_ctx (drop (length (sink_taken (y_sink y))) (sink_taken (y_sink y')))"

lemma server_inv_closing:
  assumes "server_inv env R y" "tabled env R y y'" "s_cList (y_sock y') = s_cList (y_sock y) @ cl"
    "distinct cl" "set cl \<inter> set (s_cList (y_sock y)) = {}" "\<And>x. x \<in> set cl \<Longrightarrow> conn_at x y \<noteq> None"
  shows "server_inv env R y'"
proof -
  have i: "core_inv env R y" "core_inv env R y'" using assms(1,2) by (simp_all add: server_inv_def tabled_def)
  have "nat ` fst ` set (y_conns y') = nat ` fst ` set (y_conns y)"
    using assms(2) unfolding cList_keys [OF i(1)] cList_keys [OF i(2)] tabled_def by auto
  with assms(1,3-6) i cList_keys [OF i(1)] show ?thesis by (auto simp: server_inv_def)
qed

lemma proto_dealt:
  assumes I: "proto_inv env R n b len (y, Q @ P)" and k: "kept env R y y'" "sink_ok n b len (y_sink y')" and d: "dealt P P' y y'"
  shows "proto_inv env R n b len (y', Q @ newly_taken y y' @ P')"
proof -
  note D = proto_invD [OF I]
  obtain acc arm cl lost where e: "mset P = mset (map st_ctx acc @ arm @ cl @ lost @ P')"
    "sink_taken (y_sink y') = sink_taken (y_sink y) @ acc" "s_cList (y_sock y') = s_cList (y_sock y) @ cl"
    "regs_step (set arm) (y_kern y) (y_kern y')" using d unfolding dealt_def by blast
  have new: "newly_taken y y' = map st_ctx acc" using e(2) by (simp add: newly_taken_def)
  let ?W = "map st_ctx acc @ arm @ cl @ lost @ P'"
  have m: "mset (Q @ P) = mset (Q @ ?W)" using e(1) by simp
  have dW: "distinct (Q @ ?W)" using D(6) mset_eq_imp_distinct_iff [OF m] by blast
  have sW: "set P = set ?W" by (rule mset_eq_setD [OF e(1)])
  have in_held: "z \<in> set (Q @ P)" if "z \<in> set Q \<or> z \<in> set ?W" for z using that sW by auto
  show ?thesis unfolding new
  proof (rule proto_invI)
    show "server_inv env R y'"
    proof (rule server_inv_closing [OF D(1) kept_tabled [OF k(1)] e(3)])
      show "distinct cl" using dW by simp
      show "set cl \<inter> set (s_cList (y_sock y)) = {}" using D(8) in_held by fastforce
      show "conn_at z y \<noteq> None" if "z \<in> set cl" for z using D(7) in_held [of z] that by simp
    qed
    show "y_info y' \<noteq> []" using k(1) D(4) by (simp add: kept_defs)
    show "regs_ok (y_kern y')" by (rule regs_step_ok [OF D(5) e(4)])
    show "conn_at z y' \<noteq> None" if "z \<in> set (Q @ map st_ctx acc @ P')" for z
      using D(7) [OF in_held [of z]] that k(1) by (auto simp: kept_defs)
    show "set (Q @ map st_ctx acc @ P') \<inter> set (s_cList (y_sock y')) = {}"
    proof -
      have "z \<notin> set (s_cList (y_sock y))" if "z \<in> set (Q @ map st_ctx acc @ P')" for z using D(8) in_held [of z] that by auto
      moreover have "z \<notin> set cl" if "z \<in> set (Q @ map st_ctx acc @ P')" for z using dW that by auto
      ultimately show ?thesis using e(3) by auto
    qed
    show "\<not> live z (y_kern y')" if z: "z \<in> set (Q @ map st_ctx acc @ P') \<union> set (s_cList (y_sock y'))" for z
    proof -
      have "z \<in> set (Q @ P) \<union> set (s_cList (y_sock y))" using z e(3) in_held [of z] by auto
      then have "\<not> live z (y_kern y)" by (rule D(9))
      moreover have "z \<notin> set arm"
      proof
        assume a: "z \<in> set arm"
        then have "z \<notin> set (s_cList (y_sock y))" using D(8) in_held [of z] by auto
        with z e(3) dW a show False by auto
      qed
      ultimately show ?thesis using regs_step_live [OF e(4)] by blast
    qed
  qed (use k(2) dW in auto)
qed

section \<open>The server as a sink, with its registrations\<close>

text \<open>
  A state that the operations of the sink reach from \<open>y0\<close>: each connection that was given back has either been armed or
  queued for closing.
\<close>

definition sink_from :: "'w tcp_env \<Rightarrow> int set \<Rightarrow> nat \<Rightarrow> u32 \<Rightarrow> u32 \<Rightarrow> 'w tcp_sys \<Rightarrow> 'w tcp_sys \<Rightarrow> bool" where
  "sink_from env R n b len y0 y \<longleftrightarrow> kept env R y0 y \<and> sink_ok n b len (y_sink y) \<and>
     (\<exists>ren arm cl. sk_rearmed (y_sink y) = sk_rearmed (y_sink y0) @ ren \<and> mset ren = mset (arm @ cl) \<and>
        s_cList (y_sock y) = s_cList (y_sock y0) @ cl \<and> regs_step (set arm) (y_kern y0) (y_kern y))"

lemma sink_from_start: "core_inv env R y \<Longrightarrow> sink_ok n b len (y_sink y) \<Longrightarrow> sink_from env R n b len y y"
  unfolding sink_from_def by (auto simp: kept_refl intro!: exI [of _ "[]"])

lemma sink_from_sink:
  assumes "sink_from env R n b len y0 y" "sink_ok n b len s" "sk_rearmed s = sk_rearmed (y_sink y)"
  shows "sink_from env R n b len y0 (y\<lparr>y_sink := s\<rparr>)"
proof -
  from assms(1) have k: "kept env R y0 y" by (simp add: sink_from_def)
  then have "kept env R y (y\<lparr>y_sink := s\<rparr>)" by (intro kept_sink) (simp add: kept_defs)
  from kept_trans [OF k this] assms show ?thesis by (simp add: sink_from_def)
qed

lemma sink_from_renable:
  assumes f: "sink_from env R n b len y0 y" and x: "conn_at x y0 \<noteq> None"
  shows "\<exists>y'. tcp_renable new_ok x y = Some y' \<and> sink_from env R n b len y0 y' \<and> sink_taken (y_sink y') = sink_taken (y_sink y) \<and>
    sk_rearmed (y_sink y') = sk_rearmed (y_sink y) @ [x]"
proof -
  from f obtain ren arm cl where F: "kept env R y0 y" "sink_ok n b len (y_sink y)" "sk_rearmed (y_sink y) = sk_rearmed (y_sink y0) @ ren"
    "mset ren = mset (arm @ cl)" "s_cList (y_sock y) = s_cList (y_sock y0) @ cl" "regs_step (set arm) (y_kern y0) (y_kern y)"
    unfolding sink_from_def by blast
  from x obtain c0 where "conn_at x y0 = Some c0" by auto
  then obtain c where c: "conn_at x y = Some c" by (rule kept_conn [OF F(1)])
  have inv: "core_inv env R y" using F(1) by (simp add: kept_defs)
  from tcp_renable_ok [OF inv c, of new_ok] obtain y' where
    y': "tcp_renable new_ok x y = Some y'" "kept env R y y'" "y_sink y' = (y_sink y)\<lparr>sk_rearmed := sk_rearmed (y_sink y) @ [x]\<rparr>"
      "s_cList (y_sock y') = s_cList (y_sock y) \<and> armed x y' \<and> regs_step {x} (y_kern y) (y_kern y') \<or>
       s_cList (y_sock y') = s_cList (y_sock y) @ [x] \<and> regs_step {} (y_kern y) (y_kern y')" by blast
  have k: "kept env R y0 y'" by (rule kept_trans [OF F(1) y'(2)])
  have s: "sink_ok n b len (y_sink y')" "sk_rearmed (y_sink y') = sk_rearmed (y_sink y0) @ ren @ [x]" using F(2,3) y'(3) by simp_all
  have "\<exists>arm' cl'. mset (ren @ [x]) = mset (arm' @ cl') \<and> s_cList (y_sock y') = s_cList (y_sock y0) @ cl' \<and>
      regs_step (set arm') (y_kern y0) (y_kern y')"
    using y'(4)
  proof (elim disjE conjE)
    assume "s_cList (y_sock y') = s_cList (y_sock y)" "regs_step {x} (y_kern y) (y_kern y')"
    moreover have "regs_step (set (arm @ [x])) (y_kern y0) (y_kern y')" by (rule regs_step_trans [OF F(6) calculation(2)]) auto
    ultimately show ?thesis using F(4,5) by (intro exI [of _ "arm @ [x]"] exI [of _ cl]) simp
  next
    assume "s_cList (y_sock y') = s_cList (y_sock y) @ [x]" "regs_step {} (y_kern y) (y_kern y')"
    moreover have "regs_step (set arm) (y_kern y0) (y_kern y')" by (rule regs_step_trans [OF F(6) calculation(2)]) auto
    ultimately show ?thesis using F(4,5) by (intro exI [of _ arm] exI [of _ "cl @ [x]"]) simp
  qed
  with k s have "sink_from env R n b len y0 y'" unfolding sink_from_def by blast
  with y'(1,3) show ?thesis by simp
qed

interpretation from_y: task_sink "sink_from env R n b len y0" "{x. conn_at x y0 \<noteq> None}" len "\<lambda>y. sink_taken (y_sink y)" "\<lambda>y. sk_rearmed (y_sink y)"
  "tcp_emplace env" "tcp_append env" "tcp_append_bulk env" "tcp_renable new_ok"
  for env :: "'w tcp_env" and R n b len y0 new_ok
proof
  fix y :: "'w tcp_sys" and t
  assume y: "sink_from env R n b len y0 y"
  then have s: "sink_ok n b len (y_sink y)" by (simp add: sink_from_def)
  note k = sink_from_sink [OF y]
  show "\<exists>r y'. tcp_emplace env t y = Some (r, y') \<and> sink_from env R n b len y0 y' \<and>
      sink_taken (y_sink y') = sink_taken (y_sink y) @ (if r then [t] else []) \<and> sk_rearmed (y_sink y') = sk_rearmed (y_sink y)"
    using pool_sink.emplace_law [OF s, of "e_seen env" t] k by (auto simp: tcp_emplace_def)
  show "\<exists>r y'. tcp_append env t y = Some (r, y') \<and> sink_from env R n b len y0 y' \<and>
      sink_taken (y_sink y') = sink_taken (y_sink y) @ (if r then [t] else []) \<and> sk_rearmed (y_sink y') = sk_rearmed (y_sink y)"
    using pool_sink.append_law [OF s, of "e_seen env" t] k by (auto simp: tcp_append_def)
  fix cnt :: u32 and ts :: "SockTaskTcp list"
  assume "cnt \<le> len" "unat cnt \<le> length ts"
  from pool_sink.bulk_law [OF s this, of "e_seen env"] k show "\<exists>m y'. tcp_append_bulk env ts cnt y = Some (m, y') \<and> m \<le> cnt \<and>
      sink_from env R n b len y0 y' \<and> sink_taken (y_sink y') = sink_taken (y_sink y) @ take (unat m) ts \<and>
      sk_rearmed (y_sink y') = sk_rearmed (y_sink y)"
    by (auto simp: tcp_append_bulk_def)
next
  fix y :: "'w tcp_sys" and x
  assume "sink_from env R n b len y0 y" "x \<in> {x. conn_at x y0 \<noteq> None}"
  then show "\<exists>y'. tcp_renable new_ok x y = Some y' \<and> sink_from env R n b len y0 y' \<and>
      sink_taken (y_sink y') = sink_taken (y_sink y) \<and> sk_rearmed (y_sink y') = sk_rearmed (y_sink y) @ [x]"
    by (intro sink_from_renable) auto
qed

section \<open>Commit, append and reset\<close>

text \<open>The connections that wait in the buffer of an I/O thread, and the invariant of the buffer between two operations.\<close>

definition pending :: "UtilTaskTcp \<Rightarrow> addr list" where
  "pending u = map st_ctx (tm_pending (ut_tm u))"

definition util_ok :: "u32 \<Rightarrow> UtilTaskTcp \<Rightarrow> bool" where
  "util_ok B u \<longleftrightarrow> tm_inv B (ut_tm u) \<and> tm_size (ut_tm u) \<noteq> B"

definition batch_mode :: "u32 \<Rightarrow> u32 \<Rightarrow> 'w tcp_sys \<Rightarrow> bool" where
  "batch_mode B len y \<longleftrightarrow> THREADPOOL_BATCH_SIZE_SUBMIT (y_cfg y) \<noteq> 1 \<and> batch_of (y_cfg y) = B \<and> B \<le> len"

lemma commit_dealt:
  assumes inv: "core_inv env R y" "sink_ok n b len (y_sink y)" and u: "tm_inv B u" and lim: "B \<le> len"
    and c: "\<And>x. x \<in> set (map st_ctx (tm_pending u)) \<Longrightarrow> conn_at x y \<noteq> None"
  shows "\<exists>u' y'. multi_commit (tcp_append env) (tcp_append_bulk env) (tcp_renable new_ok) B u y = Some (u', y') \<and> kept env R y y' \<and>
    sink_ok n b len (y_sink y') \<and> tm_inv B u' \<and> tm_size u' = 0 \<and> dealt (map st_ctx (tm_pending u)) [] y y'"
proof -
  have lv: "\<forall>t \<in> set (tm_pending u). st_ctx t \<in> {x. conn_at x y \<noteq> None}" using c by auto
  from from_y.commit_ok [OF sink_from_start [OF inv] u lim lv, of new_ok] obtain u' y' acc ren lost where
    r: "multi_commit (tcp_append env) (tcp_append_bulk env) (tcp_renable new_ok) B u y = Some (u', y')" "sink_from env R n b len y y'"
      "tm_inv B u'" "tm_size u' = 0" "tm_pending u = acc @ ren @ lost" "sink_taken (y_sink y') = sink_taken (y_sink y) @ acc"
      "sk_rearmed (y_sink y') = sk_rearmed (y_sink y) @ map st_ctx ren" by blast
  from r(2) obtain arm cl where F: "kept env R y y'" "sink_ok n b len (y_sink y')" "mset (map st_ctx ren) = mset (arm @ cl)"
    "s_cList (y_sock y') = s_cList (y_sock y) @ cl" "regs_step (set arm) (y_kern y) (y_kern y')"
    unfolding sink_from_def using r(7) by auto
  have "mset (map st_ctx (tm_pending u)) = mset (map st_ctx acc @ arm @ cl @ map st_ctx lost @ [])"
    using F(3) by (simp add: r(5))
  with r(6) F(4,5) have "dealt (map st_ctx (tm_pending u)) [] y y'" unfolding dealt_def by blast
  with r F show ?thesis by blast
qed

text \<open>Storing a task behind the pending ones.\<close>

lemma ring_write_single: "f < length d \<Longrightarrow> ring_write d f [x] = d[f := x]"
  by (rule nth_equalityI) (auto simp: ring_write_def nth_blit nth_list_update)

lemma store_pending:
  assumes inv: "tm_inv B u" and sz: "tm_size u \<noteq> B" and ts: "tm_tasks u = Some ts"
  shows "unat (tm_front u) < length ts" "B \<noteq> 0"
    "tm_inv B (u\<lparr>tm_tasks := Some (ts[unat (tm_front u) := t]), tm_front := (tm_front u + 1) mod B, tm_size := tm_size u + 1\<rparr>)"
    "tm_pending (u\<lparr>tm_tasks := Some (ts[unat (tm_front u) := t]), tm_front := (tm_front u + 1) mod B, tm_size := tm_size u + 1\<rparr>) = tm_pending u @ [t]"
proof -
  note D = tm_invD [OF inv]
  have len: "length ts = unat B" using D(2) ts by simp
  have lt: "unat (tm_size u) < unat B" using D(6) sz unat_eq_u32 [of "tm_size u" B] by linarith
  have f: "unat (tm_front u) < unat B" unfolding D(7) by (rule mod_less_divisor [OF D(3)])
  show "unat (tm_front u) < length ts" "B \<noteq> 0" using f len D(8) by simp_all
  have s1: "unat (tm_size u + 1) = unat (tm_size u) + 1" using lt D(4) by (subst unat_add_small) simp_all
  have "unat (tm_front u + 1) = unat (tm_front u) + 1" using f D(4) by (subst unat_add_small) simp_all
  then have f1: "unat ((tm_front u + 1) mod B) = (unat (tm_back u) + (unat (tm_size u) + 1)) mod unat B"
    by (simp add: unat_mod D(7) mod_Suc_eq)
  show "tm_inv B (u\<lparr>tm_tasks := Some (ts[unat (tm_front u) := t]), tm_front := (tm_front u + 1) mod B, tm_size := tm_size u + 1\<rparr>)"
    unfolding tm_inv_def using D(3-5) len lt s1 f1 by (simp del: unat_mod)
  have w: "ts[unat (tm_front u) := t] = ring_write ts (unat (tm_front u)) [t]" using f len by (simp add: ring_write_single)
  have "ring_slice (ring_write ts (unat (tm_front u)) [t]) (unat (tm_back u)) (unat (tm_size u)) = ring_slice ts (unat (tm_back u)) (unat (tm_size u))"
    by (rule ring_slice_before) (use D(5,7) len lt in simp_all)
  moreover have "ring_slice (ring_write ts (unat (tm_front u)) [t]) (unat (tm_front u)) 1 = [t]"
    using ring_slice_written [of "unat (tm_front u)" ts "[t]"] f len by simp
  moreover have "ring_slice (ring_write ts (unat (tm_front u)) [t]) (unat (tm_back u) + unat (tm_size u)) 1 =
      ring_slice (ring_write ts (unat (tm_front u)) [t]) (unat (tm_front u)) 1"
    using ring_slice_mod [of "ring_write ts (unat (tm_front u)) [t]" "unat (tm_back u) + unat (tm_size u)" 1] f len D(7) lt by simp
  ultimately show "tm_pending (u\<lparr>tm_tasks := Some (ts[unat (tm_front u) := t]), tm_front := (tm_front u + 1) mod B, tm_size := tm_size u + 1\<rparr>) = tm_pending u @ [t]"
    using ring_slice_add [of "ring_write ts (unat (tm_front u)) [t]" "unat (tm_back u)" "unat (tm_size u)" 1]
    by (simp add: tm_pending_def ts w s1)
qed

lemma dealt_refl: "dealt P P y y"
  unfolding dealt_def by (auto intro!: exI [of _ "[]"])

lemma batch_append_dealt:
  assumes inv: "core_inv env R y" "sink_ok n b len (y_sink y)" and m: "batch_mode B len y" and u: "util_ok B u" "tm_flag (ut_tm u)"
    and c: "\<And>z. z \<in> set (pending u @ [x]) \<Longrightarrow> conn_at z y \<noteq> None"
  shows "\<exists>u' y'. task_append env x proc u y = Some (u', y') \<and> kept env R y y' \<and> sink_ok n b len (y_sink y') \<and> util_ok B u' \<and>
    dealt (pending u @ [x]) (pending u') y y'"
proof -
  let ?v = "ut_tm u" and ?t = "\<lparr>st_ctx = x, st_proc = proc\<rparr>"
  from u(1) have tm: "tm_inv B ?v" "tm_size ?v \<noteq> B" by (simp_all add: util_ok_def)
  obtain ts where ts: "tm_tasks ?v = Some ts" using tm_invD(1) [OF tm(1)] by blast
  let ?w = "?v\<lparr>tm_tasks := Some (ts[unat (tm_front ?v) := ?t]), tm_front := (tm_front ?v + 1) mod B, tm_size := tm_size ?v + 1\<rparr>"
  note S = store_pending(1,2) [OF tm ts] store_pending(3,4) [OF tm ts, of ?t]
  have P: "map st_ctx (tm_pending ?w) = pending u @ [x]" using S(4) by (simp add: pending_def)
  have run: "task_append env x proc u y = map_option (\<lambda>(v, s'). (u\<lparr>ut_tm := v\<rparr>, s'))
      (if tm_size ?w = B then multi_commit (tcp_append env) (tcp_append_bulk env) (tcp_renable (e_new env)) B ?w y else Some (?w, y))"
    using m u(2) ts S(1,2) by (simp add: task_append_def util_append_def multi_append_def batch_mode_def Let_def)
  show ?thesis
  proof (cases "tm_size ?w = B")
    case True
    from commit_dealt [OF inv S(3), of "e_new env"] m c P obtain v y' where
      r: "multi_commit (tcp_append env) (tcp_append_bulk env) (tcp_renable (e_new env)) B ?w y = Some (v, y')" "kept env R y y'"
        "sink_ok n b len (y_sink y')" "tm_inv B v" "tm_size v = 0" "dealt (pending u @ [x]) [] y y'" by (auto simp: batch_mode_def)
    have "pending (u\<lparr>ut_tm := v\<rparr>) = []" "util_ok B (u\<lparr>ut_tm := v\<rparr>)" using r(4,5) S(2) by (simp_all add: pending_def tm_pending_def util_ok_def)
    with r run True show ?thesis by simp
  next
    case False
    then have "util_ok B (u\<lparr>ut_tm := ?w\<rparr>)" "pending (u\<lparr>ut_tm := ?w\<rparr>) = pending u @ [x]" using S(3) P by (simp_all add: util_ok_def pending_def)
    with run False inv kept_refl [OF inv(1)] dealt_refl [of "pending u @ [x]" y] show ?thesis by simp
  qed
qed

lemma batch_reset_dealt:
  assumes inv: "core_inv env R y" "sink_ok n b len (y_sink y)" and m: "batch_mode B len y" and u: "util_ok B u"
    and c: "\<And>z. z \<in> set (pending u) \<Longrightarrow> conn_at z y \<noteq> None"
  shows "\<exists>u' y'. task_reset env u y = Some (u', y') \<and> kept env R y y' \<and> sink_ok n b len (y_sink y') \<and> util_ok B u' \<and>
    tm_flag (ut_tm u') \<and> pending u' = [] \<and> dealt (pending u) [] y y'"
proof -
  from u have tm: "tm_inv B (ut_tm u)" by (simp add: util_ok_def)
  from commit_dealt [OF inv tm, of "e_new env"] m c obtain v y' where
    r: "multi_commit (tcp_append env) (tcp_append_bulk env) (tcp_renable (e_new env)) B (ut_tm u) y = Some (v, y')" "kept env R y y'"
      "sink_ok n b len (y_sink y')" "tm_inv B v" "tm_size v = 0" "dealt (pending u) [] y y'" by (auto simp: batch_mode_def pending_def)
  let ?u = "u\<lparr>ut_tm := v\<lparr>tm_flag := True\<rparr>\<rparr>"
  have "task_reset env u y = Some (?u, y')" using m r(1) by (simp add: task_reset_def util_reset_def batch_mode_def)
  moreover have "util_ok B ?u" "pending ?u = []" using r(4,5) tm_invD(8) [OF tm] by (simp_all add: util_ok_def pending_def tm_pending_def tm_inv_def)
  ultimately show ?thesis using r by simp
qed

section \<open>Events\<close>

lemma dealt_duty: "same_duty y y1 \<Longrightarrow> dealt P P' y1 y' \<Longrightarrow> dealt P P' y y'"
  unfolding dealt_def same_duty_def using regs_step_trans [where F = "{}"] by (metis empty_subsetI subset_refl)

lemma closing_dealt: "closing x y y' \<Longrightarrow> dealt (P @ [x]) P y y'"
  unfolding dealt_def closing_def by (intro exI [of _ "[]"] exI [of _ "[x]"]) simp

lemma rearmed_dealt: "rearmed x y y' \<Longrightarrow> dealt (P @ [x]) P y y'"
  unfolding dealt_def rearmed_def by (rule exI [of _ "[]"], rule exI [of _ "[x]"], rule exI [of _ "[]"], rule exI [of _ "[]"]) simp

lemma batch_event_dealt:
  assumes inv: "core_inv env R y" "sink_ok n b len (y_sink y)" and m: "batch_mode B len y" and u: "util_ok B u" "tm_flag (ut_tm u)"
    and c: "\<And>z. z \<in> set (pending u @ [nat fd]) \<Longrightarrow> conn_at z y \<noteq> None" and fd: "fd \<noteq> exitfd" and h: "has_handler ev y"
  shows "\<exists>u' y'. io_event env exitfd (fd, ev) u y = Some (False, u', y') \<and> kept env R y y' \<and> sink_ok n b len (y_sink y') \<and> util_ok B u' \<and>
    dealt (pending u @ [nat fd]) (pending u') y y'"
proof -
  obtain c0 where c0: "conn_at (nat fd) y = Some c0" using c [of "nat fd"] by auto
  show ?thesis
  proof (rule io_event_run [OF inv(1) c0 fd h, of u])
    fix y1 c1
    assume k: "kept env R y y1" "same_duty y y1" and c1: "conn_at (nat fd) y1 = Some c1"
    assume run: "io_event env exitfd (fd, ev) u y = close_event env (nat fd) u y1 \<or>
       io_event env exitfd (fd, ev) u y = Option.bind (task_append env (nat fd) (proc_of ev y) u y1) (\<lambda>(u2, y2). Some (False, u2, y2)) \<or>
       io_event env exitfd (fd, ev) u y = rearm_event env (nat fd) u y1"
    have i: "core_inv env R y1" "sink_ok n b len (y_sink y1)" "batch_mode B len y1"
      using k inv m by (simp_all add: kept_defs same_duty_def batch_mode_def)
    have c': "conn_at z y1 \<noteq> None" if "z \<in> set (pending u @ [nat fd])" for z using c [OF that] k(1) by (simp add: kept_defs)
    have "\<exists>u' y'. io_event env exitfd (fd, ev) u y = Some (False, u', y') \<and> kept env R y1 y' \<and> sink_ok n b len (y_sink y') \<and> util_ok B u' \<and>
      dealt (pending u @ [nat fd]) (pending u') y1 y'"
      using run
    proof (elim disjE)
      assume "io_event env exitfd (fd, ev) u y = close_event env (nat fd) u y1"
      with close_event_ok [OF i(1) c1, of u] i(2) u(1) closing_dealt show ?thesis by auto
    next
      assume "io_event env exitfd (fd, ev) u y = Option.bind (task_append env (nat fd) (proc_of ev y) u y1) (\<lambda>(u2, y2). Some (False, u2, y2))"
      with batch_append_dealt [OF i u c', of "nat fd" "proc_of ev y"] show ?thesis by auto
    next
      assume "io_event env exitfd (fd, ev) u y = rearm_event env (nat fd) u y1"
      with rearm_event_ok [OF i(1) c1, of u] i(2) u(1) rearmed_dealt closing_dealt show ?thesis by auto
    qed
    with kept_trans [OF k(1)] dealt_duty [OF k(2)] show ?thesis by blast
  qed
qed

text \<open>The order in which the owned connections are listed does not matter, and a delivered event makes its connection owned.\<close>

lemma proto_inv_perm: "proto_inv env R n b len (y, own) \<Longrightarrow> mset own = mset own' \<Longrightarrow> proto_inv env R n b len (y, own')"
  using mset_eq_setD [of own own'] mset_eq_imp_distinct_iff [of own own'] by (simp add: proto_inv_def)

lemma proto_deliver:
  assumes I: "proto_inv env R n b len (y, own)" and e: "kn_interest (y_kern y) (ep, fd) = Some w" "w \<noteq> 0" "fd \<notin> R" "fd \<noteq> exitfd"
  shows "\<exists>x. fd = int x \<and> proto_inv env R n b len (deliver ep exitfd [(fd, ev)] y, own @ [x])"
proof -
  note D = proto_invD [OF I]
  obtain x c where x: "fd = int x" "conn_at x y = Some c" "x \<notin> set own" "x \<notin> set (s_cList (y_sock y))" by (rule armed_free [OF I e(1-3)])
  note F = epoll_fire_ok [OF D(5) e(1) [unfolded x(1)]]
  have "proto_inv env R n b len (y\<lparr>y_kern := epoll_fire ep fd (y_kern y)\<rparr>, own @ [x])"
  proof (rule proto_inv_one [OF I, of x])
    show "tabled env R y (y\<lparr>y_kern := epoll_fire ep fd (y_kern y)\<rparr>)" by (rule tabled_kern [OF D(2)]) (simp add: epoll_fire_def)
  qed (use x F D(3,6,8) in auto)
  then show ?thesis using x(1) unfolding deliver_one [OF e(4)] by blast
qed

section \<open>The steps\<close>

text \<open>
  A state is the server, the connections that the tasks own, and the submission buffer of each I/O thread. The acceptor, the pool and
  the workers move as before; an I/O thread takes an event, as long as the pool has refused no task of its round, or ends its round.
\<close>

type_synonym 'w batch_proto = "'w tcp_sys \<times> addr list \<times> UtilTaskTcp list"

definition held :: "UtilTaskTcp list \<Rightarrow> addr list" where
  "held us = concat (map pending us)"

inductive batch_step :: "'w tcp_env \<Rightarrow> int set \<Rightarrow> nat \<Rightarrow> u32 \<Rightarrow> u32 \<Rightarrow> u32 \<Rightarrow> 'w batch_proto \<Rightarrow> 'w batch_proto \<Rightarrow> bool"
  for env R n b len B where
  Other: "batch_mode B len y \<Longrightarrow> proto_step env R n b len (y, own) (y', own') \<Longrightarrow> batch_step env R n b len B (y, own, us) (y', own', us)"
| Batch_Event: "batch_mode B len y \<Longrightarrow> i < length us \<Longrightarrow> tm_flag (ut_tm (us ! i)) \<Longrightarrow> kn_interest (y_kern y) (ep, fd) = Some w \<Longrightarrow> w \<noteq> 0 \<Longrightarrow>
    fd \<notin> R \<Longrightarrow> fd \<noteq> exitfd \<Longrightarrow> has_handler ev y \<Longrightarrow>
    io_event env exitfd (fd, ev) (us ! i) (deliver ep exitfd [(fd, ev)] y) = Some (False, u', y') \<Longrightarrow>
    batch_step env R n b len B (y, own, us) (y', own @ newly_taken y y', us[i := u'])"
| Round_End: "batch_mode B len y \<Longrightarrow> i < length us \<Longrightarrow> task_reset env (us ! i) y = Some (u', y') \<Longrightarrow>
    batch_step env R n b len B (y, own, us) (y', own @ newly_taken y y', us[i := u'])"

definition batch_inv :: "'w tcp_env \<Rightarrow> int set \<Rightarrow> nat \<Rightarrow> u32 \<Rightarrow> u32 \<Rightarrow> u32 \<Rightarrow> 'w batch_proto \<Rightarrow> bool" where
  "batch_inv env R n b len B s = (case s of (y, own, us) \<Rightarrow> proto_inv env R n b len (y, own @ held us) \<and> (\<forall>u \<in> set us. util_ok B u))"

text \<open>The buffers of the other threads.\<close>

lemma held_split:
  assumes "i < length us"
  shows "mset (held us) = mset (held (take i us @ drop (Suc i) us) @ pending (us ! i))"
    "mset (held (us[i := u'])) = mset (held (take i us @ drop (Suc i) us) @ pending u')"
proof -
  show "mset (held us) = mset (held (take i us @ drop (Suc i) us) @ pending (us ! i))"
    by (subst (1) id_take_nth_drop [OF assms]) (simp add: held_def ac_simps)
  show "mset (held (us[i := u'])) = mset (held (take i us @ drop (Suc i) us) @ pending u')"
    unfolding upd_conv_take_nth_drop [OF assms] by (simp add: held_def ac_simps)
qed

lemma other_step:
  assumes "proto_step env R n b len (y, own) (y', own')" "batch_mode B len y" "proto_inv env R n b len (y, own @ H)" "stale_readable env"
  shows "proto_inv env R n b len (y', own' @ H)"
  using assms(1)
proof (cases rule: proto_step.cases)
  case (Accept fd ip port k idlefd ok)
  then show ?thesis using proto_accept [OF assms(3)] by auto
next
  case CloseList
  then show ?thesis using proto_closelist(1) [OF assms(3,4)] by auto
next
  case (Event ep fd w exitfd ev u u')
  then show ?thesis using assms(2) by (simp add: single_mode_def batch_mode_def)
next
  case (Pool s)
  then show ?thesis using assms(3) by (auto simp: proto_inv_def server_inv_def core_inv_cong conn_at_def)
next
  case (Data x c c' f)
  then show ?thesis using proto_worker(1) [OF assms(3), of x c c' f] by auto
next
  case (Enable x rd wr r)
  then show ?thesis using proto_worker(2) [OF assms(3), of x rd wr r y'] by (simp add: remove1_append split: if_splits)
next
  case (Close x c new_ok)
  then show ?thesis using proto_worker(3) [OF assms(3), of x c new_ok y'] by (simp add: remove1_append)
qed

text \<open>One thread deals with its pending connections.\<close>

lemma thread_dealt:
  assumes I: "proto_inv env R n b len (y, own @ held us @ E)" and i: "i < length us"
    and k: "kept env R y y'" "sink_ok n b len (y_sink y')" "dealt (pending (us ! i) @ E) (pending u') y y'"
  shows "proto_inv env R n b len (y', own @ newly_taken y y' @ held (us[i := u']))"
proof -
  let ?Q = "own @ held (take i us @ drop (Suc i) us)"
  note H = held_split [OF i]
  have "proto_inv env R n b len (y, ?Q @ pending (us ! i) @ E)" by (rule proto_inv_perm [OF I]) (use H(1) in simp)
  from proto_dealt [OF this k] have "proto_inv env R n b len (y', ?Q @ newly_taken y y' @ pending u')" .
  then show ?thesis by (rule proto_inv_perm) (use H(2) [of u'] in \<open>simp add: ac_simps\<close>)
qed

lemma pending_held: "i < length us \<Longrightarrow> set (pending (us ! i)) \<subseteq> set (held us)"
  by (auto simp: held_def intro!: bexI [OF _ nth_mem])

lemma batch_event_inv:
  assumes I: "batch_inv env R n b len B (y, own, us)" and m: "batch_mode B len y" and i: "i < length us" "tm_flag (ut_tm (us ! i))"
    and e: "kn_interest (y_kern y) (ep, fd) = Some w" "w \<noteq> 0" "fd \<notin> R" "fd \<noteq> exitfd" and h: "has_handler ev y"
  shows "\<exists>u' y'. io_event env exitfd (fd, ev) (us ! i) (deliver ep exitfd [(fd, ev)] y) = Some (False, u', y') \<and>
    batch_inv env R n b len B (y', own @ newly_taken y y', us[i := u']) \<and> (\<forall>z. flow_at z y' = flow_at z y)"
proof -
  have P: "proto_inv env R n b len (y, own @ held us)" and U: "\<forall>u \<in> set us. util_ok B u" using I by (simp_all add: batch_inv_def)
  let ?y = "deliver ep exitfd [(fd, ev)] y"
  from proto_deliver [OF P e] obtain x where x: "fd = int x" "proto_inv env R n b len (?y, own @ held us @ [x])" by auto
  note D = proto_invD [OF x(2)]
  have sd: "y_glob ?y = y_glob y" "s_proc (y_sock ?y) = s_proc (y_sock y)" "y_sink ?y = y_sink y" using e(4) by (simp_all add: deliver_one)
  have bm: "batch_mode B len ?y" and hh: "has_handler ev ?y" using m h sd by (simp_all add: batch_mode_def has_handler_def)
  have u: "util_ok B (us ! i)" using U i(1) by simp
  from pending_held [OF i(1)] have "conn_at z ?y \<noteq> None" if "z \<in> set (pending (us ! i) @ [nat fd])" for z using D(7) [of z] that x(1) by auto
  from batch_event_dealt [OF D(2,3) bm u i(2) this e(4) hh] obtain u' y' where
    r: "io_event env exitfd (fd, ev) (us ! i) ?y = Some (False, u', y')" "kept env R ?y y'" "sink_ok n b len (y_sink y')" "util_ok B u'"
      "dealt (pending (us ! i) @ [x]) (pending u') ?y y'" using x(1) by auto
  from thread_dealt [OF x(2) i(1) r(2,3,5)] have "proto_inv env R n b len (y', (own @ newly_taken y y') @ held (us[i := u']))"
    using sd(3) by (simp add: newly_taken_def)
  moreover have "\<forall>u \<in> set (us[i := u']). util_ok B u" using U r(4) set_update_subset_insert [of us i u'] by blast
  moreover have "flow_at z y' = flow_at z y" for z
    using r(2) e(4) by (simp add: kept_def deliver_one epoll_fire_def)
  ultimately show ?thesis using r(1) by (simp add: batch_inv_def)
qed

lemma batch_reset_inv:
  assumes I: "batch_inv env R n b len B (y, own, us)" and m: "batch_mode B len y" and i: "i < length us"
  shows "\<exists>u' y'. task_reset env (us ! i) y = Some (u', y') \<and> tm_flag (ut_tm u') \<and> pending u' = [] \<and>
    batch_inv env R n b len B (y', own @ newly_taken y y', us[i := u']) \<and> (\<forall>z. flow_at z y' = flow_at z y)"
proof -
  have P: "proto_inv env R n b len (y, own @ held us @ [])" and U: "\<forall>u \<in> set us. util_ok B u" using I by (simp_all add: batch_inv_def)
  note D = proto_invD [OF P]
  have u: "util_ok B (us ! i)" using U i by simp
  from pending_held [OF i] have "conn_at z y \<noteq> None" if "z \<in> set (pending (us ! i))" for z using D(7) [of z] that by auto
  from batch_reset_dealt [OF D(2,3) m u this] obtain u' y' where
    r: "task_reset env (us ! i) y = Some (u', y')" "kept env R y y'" "sink_ok n b len (y_sink y')" "util_ok B u'"
      "tm_flag (ut_tm u')" "pending u' = []" "dealt (pending (us ! i) @ []) (pending u') y y'" by auto
  from thread_dealt [OF P i r(2,3,7)] have "proto_inv env R n b len (y', (own @ newly_taken y y') @ held (us[i := u']))" by simp
  moreover have "\<forall>u \<in> set (us[i := u']). util_ok B u" using U r(4) set_update_subset_insert [of us i u'] by blast
  ultimately show ?thesis using r by (simp add: batch_inv_def kept_def)
qed

lemma batch_step_inv:
  assumes "batch_step env R n b len B s s'" "batch_inv env R n b len B s" "stale_readable env"
  shows "batch_inv env R n b len B s'"
  using assms(1,2)
proof (induction rule: batch_step.induct)
  case (Other y own y' own' us)
  with other_step [OF Other.hyps(2,1) _ assms(3)] show ?case by (auto simp: batch_inv_def)
next
  case (Batch_Event y i us ep fd w exitfd ev u' y' own)
  from batch_event_inv [OF Batch_Event.prems Batch_Event.hyps(1-8)] Batch_Event.hyps(9) show ?case by auto
next
  case (Round_End y i us u' y' own)
  from batch_reset_inv [OF Round_End.prems Round_End.hyps(1,2)] Round_End.hyps(3) show ?case by auto
qed

text \<open>The buffers of a server that starts: one per I/O thread, as \<open>init\<close> leaves them.\<close>

definition batch_start :: "SPTcpConfig \<Rightarrow> nat \<Rightarrow> UtilTaskTcp list" where
  "batch_start cfg threads = replicate threads (snd (util_init cfg True util_new))"

lemma batch_start_ok:
  assumes "THREADPOOL_BATCH_SIZE_SUBMIT cfg \<noteq> 1" "0 < THREADPOOL_BATCH_SIZE_SUBMIT cfg" "THREADPOOL_BATCH_SIZE_SUBMIT cfg < 2 ^ 31"
  shows "\<forall>u \<in> set (batch_start cfg threads). util_ok (batch_of cfg) u" "held (batch_start cfg threads) = []"
proof -
  have B: "unat (batch_of cfg) = nat (THREADPOOL_BATCH_SIZE_SUBMIT cfg)"
    using assms(2,3) by (simp add: batch_of_def unsigned_of_int take_bit_int_eq_self)
  then have "batch_of cfg \<noteq> 0" using assms(2) by (simp add: u32_eq_0_iff)
  with B assms show "\<forall>u \<in> set (batch_start cfg threads). util_ok (batch_of cfg) u"
    by (auto simp: batch_start_def util_ok_def util_init_def util_new_def tm_inv_def)
  show "held (batch_start cfg threads) = []"
    using assms(1) by (simp add: batch_start_def held_def pending_def tm_pending_def util_init_def util_new_def)
qed

lemma batch_reach_inv:
  assumes "(batch_step env R n b len (batch_of cfg))\<^sup>*\<^sup>* (y0, [], batch_start cfg threads) s" "proto_start env R n b len y0" "stale_readable env"
    "tcp_config_ok cfg" "tcp_config_typed cfg" "THREADPOOL_BATCH_SIZE_SUBMIT cfg \<noteq> 1"
  shows "batch_inv env R n b len (batch_of cfg) s"
  using assms(1)
proof (induction rule: rtranclp_induct)
  case base
  have "0 < THREADPOOL_BATCH_SIZE_SUBMIT cfg" "THREADPOOL_BATCH_SIZE_SUBMIT cfg < 2 ^ 31"
    using assms(4,5) by (simp_all add: tcp_config_ok_def tcp_config_typed_def is_int_def)
  from batch_start_ok [OF assms(6) this] assms(2) show ?case by (simp add: batch_inv_def proto_start_def proto_inv_def)
next
  case (step s s')
  then show ?case using batch_step_inv assms(3) by blast
qed

section \<open>Properties\<close>



text \<open>The sample server with batches of two tasks. The size of the batch is of no concern to the buffer pool.\<close>

lemma pool_ready_batch:
  assumes "pool_ready mal c H p" "pool_config (c\<lparr>THREADPOOL_BATCH_SIZE_SUBMIT := k\<rparr>)"
  shows "pool_ready mal (c\<lparr>THREADPOOL_BATCH_SIZE_SUBMIT := k\<rparr>) H p"
proof -
  let ?c = "c\<lparr>THREADPOOL_BATCH_SIZE_SUBMIT := k\<rparr>"
  have "peer_size ?c = peer_size c" by (simp add: fun_eq_iff peer_size_def cfg_bsize_def split: BUFFER_TYPE.split)
  then have "in_block ?c = in_block c" "apart ?c = apart c" by (simp_all add: fun_eq_iff in_block_def apart_def)
  with assms show ?thesis by (simp add: pool_ready_def pool_ok_def pool_inv_def nodes_inv_def)
qed

definition pair_cfg :: SPTcpConfig where
  "pair_cfg = server_cfg\<lparr>THREADPOOL_BATCH_SIZE_SUBMIT := 2\<rparr>"

definition server2 :: "unit tcp_sys" where
  "server2 = server1_armed\<lparr>y_glob := (y_glob server1_armed)\<lparr>g_tcpConfig := pair_cfg\<rparr>\<rparr>"

lemma pair_cfg_ok: "tcp_config_ok pair_cfg" "tcp_config_typed pair_cfg" "THREADPOOL_BATCH_SIZE_SUBMIT pair_cfg \<noteq> 1" "batch_of pair_cfg = 2"
  by (simp_all add: pair_cfg_def server_cfg_def tcp_config_default_def tcp_config_ok_def tcp_config_typed_def is_int_def epoll_defs batch_of_def)

lemma server2_start: "proto_start server_env server_fds 1 1 4 server2"
proof -
  have S: "server_inv server_env server_fds server1_armed" "sink_ok 1 1 4 (y_sink server1_armed)" "regs_ok (y_kern server1_armed)"
    "y_info server1_armed \<noteq> []" "s_cList (y_sock server1_armed) = []" using server1_armed_start by (simp_all add: proto_start_def)
  note C = core_invD [of server_env server_fds server1_armed]
  have c1: "y_cfg server1_armed = server_cfg" by (simp add: server1_armed_def server1_def server0_def)
  have "pool_config pair_cfg" unfolding pool_config_def using pair_cfg_ok by (simp add: pair_cfg_def server_cfg_def tcp_config_default_def)
  then have "pool_ready (e_malloc server_env) pair_cfg (table_holds (y_conns server1_armed)) (y_bufs server1_armed)"
    using pool_ready_batch [of "e_malloc server_env" server_cfg] C(4) S(1) c1 by (simp add: pair_cfg_def server_inv_def)
  with S(1) have "server_inv server_env server_fds server2" by (simp add: server_inv_def core_inv_def server2_def hooks_ok_def)
  with S(2-5) show ?thesis by (simp add: proto_start_def server2_def)
qed

lemma server2_mode: "batch_mode 2 4 server2"
  using pair_cfg_ok by (simp add: batch_mode_def server2_def)

lemma server2_event:
  "\<exists>y own us. batch_step server_env server_fds 1 1 4 (batch_of pair_cfg) (server2, [], batch_start pair_cfg 1) (y, own, us)"
proof -
  have I: "batch_inv server_env server_fds 1 1 4 (batch_of pair_cfg) (server2, [], batch_start pair_cfg 1)"
    by (rule batch_reach_inv [OF rtranclp.rtrancl_refl server2_start server_env_stale pair_cfg_ok(1-3)])
  have m: "batch_mode (batch_of pair_cfg) 4 server2" using server2_mode pair_cfg_ok(4) by simp
  have i: "0 < length (batch_start pair_cfg 1)" "tm_flag (ut_tm (batch_start pair_cfg 1 ! 0))"
    using pair_cfg_ok(3) by (simp_all add: batch_start_def util_init_def util_new_def)
  have e: "kn_interest (y_kern server2) (4, 7) = Some EPOLLIN" "EPOLLIN \<noteq> 0" "7 \<notin> server_fds" "(7 :: int) \<noteq> 5"
    by (simp_all add: server2_def server1_armed_def epoll_defs server_fds_def)
  have h: "has_handler EPOLLIN server2"
    using server1_sink(3) by (simp add: server2_def server1_armed_def has_handler_def)
  from batch_event_inv [OF I m i e h] obtain u' y' where
    r: "io_event server_env 5 (7, EPOLLIN) (batch_start pair_cfg 1 ! 0) (deliver 4 5 [(7, EPOLLIN)] server2) = Some (False, u', y')" by blast
  from Batch_Event [OF m i e h this] show ?thesis by blast
qed



end
