(* ===== verification/SP_Sock_Udp.thy ===== *)
theory SP_Sock_Udp
  imports SP_Kernel
begin

text \<open>
  The UDP part of \<open>SPSock.h\<close> and \<open>SPSock.cpp\<close>: the class \<open>SPSockUdp\<close> with one socket per core, the
  receive loop that a thread runs for each of them, and the configuration interface.

  The state \<open>udp_sys\<close> holds the singleton object, the static flag, the global variables, the
  kernel and the state of the application. A receive callback is a program of type \<open>action\<close>: it
  computes on the state of the application and calls the members that may be called while the
  event loop runs. Undefined behaviour and an uncaught exception are \<^term>\<open>None\<close>.
\<close>

section \<open>State\<close>

record SPSockUdp =
  u_ctx :: addr
  u_rcp :: addr
  u_status :: u32
  u_fds :: "int list"

text \<open>\<open>v_sent\<close> records the datagrams handed to the network: socket, destination, payload.\<close>

record 'w udp_sys =
  v_family :: ADDRESS_FAMILY
  v_instance :: bool
  v_sock :: SPSockUdp
  v_exitFlag :: bool
  v_glob :: sp_globals
  v_kern :: kern
  v_sent :: "(int \<times> sockaddr \<times> byte list) list"
  v_app :: 'w

datatype 'w action = Return 'w
  | Call_SendTo int "byte list option" "string option" u16 "bool \<Rightarrow> 'w action"
  | Call_SetExitFlag "'w action"

text \<open>The callback's arguments are those of \<open>RecvProc\<close>; the size is the length of the data.\<close>

record 'w udp_env =
  n_rcp :: "addr \<Rightarrow> addr \<Rightarrow> int \<Rightarrow> byte list \<Rightarrow> string \<Rightarrow> u16 \<Rightarrow> 'w \<Rightarrow> 'w action"
  n_new :: bool
  n_pton :: "ADDRESS_FAMILY \<Rightarrow> string \<Rightarrow> byte list option"
  n_ntop :: "ADDRESS_FAMILY \<Rightarrow> byte list \<Rightarrow> string"
  n_cores :: u32

definition on_udp :: "(SPSockUdp \<Rightarrow> SPSockUdp) \<Rightarrow> 'w udp_sys \<Rightarrow> 'w udp_sys" where
  "on_udp f y = y\<lparr>v_sock := f (v_sock y)\<rparr>"

definition u_kern :: "(kern \<Rightarrow> 'a \<times> kern) \<Rightarrow> 'w udp_sys \<Rightarrow> 'a \<times> 'w udp_sys" where
  "u_kern f y = (case f (v_kern y) of (r, k) \<Rightarrow> (r, y\<lparr>v_kern := k\<rparr>))"

definition u_close :: "int \<Rightarrow> 'w udp_sys \<Rightarrow> 'w udp_sys" where
  "u_close fd y = y\<lparr>v_kern := sys_close fd (v_kern y)\<rparr>"

definition udp_has :: "u32 \<Rightarrow> 'w udp_sys \<Rightarrow> bool" where
  "udp_has b y \<longleftrightarrow> u_status (v_sock y) AND b = b"

definition udp_add :: "u32 \<Rightarrow> 'w udp_sys \<Rightarrow> 'w udp_sys" where
  "udp_add b y = on_udp (\<lambda>s. s\<lparr>u_status := u_status s OR b\<rparr>) y"

section \<open>Construction and the singleton\<close>

text \<open>The constructor sets the status only; the two pointers are set by \<open>SetCallback\<close> before they are read.\<close>

definition udp_new :: SPSockUdp where
  "udp_new = \<lparr>u_ctx = null, u_rcp = null, u_status = 0, u_fds = []\<rparr>"

definition close_fds :: "int list \<Rightarrow> 'w udp_sys \<Rightarrow> 'w udp_sys" where
  "close_fds fds y = on_udp (\<lambda>s. s\<lparr>u_fds := []\<rparr>) (fold u_close fds y)"

definition udp_destroy :: "'w udp_sys \<Rightarrow> 'w udp_sys" where
  "udp_destroy y = close_fds (u_fds (v_sock y)) y"

definition udp_GetInstance :: "bool \<Rightarrow> 'w udp_sys \<Rightarrow> bool \<times> 'w udp_sys" where
  "udp_GetInstance new_ok y =
     (if v_instance y then (True, y)
      else if new_ok then (True, y\<lparr>v_instance := True, v_sock := udp_new\<rparr>) else (False, y))"

definition udp_Release :: "'w udp_sys \<Rightarrow> 'w udp_sys" where
  "udp_Release y = (if v_instance y then (udp_destroy y)\<lparr>v_instance := False\<rparr> else y)"

section \<open>Settings\<close>

definition udp_SetSignalExit :: "int \<Rightarrow> 'w udp_sys \<Rightarrow> bool \<times> 'w udp_sys" where
  "udp_SetSignalExit sg y =
     (let (ok, y1) = u_kern (sys_sigaction sg) y in if \<not> ok then (False, y1) else (True, udp_add 4 y1))"

definition udp_SetCallback :: "addr \<Rightarrow> addr \<Rightarrow> 'w udp_sys \<Rightarrow> bool \<times> 'w udp_sys" where
  "udp_SetCallback rcp ctx y =
     (if rcp = null then (False, y) else (True, udp_add 2 (on_udp (\<lambda>s. s\<lparr>u_ctx := ctx, u_rcp := rcp\<rparr>) y)))"

definition udp_SetExitFlag :: "'w udp_sys \<Rightarrow> 'w udp_sys" where
  "udp_SetExitFlag y = y\<lparr>v_exitFlag := False\<rparr>"

definition udp_HandleExit :: "'w udp_sys \<Rightarrow> 'w udp_sys" where
  "udp_HandleExit y = (if v_exitFlag y then y\<lparr>v_exitFlag := False\<rparr> else y)"

section \<open>Binding\<close>

text \<open>The socket options in their order; the first failure ends the sequence.\<close>

fun set_options :: "int \<Rightarrow> sockopt list \<Rightarrow> 'w udp_sys \<Rightarrow> bool \<times> 'w udp_sys" where
  "set_options fd [] y = (True, y)"
| "set_options fd (opt # opts) y =
     (let (ok, y1) = u_kern (sys_setsockopt fd opt) y in if \<not> ok then (False, y1) else set_options fd opts y1)"

definition udp_options :: "SPUdpConfig \<Rightarrow> sockopt list" where
  "udp_options cfg = [SO_REUSEADDR 1, SO_REUSEPORT 1, SO_RCVBUF (RECV_BSIZE cfg), SO_RCVTIMEO (50 * 1000)]"

text \<open>One turn of the loop over the cores; false is the \<open>break\<close>.\<close>

definition bind_one :: "sockaddr \<Rightarrow> 'w udp_sys \<Rightarrow> bool \<times> 'w udp_sys" where
  "bind_one a y = (case u_kern new_fd y of
     (Inl _, y1) \<Rightarrow> (False, y1)
   | (Inr fd, y1) \<Rightarrow>
       let (ok, y2) = set_options fd (udp_options (g_udpConfig (v_glob y))) y1 in
       if \<not> ok then (False, u_close fd y2)
       else let (bound, y3) = u_kern (sys_bind fd a) y2 in
         if \<not> bound then (False, u_close fd y3)
         else (True, on_udp (\<lambda>s. s\<lparr>u_fds := u_fds s @ [fd]\<rparr>) y3))"

fun bind_loop :: "nat \<Rightarrow> sockaddr \<Rightarrow> 'w udp_sys \<Rightarrow> 'w udp_sys" where
  "bind_loop 0 a y = y"
| "bind_loop (Suc n) a y = (let (go, y1) = bind_one a y in if go then bind_loop n a y1 else y1)"

definition udp_Bind :: "'w udp_env \<Rightarrow> u16 \<Rightarrow> string option \<Rightarrow> 'w udp_sys \<Rightarrow> bool \<times> 'w udp_sys" where
  "udp_Bind env port ip y =
     (if u_status (v_sock y) AND 1 \<noteq> 0 then (False, y)
      else case SOCKADDR_INIT (n_pton env) (v_family y) ip port of
        None \<Rightarrow> (False, y)
      | Some a \<Rightarrow>
          if n_cores env = 0 then (False, y)
          else let y1 = bind_loop (unat (n_cores env)) a y;
                   y2 = (if length (u_fds (v_sock y1)) \<noteq> unat (n_cores env) then close_fds (u_fds (v_sock y1)) y1 else y1)
            in (True, udp_add 1 y2))"

section \<open>Sending\<close>

text \<open>
  A datagram is sent whole or not at all; on a descriptor that is not open the call fails. The
  data are the \<open>size\<close> bytes at the pointer, \<^term>\<open>None\<close> for a null pointer.
\<close>

definition sys_sendto :: "int \<Rightarrow> sockaddr \<Rightarrow> byte list \<Rightarrow> 'w udp_sys \<Rightarrow> int \<times> 'w udp_sys" where
  "sys_sendto fd a xs y = (case kcall (v_kern y) of
     (Some e, k) \<Rightarrow> (-1, y\<lparr>v_kern := k\<rparr>)
   | (None, k) \<Rightarrow> if fd \<in> set (kn_fds k) then (int (length xs), y\<lparr>v_kern := k, v_sent := v_sent y @ [(fd, a, xs)]\<rparr>)
       else (-1, y\<lparr>v_kern := k\<rparr>))"

definition udp_SendTo :: "'w udp_env \<Rightarrow> int \<Rightarrow> byte list option \<Rightarrow> string option \<Rightarrow> u16 \<Rightarrow> 'w udp_sys \<Rightarrow> bool \<times> 'w udp_sys" where
  "udp_SendTo env sockfd data ip port y =
     (if \<not> udp_has 1 y then (False, y)
      else case (data, ip) of
        (Some xs, Some s) \<Rightarrow>
          if length xs = 0 \<or> port = 0 then (False, y)
          else (case n_pton env (v_family y) s of
            None \<Rightarrow> (False, y)
          | Some b \<Rightarrow>
              let (ret, y1) = sys_sendto sockfd \<lparr>sa_family = v_family y, sa_port = htons port, sa_addr = b\<rparr> xs y
              in if ret \<noteq> int (length xs) then (False, y1) else (True, y1))
      | _ \<Rightarrow> (False, y))"

section \<open>Receiving\<close>

primrec run_action :: "'w udp_env \<Rightarrow> 'w action \<Rightarrow> 'w udp_sys \<Rightarrow> 'w udp_sys" where
  "run_action env (Return w) y = y\<lparr>v_app := w\<rparr>"
| "run_action env (Call_SendTo fd data ip port k) y = (case udp_SendTo env fd data ip port y of (ok, y1) \<Rightarrow> run_action env (k ok) y1)"
| "run_action env (Call_SetExitFlag a) y = run_action env a (udp_SetExitFlag y)"

text \<open>
  What \<open>recvfrom\<close> returns: an error, \<open>EAGAIN\<close> after the timeout of 50 ms, or a datagram and its
  source, cut to the size of the buffer.
\<close>

type_synonym received = "errno + byte list \<times> sockaddr"

definition callback :: "'w udp_env \<Rightarrow> int \<Rightarrow> byte list \<Rightarrow> sockaddr \<Rightarrow> 'w udp_sys \<Rightarrow> 'w udp_sys" where
  "callback env fd xs a y =
     (let maxSize = nat (MAX_PAYLOAD_SIZE (g_udpConfig (v_glob y)) + 48) in
      run_action env (n_rcp env (u_rcp (v_sock y)) (u_ctx (v_sock y)) fd (take maxSize xs)
        (n_ntop env (v_family y) (sa_addr a)) (htons (sa_port a)) (v_app y)) y)"

text \<open>One turn of the receive loop; the first result says whether the loop goes on.\<close>

definition recv_turn :: "'w udp_env \<Rightarrow> int \<Rightarrow> received \<Rightarrow> 'w udp_sys \<Rightarrow> bool \<times> 'w udp_sys" where
  "recv_turn env fd r y =
     (if \<not> v_exitFlag y then (False, y)
      else case r of
        Inl e \<Rightarrow> (e = EINTR \<or> e = EAGAIN, y)
      | Inr (xs, a) \<Rightarrow> (True, callback env fd xs a y))"

text \<open>
  The receive loops of all threads, interleaved: a turn of thread \<open>i\<close> with what its \<open>recvfrom\<close>
  returns, or a signal. A thread is its socket and whether its loop is still running. A turn,
  the callback included, is one step.
\<close>

datatype udp_event = Turn nat received | Signal

fun udp_run :: "'w udp_env \<Rightarrow> udp_event list \<Rightarrow> (int \<times> bool) list \<Rightarrow> 'w udp_sys \<Rightarrow> (int \<times> bool) list \<times> 'w udp_sys" where
  "udp_run env [] ts y = (ts, y)"
| "udp_run env (Signal # es) ts y = udp_run env es ts (udp_HandleExit y)"
| "udp_run env (Turn i r # es) ts y =
     (if i < length ts \<and> snd (ts ! i)
      then let (go, y1) = recv_turn env (fst (ts ! i)) r y in udp_run env es (ts[i := (fst (ts ! i), go)]) y1
      else udp_run env es ts y)"

text \<open>The loop of one thread alone.\<close>

fun udp_MainEventLoop :: "'w udp_env \<Rightarrow> int \<Rightarrow> received list \<Rightarrow> 'w udp_sys \<Rightarrow> bool \<times> 'w udp_sys" where
  "udp_MainEventLoop env fd [] y = (True, y)"
| "udp_MainEventLoop env fd (r # rs) y = (let (go, y1) = recv_turn env fd r y in if go then udp_MainEventLoop env fd rs y1 else (False, y1))"

datatype 'a udp_result = Busy 'a | Returned 'a

text \<open>
  Each thread allocates its buffer first; an exception there ends the process. Socket \<open>0\<close> is
  served by the calling thread, and reading \<open>fds[0]\<close> of an empty vector is undefined. The call
  returns when all loops have ended and the threads are joined.
\<close>

definition udp_EventLoop :: "'w udp_env \<Rightarrow> udp_event list \<Rightarrow> 'w udp_sys \<Rightarrow> (bool \<times> 'w udp_sys) udp_result option" where
  "udp_EventLoop env es y =
     (if udp_has 8 y then Some (Returned (False, y))
      else if \<not> udp_has 1 y then Some (Returned (False, y))
      else if \<not> udp_has 2 y then Some (Returned (False, y))
      else if u_fds (v_sock y) = [] then None
      else if \<not> n_new env then None
      else let (ts, y1) = udp_run env es (map (\<lambda>fd. (fd, True)) (u_fds (v_sock y))) y
        in if \<exists>t \<in> set ts. snd t then Some (Busy (True, y1))
           else Some (Returned (True, close_fds (u_fds (v_sock y1)) y1)))"


section \<open>Frames\<close>

lemma udp_simps [simp]:
  "v_sock (on_udp f y) = f (v_sock y)" "v_kern (on_udp f y) = v_kern y" "v_glob (on_udp f y) = v_glob y"
  "v_family (on_udp f y) = v_family y" "v_instance (on_udp f y) = v_instance y" "v_exitFlag (on_udp f y) = v_exitFlag y"
  "v_sock (u_close fd y) = v_sock y" "v_kern (u_close fd y) = sys_close fd (v_kern y)" "v_glob (u_close fd y) = v_glob y"
  "v_family (u_close fd y) = v_family y" "v_instance (u_close fd y) = v_instance y"
  by (simp_all add: on_udp_def u_close_def)

text \<open>What the callbacks leave alone: the object, the settings and the descriptor table. The flag is only ever cleared.\<close>

definition udp_frame :: "'w udp_sys \<Rightarrow> 'w udp_sys \<Rightarrow> bool" where
  "udp_frame y y' \<longleftrightarrow> v_sock y' = v_sock y \<and> v_glob y' = v_glob y \<and> v_family y' = v_family y \<and> v_instance y' = v_instance y \<and>
     kn_fds (v_kern y') = kn_fds (v_kern y) \<and> (v_exitFlag y' \<longrightarrow> v_exitFlag y)"

lemma udp_frame_refl [simp]: "udp_frame y y"
  by (simp add: udp_frame_def)

lemma udp_frame_trans: "udp_frame x y \<Longrightarrow> udp_frame y z \<Longrightarrow> udp_frame x z"
  by (simp add: udp_frame_def)

lemma sys_sendto_cases:
  "\<exists>k. kn_fds k = kn_fds (v_kern y) \<and>
    (sys_sendto fd a xs y = (-1, y\<lparr>v_kern := k\<rparr>) \<and> \<not> (fd \<in> set (kn_fds (v_kern y)) \<and> fst (kcall (v_kern y)) = None) \<or>
     sys_sendto fd a xs y = (int (length xs), y\<lparr>v_kern := k, v_sent := v_sent y @ [(fd, a, xs)]\<rparr>) \<and>
       fd \<in> set (kn_fds (v_kern y)) \<and> fst (kcall (v_kern y)) = None)"
proof -
  obtain e k where k: "kcall (v_kern y) = (e, k)" by (cases "kcall (v_kern y)")
  then have "kn_fds k = kn_fds (v_kern y)" using kcall_files [of "v_kern y"] by simp
  with k show ?thesis by (intro exI [of _ k]) (cases e; simp add: sys_sendto_def)
qed

lemma SendTo_cases:
  "(udp_SendTo env fd data ip port y = (False, y) \<and> (\<not> udp_has 1 y \<or> data = None \<or> data = Some [] \<or> ip = None \<or> port = 0 \<or>
      (\<exists>s. ip = Some s \<and> n_pton env (v_family y) s = None))) \<or>
   (\<exists>xs s b ret y1. udp_has 1 y \<and> data = Some xs \<and> xs \<noteq> [] \<and> ip = Some s \<and> port \<noteq> 0 \<and> n_pton env (v_family y) s = Some b \<and>
      sys_sendto fd \<lparr>sa_family = v_family y, sa_port = htons port, sa_addr = b\<rparr> xs y = (ret, y1) \<and>
      udp_SendTo env fd data ip port y = (ret = int (length xs), y1))"
proof (cases "udp_has 1 y \<and> data \<noteq> None \<and> data \<noteq> Some [] \<and> ip \<noteq> None \<and> port \<noteq> 0 \<and> n_pton env (v_family y) (the ip) \<noteq> None")
  case True
  then obtain xs s b where v: "data = Some xs" "xs \<noteq> []" "ip = Some s" "n_pton env (v_family y) s = Some b"
    by (metis option.collapse option.sel)
  obtain ret y1 where "sys_sendto fd \<lparr>sa_family = v_family y, sa_port = htons port, sa_addr = b\<rparr> xs y = (ret, y1)"
    by (metis surj_pair)
  with True v show ?thesis by (intro disjI2) (simp add: udp_SendTo_def)
next
  case False
  then show ?thesis by (intro disjI1) (auto simp: udp_SendTo_def split: option.split)
qed

lemma SendTo_frame: "udp_frame y (snd (udp_SendTo env fd data ip port y))"
proof -
  have "udp_frame y y1" if "sys_sendto fd a xs y = (r, y1)" for a xs r y1
    using that sys_sendto_cases [of y fd a xs] by (auto simp: udp_frame_def)
  with SendTo_cases [of env fd data ip port y] show ?thesis by fastforce
qed

lemma run_action_frame: "udp_frame y (run_action env a y)"
proof (induction a arbitrary: y)
  case (Call_SendTo fd data ip port k)
  obtain ok y1 where s: "udp_SendTo env fd data ip port y = (ok, y1)" by (metis surj_pair)
  have "udp_frame y1 (run_action env (k ok) y1)" by (rule Call_SendTo.IH) simp
  with s udp_frame_trans SendTo_frame [of y env fd data ip port] show ?case by auto
next
  case (Call_SetExitFlag a)
  have "udp_frame y (udp_SetExitFlag y)" by (simp add: udp_frame_def udp_SetExitFlag_def)
  with Call_SetExitFlag.IH [of "udp_SetExitFlag y"] udp_frame_trans show ?case by auto
qed (simp add: udp_frame_def)

lemma recv_turn_frame: "recv_turn env fd r y = (go, y') \<Longrightarrow> udp_frame y y'"
  by (auto simp: recv_turn_def callback_def run_action_frame split: if_splits sum.splits)

lemma HandleExit_frame: "udp_frame y (udp_HandleExit y)" "\<not> v_exitFlag (udp_HandleExit y)"
  by (simp_all add: udp_HandleExit_def udp_frame_def)

lemma udp_run_frame: "udp_run env es ts y = (ts', y') \<Longrightarrow> udp_frame y y' \<and> map fst ts' = map fst ts"
proof (induction env es ts y rule: udp_run.induct)
  case (2 env es ts y)
  then show ?case using HandleExit_frame(1) udp_frame_trans by auto
next
  case (3 env i r es ts y)
  show ?case
  proof (cases "i < length ts \<and> snd (ts ! i)")
    case True
    obtain go y1 where t: "recv_turn env (fst (ts ! i)) r y = (go, y1)" by (metis surj_pair)
    let ?ts = "ts[i := (fst (ts ! i), go)]"
    have "map fst ?ts = map fst ts" using True by (simp add: map_update list_update_same_conv)
    with 3(1) [OF True t [symmetric] refl] 3(3) True t recv_turn_frame [OF t] udp_frame_trans show ?thesis by auto
  next
    case False
    with 3(2,3) show ?thesis by auto
  qed
qed simp

text \<open>A thread that runs alone runs \<open>MainEventLoop\<close>.\<close>

lemma udp_run_alone:
  assumes "i < length ts" "snd (ts ! i)"
  shows "udp_run env (map (Turn i) rs) ts y =
    (case udp_MainEventLoop env (fst (ts ! i)) rs y of (go, y') \<Rightarrow> (ts[i := (fst (ts ! i), go)], y'))"
  using assms
proof (induction rs arbitrary: ts y)
  case Nil
  then have "(fst (ts ! i), True) = ts ! i" by (simp add: prod_eq_iff)
  then show ?case by simp
next
  case (Cons r rs)
  obtain go y1 where t: "recv_turn env (fst (ts ! i)) r y = (go, y1)" by (metis surj_pair)
  let ?ts = "ts[i := (fst (ts ! i), go)]"
  have dead: "udp_run env (map (Turn i) rs) ts' y1 = (ts', y1)" if "i < length ts'" "\<not> snd (ts' ! i)" for ts'
    using that by (induction rs) simp_all
  show ?case
  proof (cases go)
    case True
    with Cons.IH [of ?ts y1] Cons.prems t show ?thesis by (simp split: prod.splits)
  next
    case False
    with dead [of ?ts] Cons.prems t show ?thesis by simp
  qed
qed


section \<open>Descriptors\<close>

lemma fold_close:
  "v_sock (fold u_close fds y) = v_sock y \<and> v_instance (fold u_close fds y) = v_instance y \<and>
    kn_fds (v_kern (fold u_close fds y)) = filter (\<lambda>f. f \<notin> set fds) (kn_fds (v_kern y))"
  by (induction fds arbitrary: y) (auto simp: removeAll_filter_not_eq intro: filter_cong)

lemma close_fds_simps [simp]:
  "v_sock (close_fds fds y) = (v_sock y)\<lparr>u_fds := []\<rparr>" "v_instance (close_fds fds y) = v_instance y"
  "kn_fds (v_kern (close_fds fds y)) = filter (\<lambda>f. f \<notin> set fds) (kn_fds (v_kern y))"
  by (simp_all add: close_fds_def fold_close)

text \<open>Sockets that are bound to an address with every option of the configuration.\<close>

definition bound_sockets :: "sockaddr \<Rightarrow> SPUdpConfig \<Rightarrow> int list \<Rightarrow> kern \<Rightarrow> bool" where
  "bound_sockets a cfg fds k \<longleftrightarrow> (\<forall>fd \<in> set fds. (fd, a) \<in> set (kn_bound k) \<and> Pair fd ` set (udp_options cfg) \<subseteq> set (kn_opts k))"

text \<open>Calls that add to what the kernel has recorded for the open descriptors.\<close>

definition records_kept :: "kern \<Rightarrow> kern \<Rightarrow> bool" where
  "records_kept k k' \<longleftrightarrow> set (kn_opts k) \<subseteq> set (kn_opts k') \<and> (\<forall>(fd, a) \<in> set (kn_bound k). fd \<in> set (kn_fds k) \<longrightarrow> (fd, a) \<in> set (kn_bound k'))"

lemma records_kept_bound:
  "records_kept k k' \<Longrightarrow> set fds \<subseteq> set (kn_fds k) \<Longrightarrow> bound_sockets a cfg fds k \<Longrightarrow> bound_sockets a cfg fds k'"
  by (force simp: records_kept_def bound_sockets_def)

lemma records_kept_trans: "records_kept k k' \<Longrightarrow> set (kn_fds k) \<subseteq> set (kn_fds k') \<Longrightarrow> records_kept k' k'' \<Longrightarrow> records_kept k k''"
  by (fastforce simp: records_kept_def)

lemma kcall_records: "kn_opts (snd (kcall k)) = kn_opts k" "kn_bound (snd (kcall k)) = kn_bound k" "kn_fds (snd (kcall k)) = kn_fds k"
  by (simp_all add: kcall_def split: list.splits)

lemma set_options_ok:
  "\<exists>ok k. set_options fd opts y = (ok, y\<lparr>v_kern := k\<rparr>) \<and> kn_fds k = kn_fds (v_kern y) \<and> kn_bound k = kn_bound (v_kern y) \<and>
    set (kn_opts (v_kern y)) \<subseteq> set (kn_opts k) \<and> (ok \<longrightarrow> Pair fd ` set opts \<subseteq> set (kn_opts k))"
proof (induction opts arbitrary: y)
  case Nil
  show ?case by (intro exI [of _ True] exI [of _ "v_kern y"]) simp
next
  case (Cons opt opts)
  obtain e k1 where k: "kcall (v_kern y) = (e, k1)" by (cases "kcall (v_kern y)")
  note R = kcall_records [of "v_kern y", unfolded k, simplified]
  show ?case
  proof (cases e)
    case None
    let ?k = "k1\<lparr>kn_opts := kn_opts k1 @ [(fd, opt)]\<rparr>"
    have s: "set_options fd (opt # opts) y = set_options fd opts (y\<lparr>v_kern := ?k\<rparr>)"
      using k None by (simp add: u_kern_def sys_setsockopt_def)
    from Cons.IH [of "y\<lparr>v_kern := ?k\<rparr>"] obtain ok k' where
      "set_options fd opts (y\<lparr>v_kern := ?k\<rparr>) = (ok, y\<lparr>v_kern := k'\<rparr>)" "kn_fds k' = kn_fds k1" "kn_bound k' = kn_bound k1"
      "set (kn_opts k1) \<union> {(fd, opt)} \<subseteq> set (kn_opts k')" "ok \<longrightarrow> Pair fd ` set opts \<subseteq> set (kn_opts k')" by auto
    with s R show ?thesis by (intro exI [of _ ok] exI [of _ k']) auto
  next
    case (Some err)
    with k R show ?thesis by (intro exI [of _ False] exI [of _ k1]) (simp add: u_kern_def sys_setsockopt_def)
  qed
qed

lemma bind_one_cases:
  "(\<exists>k. bind_one a y = (False, y\<lparr>v_kern := k\<rparr>) \<and> kn_fds k = kn_fds (v_kern y) \<and> records_kept (v_kern y) k) \<or>
   (\<exists>fd k. bind_one a y = (True, y\<lparr>v_kern := k, v_sock := (v_sock y)\<lparr>u_fds := u_fds (v_sock y) @ [fd]\<rparr>\<rparr>) \<and>
      fd \<notin> set (kn_fds (v_kern y)) \<and> kn_fds k = fd # kn_fds (v_kern y) \<and> records_kept (v_kern y) k \<and>
      bound_sockets a (g_udpConfig (v_glob y)) [fd] k)"
proof -
  let ?k0 = "v_kern y"
  obtain e k1 where k1: "kcall ?k0 = (e, k1)" by (cases "kcall ?k0")
  note R1 = kcall_records [of ?k0, unfolded k1, simplified]
  show ?thesis
  proof (cases e)
    case (Some err)
    with k1 R1 show ?thesis by (intro disjI1 exI [of _ k1]) (auto simp: bind_one_def u_kern_def new_fd_def records_kept_def)
  next
    case None
    let ?fd = "first_free (kn_fds ?k0)" let ?k2 = "k1\<lparr>kn_fds := ?fd # kn_fds ?k0\<rparr>"
    let ?opts = "udp_options (g_udpConfig (v_glob y))"
    have fresh: "?fd \<notin> set (kn_fds ?k0)" by (rule first_free_fresh)
    have n: "u_kern new_fd y = (Inr ?fd, y\<lparr>v_kern := ?k2\<rparr>)" using k1 None R1 by (simp add: u_kern_def new_fd_def Let_def)
    from set_options_ok [of ?fd ?opts "y\<lparr>v_kern := ?k2\<rparr>"] R1 obtain ok k3 where
      o: "set_options ?fd ?opts (y\<lparr>v_kern := ?k2\<rparr>) = (ok, y\<lparr>v_kern := k3\<rparr>)" "kn_fds k3 = ?fd # kn_fds ?k0" "kn_bound k3 = kn_bound ?k0"
        "set (kn_opts ?k0) \<subseteq> set (kn_opts k3)" "ok \<longrightarrow> Pair ?fd ` set ?opts \<subseteq> set (kn_opts k3)" by auto
    obtain e' k4 where k4: "kcall k3 = (e', k4)" by (cases "kcall k3")
    note R4 = kcall_records [of k3, unfolded k4, simplified]
    let ?k5 = "k4\<lparr>kn_bound := (?fd, a) # kn_bound k4\<rparr>"
    have b: "bind_one a y = (if \<not> ok then (False, y\<lparr>v_kern := sys_close ?fd k3\<rparr>) else if e' \<noteq> None then (False, y\<lparr>v_kern := sys_close ?fd k4\<rparr>)
        else (True, y\<lparr>v_kern := ?k5, v_sock := (v_sock y)\<lparr>u_fds := u_fds (v_sock y) @ [?fd]\<rparr>\<rparr>))"
      using n o(1) k4 by (cases e') (simp_all add: bind_one_def u_kern_def sys_bind_def u_close_def on_udp_def)
    have closed: "kn_fds (sys_close ?fd k) = kn_fds ?k0 \<and> records_kept ?k0 (sys_close ?fd k)"
      if "kn_fds k = ?fd # kn_fds ?k0" "kn_bound k = kn_bound ?k0" "set (kn_opts ?k0) \<subseteq> set (kn_opts k)" for k
      using that fresh by (auto simp: records_kept_def sys_close_def)
    consider "\<not> ok" | "ok" "e' \<noteq> None" | "ok" "e' = None" by blast
    then show ?thesis
    proof cases
      case 1
      with b closed [OF o(2-4)] show ?thesis by auto
    next
      case 2
      with b closed [of k4] o R4 show ?thesis by auto
    next
      case 3
      with b fresh o R4 show ?thesis
        by (intro disjI2 exI [of _ ?fd] exI [of _ ?k5]) (auto simp: records_kept_def bound_sockets_def)
    qed
  qed
qed


lemma bind_loop_ok:
  "\<exists>new k. bind_loop n a y = y\<lparr>v_kern := k, v_sock := (v_sock y)\<lparr>u_fds := u_fds (v_sock y) @ new\<rparr>\<rparr> \<and> length new \<le> n \<and>
    kn_fds k = rev new @ kn_fds (v_kern y) \<and> distinct new \<and> set new \<inter> set (kn_fds (v_kern y)) = {} \<and>
    records_kept (v_kern y) k \<and> bound_sockets a (g_udpConfig (v_glob y)) new k"
proof (induction n arbitrary: y)
  case 0
  show ?case by (intro exI [of _ "[]"] exI [of _ "v_kern y"]) (auto simp: records_kept_def bound_sockets_def)
next
  case (Suc n)
  from bind_one_cases [of a y] show ?case
  proof (elim disjE exE conjE)
    fix k
    assume "bind_one a y = (False, y\<lparr>v_kern := k\<rparr>)" "kn_fds k = kn_fds (v_kern y)" "records_kept (v_kern y) k"
    then show ?case by (intro exI [of _ "[]"] exI [of _ k]) (simp add: bound_sockets_def)
  next
    fix fd k
    let ?y = "y\<lparr>v_kern := k, v_sock := (v_sock y)\<lparr>u_fds := u_fds (v_sock y) @ [fd]\<rparr>\<rparr>" and ?cfg = "g_udpConfig (v_glob y)"
    assume b: "bind_one a y = (True, ?y)" "fd \<notin> set (kn_fds (v_kern y))" "kn_fds k = fd # kn_fds (v_kern y)"
      "records_kept (v_kern y) k" "bound_sockets a ?cfg [fd] k"
    from Suc.IH [of ?y] obtain new k' where
      h: "bind_loop n a ?y = ?y\<lparr>v_kern := k', v_sock := (v_sock ?y)\<lparr>u_fds := u_fds (v_sock ?y) @ new\<rparr>\<rparr>" "length new \<le> n"
        "kn_fds k' = rev new @ kn_fds k" "distinct new" "set new \<inter> set (kn_fds k) = {}" "records_kept k k'" "bound_sockets a ?cfg new k'" by auto
    have "records_kept (v_kern y) k'" by (rule records_kept_trans [OF b(4) _ h(6)]) (use b(3) in auto)
    moreover have "bound_sockets a ?cfg (fd # new) k'"
      using records_kept_bound [OF h(6) _ b(5)] b(3) h(7) by (auto simp: bound_sockets_def)
    ultimately show ?case by (intro exI [of _ "fd # new"] exI [of _ k']) (use b h in auto)
  qed
qed

section \<open>Properties\<close>

text \<open>A sample service on a machine with two cores that answers every datagram with its payload.\<close>

definition echo :: "int \<Rightarrow> byte list \<Rightarrow> string \<Rightarrow> u16 \<Rightarrow> nat \<Rightarrow> nat action" where
  "echo fd xs ip port w = Call_SendTo fd (Some xs) (Some ip) port (\<lambda>ok. Return (if ok then Suc w else w))"

definition udp_env0 :: "nat udp_env" where
  "udp_env0 = \<lparr>n_rcp = (\<lambda>_ _. echo), n_new = True, n_pton = (\<lambda>_ _. Some [127, 0, 0, 1]), n_ntop = (\<lambda>_ _. ''127.0.0.1''), n_cores = 2\<rparr>"

definition udp_kern0 :: kern where
  "udp_kern0 = \<lparr>kn_fds = [0, 1, 2], kn_script = [], kn_backlog = [], kn_interest = (\<lambda>_. None), kn_opts = [], kn_nonblock = [],
     kn_bound = [], kn_listening = [], kn_signalled = [], kn_handlers = [], kn_sock = (\<lambda>_. sample_sock)\<rparr>"

definition udp0 :: "nat udp_sys" where
  "udp0 = \<lparr>v_family = ADDRESS_FAMILY_INET, v_instance = True, v_sock = udp_new, v_exitFlag = True,
     v_glob = \<lparr>g_tcpConfig = tcp_config_default, g_udpConfig = udp_config_default, g_markGlobal = \<lparr>readMark = 0, writeMark = 0\<rparr>,
       g_minLevel = LOG_LEVEL_NONE, g_renableProc = Hook_null, g_funcClose = Hook_null, g_funcEvent = Hook_null\<rparr>,
     v_kern = udp_kern0, v_sent = [], v_app = 0\<rparr>"

text \<open>The same service after \<open>Bind\<close> and \<open>SetCallback\<close>.\<close>

definition udp1 :: "nat udp_sys" where
  "udp1 = udp0\<lparr>v_sock := \<lparr>u_ctx = null, u_rcp = 300, u_status = 3, u_fds = [3, 4]\<rparr>, v_kern := udp_kern0\<lparr>kn_fds := [4, 3, 0, 1, 2]\<rparr>\<rparr>"

lemma udp_add_simps [simp]: "v_kern (udp_add b y) = v_kern y" "u_fds (v_sock (udp_add b y)) = u_fds (v_sock y)"
  "v_instance (udp_add b y) = v_instance y"
  by (simp_all add: udp_add_def)

lemma udp_add_has: "udp_has b (udp_add b y)"
proof -
  have "(w OR b) AND b = b" for w by (rule bit_word_eqI) (auto simp: bit_and_iff bit_or_iff)
  then show ?thesis by (simp add: udp_has_def udp_add_def)
qed

text \<open>
  C28. \<open>Bind\<close> followed by \<open>Release\<close> restores the descriptor table. When \<open>Bind\<close> returns false nothing has
  changed. When it returns true the call is recorded, and there are either as many new sockets as
  cores, each bound to the address with all options set, or no new descriptor at all; in both cases
  \<open>Release\<close> leaves exactly the descriptors that were open before.
\<close>

theorem Bind_Release_roundtrip:
  assumes "v_instance y" "u_fds (v_sock y) = []"
  shows "case udp_Bind env port ip y of (ok, y') \<Rightarrow>
    if ok then udp_has 1 y' \<and> kn_fds (v_kern (udp_Release y')) = kn_fds (v_kern y) \<and>
      (\<exists>a fds. SOCKADDR_INIT (n_pton env) (v_family y) ip port = Some a \<and> u_fds (v_sock y') = fds \<and> (fds = [] \<or> length fds = unat (n_cores env)) \<and>
        distinct fds \<and> set fds \<inter> set (kn_fds (v_kern y)) = {} \<and> kn_fds (v_kern y') = rev fds @ kn_fds (v_kern y) \<and>
        bound_sockets a (g_udpConfig (v_glob y)) fds (v_kern y'))
    else y' = y"
proof (cases "u_status (v_sock y) AND 1 \<noteq> 0 \<or> SOCKADDR_INIT (n_pton env) (v_family y) ip port = None \<or> n_cores env = 0")
  case True
  then show ?thesis by (auto simp: udp_Bind_def split: option.splits)
next
  case False
  then obtain a where a: "SOCKADDR_INIT (n_pton env) (v_family y) ip port = Some a" by auto
  let ?n = "unat (n_cores env)" let ?y1 = "bind_loop ?n a y"
  let ?y2 = "if length (u_fds (v_sock ?y1)) \<noteq> ?n then close_fds (u_fds (v_sock ?y1)) ?y1 else ?y1"
  from bind_loop_ok [of ?n a y] assms(2) obtain new k where
    h: "?y1 = y\<lparr>v_kern := k, v_sock := (v_sock y)\<lparr>u_fds := new\<rparr>\<rparr>" "kn_fds k = rev new @ kn_fds (v_kern y)" "distinct new"
      "set new \<inter> set (kn_fds (v_kern y)) = {}" "bound_sockets a (g_udpConfig (v_glob y)) new k" by auto
  have B: "udp_Bind env port ip y = (True, udp_add 1 ?y2)" using False a by (simp add: udp_Bind_def Let_def)
  have rest: "filter (\<lambda>f. f \<notin> set new) (rev new @ kn_fds (v_kern y)) = kn_fds (v_kern y)"
    using h(4) by (auto simp: filter_id_conv)
  show ?thesis
  proof (cases "length new = ?n")
    case True
    then have "?y2 = ?y1" using h(1) by simp
    with B a h rest assms(1) True udp_add_has [of 1 ?y1] show ?thesis by (simp add: udp_Release_def udp_destroy_def)
  next
    case False
    then have "?y2 = close_fds new ?y1" using h(1) by simp
    with B a h rest assms(1) udp_add_has [of 1 ?y2] show ?thesis
      by (simp add: udp_Release_def udp_destroy_def bound_sockets_def)
  qed
qed

theorem Bind_Release_roundtrip_witness:
  "case udp_Bind udp_env0 7000 None udp0 of (ok, y') \<Rightarrow>
    if ok then udp_has 1 y' \<and> kn_fds (v_kern (udp_Release y')) = kn_fds (v_kern udp0) \<and>
      (\<exists>a fds. SOCKADDR_INIT (n_pton udp_env0) (v_family udp0) None 7000 = Some a \<and> u_fds (v_sock y') = fds \<and>
        (fds = [] \<or> length fds = unat (n_cores udp_env0)) \<and>
        distinct fds \<and> set fds \<inter> set (kn_fds (v_kern udp0)) = {} \<and> kn_fds (v_kern y') = rev fds @ kn_fds (v_kern udp0) \<and>
        bound_sockets a (g_udpConfig (v_glob udp0)) fds (v_kern y'))
    else y' = udp0"
  by (rule Bind_Release_roundtrip) (simp_all add: udp0_def udp_new_def)


section \<open>The event loop\<close>

definition udp_ready :: "'w udp_env \<Rightarrow> 'w udp_sys \<Rightarrow> bool" where
  "udp_ready env y \<longleftrightarrow> n_new env \<and> \<not> udp_has 8 y \<and> udp_has 1 y \<and> udp_has 2 y \<and> u_fds (v_sock y) \<noteq> []"

text \<open>A callback that does not ask the loop to end.\<close>

primrec quiet :: "'w action \<Rightarrow> bool" where
  "quiet (Return w) = True"
| "quiet (Call_SendTo fd data ip port k) = (quiet (k True) \<and> quiet (k False))"
| "quiet (Call_SetExitFlag a) = False"

text \<open>A schedule without signals and with no errors but interruptions and timeouts, and the datagrams in it.\<close>

definition calm :: "nat \<Rightarrow> udp_event list \<Rightarrow> bool" where
  "calm n es \<longleftrightarrow> list_all (\<lambda>e. case e of Turn i (Inl x) \<Rightarrow> i < n \<and> (x = EINTR \<or> x = EAGAIN) | Turn i (Inr _) \<Rightarrow> i < n | Signal \<Rightarrow> False) es"

fun datagrams :: "int list \<Rightarrow> udp_event list \<Rightarrow> (int \<times> byte list \<times> sockaddr) list" where
  "datagrams fds [] = []"
| "datagrams fds (Turn i (Inr (xs, a)) # es) = (fds ! i, xs, a) # datagrams fds es"
| "datagrams fds (e # es) = datagrams fds es"

lemma quiet_exitFlag: "quiet a \<Longrightarrow> v_exitFlag (run_action env a y) = v_exitFlag y"
proof (induction a arbitrary: y)
  case (Call_SendTo fd data ip port k)
  obtain ok y1 where s: "udp_SendTo env fd data ip port y = (ok, y1)" by (metis surj_pair)
  have "v_exitFlag y1 = v_exitFlag y" using SendTo_cases [of env fd data ip port y] s
  proof (elim disjE exE conjE)
    fix xs s b ret y2
    let ?a = "\<lparr>sa_family = v_family y, sa_port = htons port, sa_addr = b\<rparr>"
    assume "sys_sendto fd ?a xs y = (ret, y2)" "udp_SendTo env fd data ip port y = (ret = int (length xs), y2)"
    with s sys_sendto_cases [of y fd ?a xs] show ?thesis by auto
  qed auto
  moreover have "quiet (k ok)" using Call_SendTo.prems by (cases ok) simp_all
  then have "v_exitFlag (run_action env (k ok) y1) = v_exitFlag y1" by (rule Call_SendTo.IH [rotated]) simp
  ultimately show ?case using s by simp
qed simp_all

lemma udp_run_calm:
  assumes "\<And>f c fd xs ip port w. quiet (n_rcp env f c fd xs ip port w)" "calm (length ts) es" "v_exitFlag y" "\<forall>t \<in> set ts. snd t"
  shows "udp_run env es ts y = (ts, fold (\<lambda>(fd, xs, a). callback env fd xs a) (datagrams (map fst ts) es) y)"
  using assms(2,3)
proof (induction es arbitrary: y)
  case (Cons e es)
  obtain i r where e: "e = Turn i r" "i < length ts" using Cons.prems(1) by (cases e) (auto simp: calm_def split: sum.splits)
  have on: "snd (ts ! i)" "ts[i := (fst (ts ! i), True)] = ts"
    using assms(4) e(2) list_update_id [of ts i] by (metis nth_mem prod.collapse)+
  have c: "calm (length ts) es" using Cons.prems(1) by (simp add: calm_def)
  show ?case
  proof (cases r)
    case (Inl x)
    then have "x = EINTR \<or> x = EAGAIN" using Cons.prems(1) e by (simp add: calm_def)
    with Inl e on Cons.IH [OF c Cons.prems(2)] Cons.prems(2) show ?thesis by (simp add: recv_turn_def)
  next
    case (Inr d)
    then obtain xs a where d: "r = Inr (xs, a)" by (cases d) simp
    have "v_exitFlag (callback env (fst (ts ! i)) xs a y)" using Cons.prems(2) assms(1) by (simp add: callback_def quiet_exitFlag)
    from Cons.IH [OF c this] d e on Cons.prems(2) show ?thesis by (simp add: recv_turn_def)
  qed
qed simp

lemma udp_run_append: "udp_run env (es @ es') ts y = (case udp_run env es ts y of (ts1, y1) \<Rightarrow> udp_run env es' ts1 y1)"
  by (induction env es ts y rule: udp_run.induct) (auto split: prod.splits)

text \<open>Once the flag is cleared a thread ends with its next turn.\<close>

lemma udp_run_exit:
  assumes "udp_run env es ts y = (ts', y')" "\<not> v_exitFlag y" "i < length ts" "snd (ts' ! i)"
  shows "snd (ts ! i) \<and> (\<forall>r. Turn i r \<notin> set es)"
  using assms
proof (induction env es ts y rule: udp_run.induct)
  case (2 env es ts y)
  then show ?case using HandleExit_frame(2) by auto
next
  case (3 env j r es ts y)
  show ?case
  proof (cases "j < length ts \<and> snd (ts ! j)")
    case True
    have t: "recv_turn env (fst (ts ! j)) r y = (False, y)" using 3(4) by (simp add: recv_turn_def)
    let ?ts = "ts[j := (fst (ts ! j), False)]"
    have "snd (?ts ! i) \<and> (\<forall>r. Turn i r \<notin> set es)"
      by (rule 3(1) [OF True t [symmetric] refl]) (use 3(3-6) True t in simp_all)
    with True show ?thesis by (cases "i = j") auto
  next
    case False
    then have h: "snd (ts ! i) \<and> (\<forall>r. Turn i r \<notin> set es)" using 3(2-6) by auto
    with False 3(5) have "i \<noteq> j" by auto
    with h show ?thesis by simp
  qed
qed simp



lemma udp1_ready: "udp_ready udp_env0 udp1"
  by (simp add: udp_ready_def udp_env0_def udp1_def udp_has_def)

definition udp_peer :: sockaddr where
  "udp_peer = \<lparr>sa_family = ADDRESS_FAMILY_INET, sa_port = 9, sa_addr = [127, 0, 0, 1]\<rparr>"


text \<open>
  C27. A signal ends the event loop. Whatever the callbacks do, once a signal has arrived and every
  thread has had one more turn, \<open>EventLoop\<close> returns true and has closed all sockets of the service
  and no other descriptor.
\<close>

theorem udp_EventLoop_stops:
  assumes "udp_ready env y" "\<forall>i < length (u_fds (v_sock y)). \<exists>r. Turn i r \<in> set es'"
  shows "\<exists>y'. udp_EventLoop env (es @ Signal # es') y = Some (Returned (True, y')) \<and> u_fds (v_sock y') = [] \<and>
    kn_fds (v_kern y') = filter (\<lambda>f. f \<notin> set (u_fds (v_sock y))) (kn_fds (v_kern y))"
proof -
  let ?ts = "map (\<lambda>fd. (fd, True)) (u_fds (v_sock y))"
  obtain ts1 y1 where r1: "udp_run env es ?ts y = (ts1, y1)" by (metis surj_pair)
  obtain ts2 y2 where r2: "udp_run env es' ts1 (udp_HandleExit y1) = (ts2, y2)" by (metis surj_pair)
  have r: "udp_run env (es @ Signal # es') ?ts y = (ts2, y2)" using r1 r2 by (simp add: udp_run_append)
  have len: "length ts1 = length (u_fds (v_sock y))" "length ts2 = length ts1"
    using udp_run_frame [OF r1] udp_run_frame [OF r2] by (metis length_map)+
  have "\<not> snd (ts2 ! i)" if "i < length ts2" for i
    using udp_run_exit [OF r2 HandleExit_frame(2), of i] assms(2) that len by auto
  then have "\<not> (\<exists>t \<in> set ts2. snd t)" by (metis in_set_conv_nth)
  then have "udp_EventLoop env (es @ Signal # es') y = Some (Returned (True, close_fds (u_fds (v_sock y2)) y2))"
    using assms(1) r by (simp add: udp_EventLoop_def udp_ready_def)
  moreover have "udp_frame y y2" using udp_run_frame [OF r] by simp
  ultimately show ?thesis by (simp add: udp_frame_def)
qed

theorem udp_EventLoop_stops_witness:
  "\<exists>y'. udp_EventLoop udp_env0 ([Turn 1 (Inr ([7, 8], udp_peer))] @ Signal # [Turn 0 (Inl EAGAIN), Turn 1 (Inl EINTR)]) udp1 =
      Some (Returned (True, y')) \<and> u_fds (v_sock y') = [] \<and>
    kn_fds (v_kern y') = filter (\<lambda>f. f \<notin> set (u_fds (v_sock udp1))) (kn_fds (v_kern udp1))"
  by (rule udp_EventLoop_stops [OF udp1_ready]) (auto simp: udp1_def less_Suc_eq numeral_2_eq_2)

text \<open>
  \<open>SendTo\<close> sends exactly one datagram or none. It returns true exactly when \<open>Bind\<close> has been called,
  the payload, the address and the port are valid, the socket is open and the system call succeeds;
  then one datagram with the whole payload has gone to the address on that socket, and otherwise
  nothing has been sent.
\<close>

theorem udp_SendTo_exact:
  "case udp_SendTo env fd data ip port y of (ok, y') \<Rightarrow>
    (ok \<longleftrightarrow> udp_has 1 y \<and> data \<notin> {None, Some []} \<and> ip \<noteq> None \<and> port \<noteq> 0 \<and> n_pton env (v_family y) (the ip) \<noteq> None \<and>
      fd \<in> set (kn_fds (v_kern y)) \<and> fst (kcall (v_kern y)) = None) \<and>
    v_sent y' = v_sent y @ (if ok then [(fd, \<lparr>sa_family = v_family y, sa_port = htons port,
      sa_addr = the (n_pton env (v_family y) (the ip))\<rparr>, the data)] else []) \<and> kn_fds (v_kern y') = kn_fds (v_kern y)"
  using SendTo_cases [of env fd data ip port y]
proof (elim disjE [where P = "_ \<and> _"] exE conjE)
  assume "udp_SendTo env fd data ip port y = (False, y)" "\<not> udp_has 1 y \<or> data = None \<or> data = Some [] \<or> ip = None \<or> port = 0 \<or>
    (\<exists>s. ip = Some s \<and> n_pton env (v_family y) s = None)"
  then show ?thesis by auto
next
  fix xs s b ret y1
  let ?a = "\<lparr>sa_family = v_family y, sa_port = htons port, sa_addr = b\<rparr>"
  assume "udp_has 1 y" "data = Some xs" "xs \<noteq> []" "ip = Some s" "port \<noteq> 0" "n_pton env (v_family y) s = Some b"
    "sys_sendto fd ?a xs y = (ret, y1)" "udp_SendTo env fd data ip port y = (ret = int (length xs), y1)"
  with sys_sendto_cases [of y fd ?a xs] show ?thesis by auto
qed

text \<open>
  A failure to create the sockets is not reported. On a machine that can open no socket
  \<open>Bind\<close> and \<open>SetCallback\<close> return true, and \<open>EventLoop\<close> then reads the first element of an empty vector.
\<close>

theorem udp_Bind_hides_failure:
  assumes "n_cores env \<noteq> 0" "u_status (v_sock y) = 0" "u_fds (v_sock y) = []" "kn_script (v_kern y) = Some e # rest"
    "SOCKADDR_INIT (n_pton env) (v_family y) ip port = Some a" "rcp \<noteq> null"
  shows "\<exists>y1 y2. udp_Bind env port ip y = (True, y1) \<and> udp_SetCallback rcp ctx y1 = (True, y2) \<and> udp_EventLoop env es y2 = None"
proof -
  obtain n where n: "unat (n_cores env) = Suc n" using assms(1) by (cases "unat (n_cores env)") (simp_all add: u32_eq_0_iff)
  let ?y = "y\<lparr>v_kern := (v_kern y)\<lparr>kn_script := rest\<rparr>\<rparr>"
  have "bind_loop (unat (n_cores env)) a y = ?y" using assms(4) n by (simp add: bind_one_def u_kern_def new_fd_def kcall_def)
  then have "udp_Bind env port ip y = (True, udp_add 1 (close_fds [] ?y))" using assms n by (simp add: udp_Bind_def)
  moreover have "udp_EventLoop env es (udp_add 2 (on_udp (\<lambda>s. s\<lparr>u_ctx := ctx, u_rcp := rcp\<rparr>) (udp_add 1 (close_fds [] ?y)))) = None"
    using assms(2) by (simp add: udp_EventLoop_def udp_has_def udp_add_def)
  ultimately show ?thesis using assms(6) by (simp add: udp_SetCallback_def)
qed

theorem udp_Bind_hides_failure_witness:
  "\<exists>y1 y2. udp_Bind udp_env0 7000 None (udp0\<lparr>v_kern := udp_kern0\<lparr>kn_script := [Some EMFILE]\<rparr>\<rparr>) = (True, y1) \<and>
     udp_SetCallback 300 null y1 = (True, y2) \<and> udp_EventLoop udp_env0 [] y2 = None"
  by (rule udp_Bind_hides_failure) (simp_all add: udp_env0_def udp0_def udp_new_def udp_kern0_def SOCKADDR_INIT_def)

text \<open>
  \<open>EventLoop\<close> does not record that it has run. Its guard against a second call tests a status
  bit that no code sets, so after it has returned true another call passes the guards and reads the
  first element of the emptied vector.
\<close>

theorem udp_EventLoop_twice:
  assumes "udp_EventLoop env es y = Some (Returned (True, y'))"
  shows "udp_EventLoop env es' y' = None"
proof -
  have g: "\<not> udp_has 8 y" "udp_has 1 y" "udp_has 2 y" "u_fds (v_sock y) \<noteq> []" "n_new env"
    using assms by (auto simp: udp_EventLoop_def split: if_splits prod.splits)
  obtain ts y1 where r: "udp_run env es (map (\<lambda>fd. (fd, True)) (u_fds (v_sock y))) y = (ts, y1)" by (metis surj_pair)
  have "y' = close_fds (u_fds (v_sock y1)) y1" using assms g r by (auto simp: udp_EventLoop_def split: if_splits)
  moreover have "v_sock y1 = v_sock y" using udp_run_frame [OF r] by (simp add: udp_frame_def)
  ultimately show ?thesis using g by (simp add: udp_EventLoop_def udp_has_def)
qed

theorem udp_EventLoop_twice_witness:
  "\<exists>y'. udp_EventLoop udp_env0 ([] @ Signal # [Turn 0 (Inl EAGAIN), Turn 1 (Inl EINTR)]) udp1 = Some (Returned (True, y')) \<and>
     udp_EventLoop udp_env0 [] y' = None"
proof -
  have "\<exists>y'. udp_EventLoop udp_env0 ([] @ Signal # [Turn 0 (Inl EAGAIN), Turn 1 (Inl EINTR)]) udp1 = Some (Returned (True, y'))"
    by (simp add: udp_EventLoop_def udp1_def udp0_def udp_env0_def udp_has_def udp_HandleExit_def recv_turn_def)
  with udp_EventLoop_twice show ?thesis by blast
qed

end
