(* ===== verification/SP_Examples.thy ===== *)
theory SP_Examples
  imports SP_Protocol SP_Sock_Udp
begin

text \<open>
  The applications that come with the library: the callbacks and main functions of \<open>example\<close> and
  \<open>test\<close>. They are ordinary clients, so that this theory composes the theorems about the library: a
  callback runs on a connection that its task owns, works on the stream and arms or
  closes the connection.

  What the callbacks do to the streams and to the ownership of their connections is the subject of \<open>SP_Stream\<close>.
\<close>

section \<open>The callbacks\<close>

definition close_conn :: "bool \<Rightarrow> addr \<Rightarrow> 'w tcp_sys \<Rightarrow> 'w tcp_sys option" where
  "close_conn new_ok x y = do { c \<leftarrow> conn_at x y; ctrl_close (run_close new_ok) c y }"

definition arm_or_close :: "bool \<Rightarrow> bool \<Rightarrow> bool \<Rightarrow> addr \<Rightarrow> 'w tcp_sys \<Rightarrow> 'w tcp_sys option" where
  "arm_or_close new_ok rd wr x y = do {
     (ret, y1) \<leftarrow> on_events x (enableEvents run_event rd wr) y;
     if \<not> ret then close_conn new_ok x y1 else Some y1
   }"

text \<open>\<open>echo_read_write_proc\<close> of \<open>example_tcp.cpp\<close> and \<open>echo_test.cpp\<close>.\<close>

definition echo_proc :: "bool \<Rightarrow> addr \<Rightarrow> 'w tcp_sys \<Rightarrow> 'w tcp_sys option" where
  "echo_proc new_ok x y = do {
     c \<leftarrow> conn_at x y;
     if isPeerClosed c then close_conn new_ok x y
     else do {
       (r, c1, y1) \<leftarrow> on_stream x writeBack y;
       if r < 0 then close_conn new_ok x y1
       else if getReadBufferSize c1 \<noteq> 0 then arm_or_close new_ok False True x y1
       else arm_or_close new_ok True False x y1
     }
   }"

text \<open>The callback of \<open>recv_test.cpp\<close>; \<open>junk\<close> are the bytes of the local array, which is not initialised.\<close>

definition recv_stream :: "(nat \<Rightarrow> byte) \<Rightarrow> SOCKController \<Rightarrow> ksock \<Rightarrow> (u64 \<times> SOCKController \<times> ksock) option" where
  "recv_stream junk c k = map_option (\<lambda>(n, _, c1). (n, c1, k)) (ctrl_read (map junk [0..<1024 * 32]) (1024 * 32) c)"

definition recv_proc :: "bool \<Rightarrow> (nat \<Rightarrow> byte) \<Rightarrow> addr \<Rightarrow> 'w tcp_sys \<Rightarrow> 'w tcp_sys option" where
  "recv_proc new_ok junk x y = do {
     c \<leftarrow> conn_at x y;
     if isPeerClosed c then close_conn new_ok x y
     else do {
       (r, c1, y1) \<leftarrow> on_stream x (recv_stream junk) y;
       if r = 0 then close_conn new_ok x y1 else arm_or_close new_ok True False x y1
     }
   }"

text \<open>The callback of \<open>write_test.cpp\<close>; its array is global and holds zeros.\<close>

definition write_stream :: "SOCKController \<Rightarrow> ksock \<Rightarrow> (int \<times> SOCKController \<times> ksock) option" where
  "write_stream c k = do {
     (n, c1) \<leftarrow> ctrl_writeTemp (replicate (1024 * 32) 0) (1024 * 32) c;
     ctrl_commitWrite c1 k
   }"

definition write_proc :: "bool \<Rightarrow> addr \<Rightarrow> 'w tcp_sys \<Rightarrow> 'w tcp_sys option" where
  "write_proc new_ok x y = do {
     c \<leftarrow> conn_at x y;
     if isPeerClosed c then close_conn new_ok x y
     else do {
       (r, c1, y1) \<leftarrow> on_stream x write_stream y;
       if r = -1 then close_conn new_ok x y1 else arm_or_close new_ok False True x y1
     }
   }"

text \<open>The callback of \<open>memory_test.cpp\<close>.\<close>

definition memory_proc :: "bool \<Rightarrow> addr \<Rightarrow> 'w tcp_sys \<Rightarrow> 'w tcp_sys option" where
  "memory_proc new_ok x y = do {
     c \<leftarrow> conn_at x y;
     if isPeerClosed c then close_conn new_ok x y else arm_or_close new_ok True False x y
   }"

datatype app = Echo_App | Recv_App "nat \<Rightarrow> byte" | Write_App | Memory_App

fun app_proc :: "app \<Rightarrow> bool \<Rightarrow> addr \<Rightarrow> 'w tcp_sys \<Rightarrow> 'w tcp_sys option" where
  "app_proc Echo_App new_ok x y = echo_proc new_ok x y"
| "app_proc (Recv_App junk) new_ok x y = recv_proc new_ok junk x y"
| "app_proc Write_App new_ok x y = write_proc new_ok x y"
| "app_proc Memory_App new_ok x y = memory_proc new_ok x y"

text \<open>The sample server while a task owns its connection.\<close>

lemma server1_owned: "proto_inv server_env server_fds 1 1 4 (server1, [7])"
proof (rule proto_invI)
  show "regs_ok (y_kern server1)" by (auto simp: regs_ok_def server1_def server0_def kern0_def split: if_splits)
  show "\<not> live z (y_kern server1)" if "z \<in> set [7] \<union> set (s_cList (y_sock server1))" for z
    using that by (auto simp: live_def server1_def server0_def kern0_def tcp_new_def split: if_splits)
qed (use server1_inv server1_sink(1) server1_conn in \<open>simp_all add: server1_def server0_def tcp_new_def\<close>)

section \<open>The main functions of the TCP applications\<close>

text \<open>
  The configuration of all five programs; they differ in the default event. The null pointer that \<open>GetInstance\<close>
  returns without memory is dereferenced. \<open>mark\<close> is the water mark that \<open>write_test.cpp\<close> sets; \<open>SIGINT\<close> is 2.
\<close>

definition test_cfg :: "u32 \<Rightarrow> SPTcpConfig" where
  "test_cfg ev = \<lparr>READ_BSIZE = 16 * 1024, WRITE_BSIZE = 32 * 1024, BUFFER_POOL_PEER_ALLOC_NUM = 16, BUFFER_POOL_MIN_BLOCK_NUM = 64,
     EPOLL_MAX_EVENT_BSIZE = 10000, EPOLL_DEFAULT_EVENT = ev, THREADPOOL_QUEUE_LENGTH = 20000, THREADPOOL_BATCH_SIZE_SUBMIT = 10,
     THREADPOOL_BATCH_SIZE_PROCESS = 5, WORKER_THREAD_RATIO = 9 / 10, MIN_LOG_LEVEL = LOG_LEVEL_INFO\<rparr>"

text \<open>The calls before the event loop; the first result says whether all of them succeeded.\<close>

definition tcp_setup :: "'w tcp_env \<Rightarrow> u32 \<Rightarrow> addr \<Rightarrow> 'w tcp_sys \<Rightarrow> (bool \<times> 'w tcp_sys) option" where
  "tcp_setup env ev proc y = do {
     g \<leftarrow> tcp_Config (y_family y) (test_cfg ev) (y_glob y);
     let (got, y1) = GetInstance (e_new env) (y\<lparr>y_glob := g\<rparr>);
     if \<not> got then None
     else let (ok1, y2) = EnableKeepAlive True 120 2 10 y1 in
     if \<not> ok1 then Some (False, y2)
     else let (ok2, y3) = SetCallback null null proc proc y2 in
     if \<not> ok2 then Some (False, y3)
     else let (ok3, y4) = SetSignalExit 2 y3 in
     if \<not> ok3 then Some (False, y4)
     else Some (Listen env 4567 None y4)
   }"

definition tcp_main :: "'w tcp_env \<Rightarrow> u32 \<Rightarrow> addr \<Rightarrow> (u32 \<times> u32) option \<Rightarrow> 'w poll_round list \<Rightarrow> int \<Rightarrow> u32 \<Rightarrow> 'w tcp_sys \<Rightarrow>
    (int \<times> 'w tcp_sys) loop_state option" where
  "tcp_main env ev proc mark rs since idx y = do {
     (ok, y5) \<leftarrow> tcp_setup env ev proc y;
     if \<not> ok then Some (Ended (-1, y5))
     else do {
       let y6 = (case mark of None \<Rightarrow> y5 | Some (rm, wm) \<Rightarrow> SetWaterMark rm wm y5);
       m \<leftarrow> EventLoop env rs since idx y6;
       case m of Running (_, y7) \<Rightarrow> Some (Running (0, y7))
       | Ended (_, y7) \<Rightarrow> do { y8 \<leftarrow> tcp_Release y7; Some (Ended (0, y8)) }
     }
   }"

lemma test_cfg_ok: "ev = EPOLLIN \<or> ev = EPOLLOUT \<Longrightarrow> tcp_config_ok (test_cfg ev) \<and> tcp_config_typed (test_cfg ev)"
  by (auto simp: test_cfg_def tcp_config_ok_def tcp_config_typed_def is_int_def epoll_defs)

lemma Listen_frame:
  "Listen env port ip y = (ok, y') \<Longrightarrow> y_instance y' = y_instance y \<and> y_glob y' = y_glob y \<and>
    s_status (y_sock y') = (if ok then s_status (y_sock y) OR 1 else s_status (y_sock y))"
  by (auto simp: Listen_def on_kern_def status_add_def listen_failed_def Let_def
      split: prod.splits if_splits sum.splits option.splits)

text \<open>
  The start of the applications is all or nothing. Their configuration passes the assertions, and when the object
  can be allocated the calls before the event loop either all succeed, then a single new
  descriptor is open, it listens, and the status fulfils every guard of \<open>EventLoop\<close>; or one fails, then no descriptor is left
  open and \<open>main\<close> returns -1.
\<close>

theorem tcp_setup_all_or_nothing:
  assumes "\<not> y_instance y" "e_new env" "proc \<noteq> null" "ev = EPOLLIN \<or> ev = EPOLLOUT"
  shows "\<exists>ok y5. tcp_setup env ev proc y = Some (ok, y5) \<and> y_instance y5 \<and> y_cfg y5 = test_cfg ev \<and>
    (if ok then status_has 1 y5 \<and> status_has 2 y5 \<and> status_has 4 y5 \<and> \<not> status_has 8 y5 \<and>
       (\<exists>fd. fd \<notin> set (kn_fds (y_kern y)) \<and> kn_fds (y_kern y5) = fd # kn_fds (y_kern y) \<and> fd \<in> set (kn_listening (y_kern y5)))
     else kn_fds (y_kern y5) = kn_fds (y_kern y) \<and> tcp_main env ev proc mark rs since idx y = Some (Ended (-1, y5)))"
proof -
  define g where "g = (y_glob y)\<lparr>g_minLevel := LOG_LEVEL_INFO, g_markGlobal := \<lparr>readMark = 0, writeMark = 0\<rparr>,
    g_renableProc := Hook_REnableFunc, g_funcClose := Hook_ActiveClose (y_family y), g_funcEvent := Hook_EnableEvent (y_family y), g_tcpConfig := test_cfg ev\<rparr>"
  have cfg: "tcp_Config (y_family y) (test_cfg ev) (y_glob y) = Some g"
    using test_cfg_ok [OF assms(4)] by (simp add: tcp_Config_def g_def test_cfg_def)
  define y3 where "y3 = snd (SetCallback null null proc proc (snd (EnableKeepAlive True 120 2 10 (y\<lparr>y_glob := g, y_instance := True, y_sock := tcp_new\<rparr>))))"
  have s3: "y_instance y3" "y_cfg y3 = test_cfg ev" "s_status (y_sock y3) = 2" "y_kern y3 = y_kern y"
    using assms(3) by (simp_all add: y3_def SetCallback_def EnableKeepAlive_def status_add_def tcp_new_def g_def)
  obtain ok3 y4 where sig: "SetSignalExit 2 y3 = (ok3, y4)" by (metis surj_pair)
  have s4: "y_instance y4" "y_cfg y4 = test_cfg ev" "kn_fds (y_kern y4) = kn_fds (y_kern y)" "ok3 \<longrightarrow> s_status (y_sock y4) = 6"
    using sig s3 simple_calls_same(6) [of "y_kern y" 2]
    by (auto simp: SetSignalExit_def status_has_def status_add_def on_kern_def same_files_def split: prod.splits if_splits)
  obtain ok y5 where lis: "Listen env 4567 None y4 = (ok, y5)" by (metis surj_pair)
  note F = Listen_frame [OF lis] and L = Listen_cases [where env = env and port = 4567 and ip = None and y = y4, unfolded lis, simplified]
  have run: "tcp_setup env ev proc y = Some (if ok3 then (ok, y5) else (False, y4))"
    using assms(1-3) cfg sig lis by (simp add: tcp_setup_def GetInstance_def y3_def SetCallback_def EnableKeepAlive_def)
  show ?thesis
  proof (cases "ok3 \<and> ok")
    case True
    with F s4 have "s_status (y_sock y5) = 7" by simp
    with True run F L s4 show ?thesis by (auto simp: status_has_def)
  next
    case False
    then show ?thesis using run F L s4 by (auto simp: tcp_main_def)
  qed
qed

theorem tcp_setup_all_or_nothing_witness:
  "\<exists>ok y5. tcp_setup server_env EPOLLIN 100 (server0\<lparr>y_instance := False\<rparr>) = Some (ok, y5) \<and> y_instance y5 \<and> y_cfg y5 = test_cfg EPOLLIN"
proof -
  have "\<not> y_instance (server0\<lparr>y_instance := False\<rparr>)" "e_new server_env" "(100 :: addr) \<noteq> null" "EPOLLIN = EPOLLIN \<or> EPOLLIN = EPOLLOUT"
    by (simp_all add: server_env_def)
  from tcp_setup_all_or_nothing [OF this] show ?thesis by blast
qed

section \<open>The UDP echo server\<close>

text \<open>
  \<open>echo_rcp\<close> of \<open>example_udp.cpp\<close> and \<open>udp_test.cpp\<close>; the state of the application is the counter \<open>sum\<close>. The data
  and the address are never null.
\<close>

definition echo_rcp :: "addr \<Rightarrow> addr \<Rightarrow> int \<Rightarrow> byte list \<Rightarrow> string \<Rightarrow> u16 \<Rightarrow> u32 \<Rightarrow> u32 action" where
  "echo_rcp rcp ctx fd data ip port n = Call_SendTo fd (Some data) (Some ip) port (\<lambda>_. Return (n + 1))"

text \<open>The main function; \<open>rcp\<close> and \<open>ctx\<close> are the addresses of the callback and of the object.\<close>

definition udp_main :: "u32 udp_env \<Rightarrow> addr \<Rightarrow> addr \<Rightarrow> udp_event list \<Rightarrow> u32 udp_sys \<Rightarrow> (int \<times> u32 udp_sys) udp_result option" where
  "udp_main env rcp ctx es y = do {
     g \<leftarrow> udp_Config udp_config_default (v_glob y);
     let (got, y1) = udp_GetInstance (n_new env) (y\<lparr>v_glob := g\<rparr>);
     if \<not> got then None
     else let (ok1, y2) = udp_Bind env 4567 None y1 in
     if \<not> ok1 then Some (Returned (-1, y2))
     else let (ok2, y3) = udp_SetCallback rcp ctx y2 in
     if \<not> ok2 then Some (Returned (-1, y3))
     else let (ok3, y4) = udp_SetSignalExit 2 y3 in
     if \<not> ok3 then Some (Returned (-1, y4))
     else do {
       m \<leftarrow> udp_EventLoop env es y4;
       case m of Busy (_, y5) \<Rightarrow> Some (Busy (0, y5)) | Returned (_, y5) \<Rightarrow> Some (Returned (0, udp_Release y5))
     }
   }"

text \<open>
  C33. The UDP echo server answers a datagram with the same datagram, to the address it came from and
  through the socket that received it, when the socket is open, the call succeeds, and the datagram is not empty; otherwise
  it sends nothing. It counts every datagram. The two address conversions are assumed to be inverse to each other.
\<close>

theorem udp_echo_replies:
  assumes "n_rcp env = echo_rcp" "udp_has 1 y" "n_pton env (v_family y) (n_ntop env (v_family y) (sa_addr a)) = Some (sa_addr a)"
    "sa_family a = v_family y" "sa_port a \<noteq> 0" "length xs \<le> nat (MAX_PAYLOAD_SIZE (g_udpConfig (v_glob y)) + 48)"
  shows "v_app (callback env fd xs a y) = v_app y + 1 \<and>
    v_sent (callback env fd xs a y) =
      (if xs \<noteq> [] \<and> fd \<in> set (kn_fds (v_kern y)) \<and> fst (kcall (v_kern y)) = None then v_sent y @ [(fd, a, xs)] else v_sent y)"
proof -
  have p: "htons (sa_port a) \<noteq> 0"
  proof
    assume "htons (sa_port a) = 0"
    then have "sa_port a = htons 0" by (metis htons_involution)
    with assms(5) show False by (simp add: htons_def)
  qed
  have a: "\<lparr>sa_family = v_family y, sa_port = htons (htons (sa_port a)), sa_addr = sa_addr a\<rparr> = a"
    using assms(4) by (simp add: htons_involution)
  have c: "callback env fd xs a y = (case udp_SendTo env fd (Some xs) (Some (n_ntop env (v_family y) (sa_addr a))) (htons (sa_port a)) y of
      (_, y1) \<Rightarrow> y1\<lparr>v_app := v_app y + 1\<rparr>)"
    using assms(1,6) by (simp add: callback_def echo_rcp_def)
  show ?thesis
  proof (cases "xs = []")
    case True
    with assms(2) show ?thesis unfolding c by (simp add: udp_SendTo_def)
  next
    case False
    then have "udp_SendTo env fd (Some xs) (Some (n_ntop env (v_family y) (sa_addr a))) (htons (sa_port a)) y =
        (case sys_sendto fd a xs y of (ret, y1) \<Rightarrow> (ret = int (length xs), y1))"
      using assms(2,3) p a by (simp add: udp_SendTo_def split: prod.splits)
    with False sys_sendto_cases [of y fd a xs] show ?thesis unfolding c by auto
  qed
qed

definition echo_env :: "u32 udp_env" where
  "echo_env = \<lparr>n_rcp = echo_rcp, n_new = True, n_pton = (\<lambda>_ _. Some [127, 0, 0, 1]), n_ntop = (\<lambda>_ _. ''127.0.0.1''), n_cores = 2\<rparr>"

definition echo_sys :: "u32 udp_sys" where
  "echo_sys = \<lparr>v_family = ADDRESS_FAMILY_INET, v_instance = True, v_sock = v_sock udp1, v_exitFlag = True,
     v_glob = v_glob udp1, v_kern = v_kern udp1, v_sent = [], v_app = 0\<rparr>"

theorem udp_echo_replies_witness:
  "v_app (callback echo_env 3 [1, 2] \<lparr>sa_family = ADDRESS_FAMILY_INET, sa_port = 80, sa_addr = [127, 0, 0, 1]\<rparr> echo_sys) = v_app echo_sys + 1 \<and>
   v_sent (callback echo_env 3 [1, 2] \<lparr>sa_family = ADDRESS_FAMILY_INET, sa_port = 80, sa_addr = [127, 0, 0, 1]\<rparr> echo_sys) =
     [(3, \<lparr>sa_family = ADDRESS_FAMILY_INET, sa_port = 80, sa_addr = [127, 0, 0, 1]\<rparr>, [1, 2])]"
  using udp_echo_replies [of echo_env echo_sys "\<lparr>sa_family = ADDRESS_FAMILY_INET, sa_port = 80, sa_addr = [127, 0, 0, 1]\<rparr>" "[1, 2]" 3]
  by (simp add: echo_env_def echo_sys_def udp1_def udp0_def udp_kern0_def udp_has_def udp_config_default_def kcall_def)

end
