(* ===== verification/SP_Stream.thy ===== *)
theory SP_Stream
  imports SP_Batch SP_Examples "HOL-Library.Sublist"
begin

text \<open>
  The byte streams of the connections, end to end. The steps of the server are those of \<open>SP_Protocol\<close> and \<open>SP_Batch\<close>; a callback
  calls the methods of the controller on a connection that its task owns, and the network delivers bytes at any
  time. Each connection has a channel, the specification of what a byte stream promises: the bytes that have arrived, those that the
  application took, and those that it gave away to be sent.

  Locale \<open>transfer\<close> states what a method of the controller does to the stream; it is interpreted on each of them.
\<close>

section \<open>Calls of the application\<close>

text \<open>
  A call with its arguments. The result is what the application took from the stream and what it handed over for sending;
  \<open>writeBack\<close> and \<open>moveToWriteBuffer\<close> do both with the same bytes.
\<close>

datatype stream_call = Read "byte list" u64 | Peek "byte list" u64 | WriteTemp "byte list" u64 | Write "byte list"
  | CommitWrite | WriteBack | MoveToWriteBuffer

text \<open>The bytes at the start of the read buffer that are gone afterwards.\<close>

definition taken_from :: "SOCKController \<Rightarrow> SOCKController \<Rightarrow> byte list" where
  "taken_from c c' = take (length (contents (c_readBuf c)) - length (contents (c_readBuf c'))) (contents (c_readBuf c))"

fun run_call :: "stream_call \<Rightarrow> SOCKController \<Rightarrow> ksock \<Rightarrow> ((byte list \<times> byte list) \<times> SOCKController \<times> ksock) option" where
  "run_call (Read dst len) c k = map_option (\<lambda>(n, dst', c'). ((take (unat n) dst', []), c', k)) (ctrl_read dst len c)"
| "run_call (Peek dst len) c k = map_option (\<lambda>(n, dst'). (([], []), c, k)) (ctrl_peek dst len c)"
| "run_call (WriteTemp src len) c k = map_option (\<lambda>(n, c'). (([], take (unat n) src), c', k)) (ctrl_writeTemp src len c)"
| "run_call (Write data) c k = (case ctrl_write data c k of (r, c', k') \<Rightarrow> Some (([], take (nat r) data), c', k'))"
| "run_call CommitWrite c k = map_option (\<lambda>(r, c', k'). (([], []), c', k')) (ctrl_commitWrite c k)"
| "run_call WriteBack c k = map_option (\<lambda>(r, c', k'). ((taken_from c c', taken_from c c'), c', k')) (writeBack c k)"
| "run_call MoveToWriteBuffer c k = map_option (\<lambda>(n, c'). ((taken_from c c', taken_from c c'), c', k)) (moveToWriteBuffer c)"

text \<open>
  The duty of the caller: its array has the length that it states, and \<open>write\<close>, which bypasses the write buffer, is only used when
  nothing waits there.
\<close>

fun call_ok :: "stream_call \<Rightarrow> SOCKController \<Rightarrow> bool" where
  "call_ok (Read dst len) c \<longleftrightarrow> unat (ucast len :: u32) \<le> length dst"
| "call_ok (Peek dst len) c \<longleftrightarrow> unat (ucast len :: u32) \<le> length dst"
| "call_ok (WriteTemp src len) c \<longleftrightarrow> unat (ucast len :: u32) \<le> length src"
| "call_ok (Write data) c \<longleftrightarrow> contents (c_writeBuf c) = []"
| "call_ok _ c \<longleftrightarrow> True"

text \<open>The call was defined, took \<open>t\<close> from the front of the input and added \<open>g\<close> at the end of the output.\<close>

definition passes :: "SOCKController \<Rightarrow> ksock \<Rightarrow> ((byte list \<times> byte list) \<times> SOCKController \<times> ksock) option \<Rightarrow> bool" where
  "passes c k r \<longleftrightarrow> (\<exists>t g c' k'. r = Some ((t, g), c', k') \<and> ctrl_inv c' \<and> conn_shape c' = conn_shape c \<and>
     fst (flow c k) = t @ fst (flow c' k') \<and> snd (flow c' k') = snd (flow c k) @ g)"

lemma passesI:
  "r = Some ((t, g), c', k') \<Longrightarrow> ctrl_inv c' \<Longrightarrow> conn_shape c' = conn_shape c \<Longrightarrow>
    contents (c_readBuf c) @ k_in k = t @ contents (c_readBuf c') @ k_in k' \<Longrightarrow>
    k_out k' @ contents (c_writeBuf c') = k_out k @ contents (c_writeBuf c) @ g \<Longrightarrow> passes c k r"
  by (simp add: passes_def flow_def)

locale transfer =
  fixes ok :: "SOCKController \<Rightarrow> bool"
    and f :: "SOCKController \<Rightarrow> ksock \<Rightarrow> ((byte list \<times> byte list) \<times> SOCKController \<times> ksock) option"
  assumes law: "ctrl_inv c \<Longrightarrow> ok c \<Longrightarrow> passes c k (f c k)"
begin

text \<open>On a connection of a consistent server the call is defined, and only this stream changes.\<close>

lemma on_conn:
  assumes inv: "core_inv env R y" and c: "conn_at x y = Some c" and o: "ok c"
  shows "\<exists>t g c' y' i s. on_stream x f y = Some ((t, g), c', y') \<and> flow_at x y = Some (t @ i, s) \<and> flow_at x y' = Some (i, s @ g) \<and>
    (\<forall>z. z \<noteq> x \<longrightarrow> flow_at z y' = flow_at z y) \<and> conn_shape c' = conn_shape c \<and> ctrl_inv c' \<and>
    (\<exists>h. y' = set_conn x c' (y\<lparr>y_kern := (y_kern y)\<lparr>kn_sock := h\<rparr>\<rparr>))"
proof -
  let ?s = "kn_sock (y_kern y)"
  note F = conn_facts [OF inv c]
  from law [OF F(2) o, of "?s (int x)"] obtain t g c' k' where
    f: "f c (?s (int x)) = Some ((t, g), c', k')" "ctrl_inv c'" "conn_shape c' = conn_shape c"
      "fst (flow c (?s (int x))) = t @ fst (flow c' k')" "snd (flow c' k') = snd (flow c (?s (int x))) @ g" unfolding passes_def by blast
  let ?y = "set_conn x c' (y\<lparr>y_kern := (y_kern y)\<lparr>kn_sock := ?s(int x := k')\<rparr>\<rparr>)"
  have "on_stream x f y = Some ((t, g), c', ?y)" using c f(1) F(1) by (simp add: on_stream_def)
  moreover have "flow_at x y = Some (t @ fst (flow c' k'), snd (flow c (?s (int x))))"
    using c f(4) by (simp add: flow_at_def prod_eq_iff)
  moreover have "flow_at x ?y = Some (fst (flow c' k'), snd (flow c (?s (int x))) @ g)"
    using f(5) by (simp add: flow_at_def prod_eq_iff)
  moreover have "flow_at z ?y = flow_at z y" if "z \<noteq> x" for z using that by (simp add: flow_at_def)
  ultimately show ?thesis using f(2,3) by blast
qed

end

section \<open>The methods of the controller\<close>

lemma unat_small_u32: "n \<le> unat (m :: u32) \<Longrightarrow> unat (ucast (of_nat n :: u32) :: u64) = n"
  by (drule le_unat_u32) (simp add: unsigned_ucast_eq take_bit_nat_eq_self unat_of_nat_u32)

lemma writeBack_store: "writeBack_loop res b k = Some (r, b', k') \<Longrightarrow> same_store b b'"
proof (induction res b k arbitrary: r b' k' rule: writeBack_loop.induct)
  case (1 res b k)
  let ?chunk = "SPBuffer_distanceRead b"
  have self: "same_store b b" by (simp add: same_store_def)
  show ?case
  proof (cases "?chunk = 0")
    case True
    with 1(2) self show ?thesis by (auto simp: writeBack_loop.simps [of res b k])
  next
    case False
    with 1(2) obtain data where d: "buf_peek_lin (unat ?chunk) b = Some data"
      by (auto simp: writeBack_loop.simps [of res b k] Let_def split: option.splits)
    obtain sent k1 where w: "writeInner data k = (sent, k1)" by (cases "writeInner data k")
    show ?thesis
    proof (cases "sent > 0")
      case True
      with 1(2) False d w obtain b1 where b1: "SPBuffer_commitRead (word_of_int sent) b = Some b1" "writeBack_loop (res + sent) b1 k1 = Some (r, b', k')"
        by (auto simp: writeBack_loop.simps [of res b k] Let_def split: option.splits)
      from 1(1) [OF refl False d w [symmetric] True b1] commitRead_store [OF b1(1)] show ?thesis by (simp add: same_store_def)
    qed (use 1(2) False d w self in \<open>auto simp: writeBack_loop.simps [of res b k] Let_def split: if_splits\<close>)
  qed
qed

lemma SPBuffer_read_store: "SPBuffer_read dst len b = Some (n, dst', b') \<Longrightarrow> same_store b b'"
  by (auto simp: SPBuffer_read_def same_store_def Let_def split: if_splits Option.bind_splits)

lemma SPBuffer_write_store: "SPBuffer_write src len b = Some (n, b') \<Longrightarrow> same_store b b'"
  by (auto simp: SPBuffer_write_def same_store_def Let_def split: if_splits Option.bind_splits)

interpretation rd: transfer "call_ok (Read dst len)" "run_call (Read dst len)" for dst len
proof
  fix c k assume c: "ctrl_inv c" and o: "call_ok (Read dst len) c"
  let ?b = "c_readBuf c" and ?l = "ucast len :: u32"
  define n where "n = min (unat ?l) (length (contents ?b))"
  have d: "n \<le> length dst" using o by (simp add: n_def)
  have u: "unat (ucast (of_nat n :: u32) :: u64) = n" by (rule unat_small_u32 [of _ ?l]) (simp add: n_def)
  from read_ok [OF _ n_def d] c obtain b' where
    r: "SPBuffer_read dst ?l ?b = Some (of_nat n, blit 0 (take n (contents ?b)) dst, b')" "buf_inv b'" "contents b' = drop n (contents ?b)"
    by (auto simp: ctrl_inv_def)
  have t: "take n (blit 0 (take n (contents ?b)) dst) = take n (contents ?b)" using d by (simp add: blit_def n_def)
  show "passes c k (run_call (Read dst len) c k)"
    by (rule passesI [of _ "take n (contents ?b)" "[]" "c\<lparr>c_readBuf := b'\<rparr>" k])
      (use r u t c conn_shape_read [OF SPBuffer_read_store [OF r(1)]] in \<open>simp_all add: ctrl_read_def ctrl_inv_def\<close>)
qed

interpretation pk: transfer "call_ok (Peek dst len)" "run_call (Peek dst len)" for dst len
proof
  fix c k assume c: "ctrl_inv c" and o: "call_ok (Peek dst len) c"
  have "min (unat (ucast len :: u32)) (length (contents (c_readBuf c))) \<le> length dst" using o by simp
  from peek_ok [OF _ refl this] c show "passes c k (run_call (Peek dst len) c k)"
    by (intro passesI [of _ "[]" "[]" c k]) (simp_all add: ctrl_peek_def ctrl_inv_def)
qed

interpretation wt: transfer "call_ok (WriteTemp src len)" "run_call (WriteTemp src len)" for src len
proof
  fix c k assume c: "ctrl_inv c" and o: "call_ok (WriteTemp src len) c"
  let ?b = "c_writeBuf c" and ?l = "ucast len :: u32"
  define n where "n = min (unat ?l) (capacity ?b - length (contents ?b))"
  have d: "n \<le> length src" using o by (simp add: n_def)
  have u: "unat (ucast (of_nat n :: u32) :: u64) = n" by (rule unat_small_u32 [of _ ?l]) (simp add: n_def)
  from write_ok [OF _ n_def d] c obtain b' where
    w: "SPBuffer_write src ?l ?b = Some (of_nat n, b')" "buf_inv b'" "contents b' = contents ?b @ take n src" by (auto simp: ctrl_inv_def)
  show "passes c k (run_call (WriteTemp src len) c k)"
    by (rule passesI [of _ "[]" "take n src" "c\<lparr>c_writeBuf := b'\<rparr>" k])
      (use w u c conn_shape_write [OF SPBuffer_write_store [OF w(1)]] in \<open>simp_all add: ctrl_writeTemp_def ctrl_inv_def\<close>)
qed

text \<open>\<open>write\<close> retries after interruptions; what it reports is what the kernel has accepted.\<close>

lemma ctrl_write_sends:
  "ctrl_write data c k = (r, c', k') \<Longrightarrow> k_out k' = k_out k @ take (nat r) data \<and> k_in k' = k_in k \<and>
    (c' = c \<or> c' = c\<lparr>c_peerClosed := True\<rparr>)"
proof (induction data c k arbitrary: r c' k' rule: ctrl_write.induct)
  case (1 data c k)
  obtain o' k1 where o: "next_outcome k = (o', k1)" by (cases "next_outcome k")
  note N = next_outcome_script [OF o]
  show ?case
  proof (cases o')
    case (Transfer n)
    with o N 1(2) show ?thesis by (auto simp: ctrl_write.simps [of data c k] sys_send_def min_def)
  next
    case (Fails e)
    with o have s: "sys_send data k = (Inl e, k1)" by (simp add: sys_send_def)
    show ?thesis
    proof (cases "e = EINTR")
      case True
      then have "ctrl_write data c k1 = (r, c', k')" using 1(2) s by (simp add: ctrl_write.simps [of data c k])
      from 1(1) [OF s [symmetric] refl True this] N show ?thesis by simp
    next
      case False
      with 1(2) s N show ?thesis by (auto simp: ctrl_write.simps [of data c k] split: if_splits)
    qed
  qed
qed

interpretation wr: transfer "call_ok (Write data)" "run_call (Write data)" for data
proof
  fix c k assume c: "ctrl_inv c" and o: "call_ok (Write data) c"
  obtain r c' k' where w: "ctrl_write data c k = (r, c', k')" by (metis surj_pair)
  note W = ctrl_write_sends [OF w]
  have "c_readBuf c' = c_readBuf c" "c_writeBuf c' = c_writeBuf c" "ctrl_inv c'" "conn_shape c' = conn_shape c" using W c by auto
  with w W o show "passes c k (run_call (Write data) c k)" by (intro passesI [of _ "[]" "take (nat r) data" c' k']) simp_all
qed

interpretation cm: transfer "call_ok CommitWrite" "run_call CommitWrite"
proof
  fix c k assume c: "ctrl_inv c"
  from commitWrite_shape [OF c, of k] obtain r c' k' where
    w: "ctrl_commitWrite c k = Some (r, c', k')" "conn_shape c' = conn_shape c" "ctrl_inv c'" "flow c' k' = flow c k" by blast
  then show "passes c k (run_call CommitWrite c k)" by (simp add: passes_def)
qed

text \<open>What \<open>writeBack\<close> takes from the read buffer goes behind what was waiting to be sent.\<close>

lemma writeBack_takes:
  assumes c: "ctrl_inv c" and w: "writeBack c k = Some (r, c', k')"
  shows "contents (c_readBuf c) = taken_from c c' @ contents (c_readBuf c') \<and> k_in k' = k_in k \<and>
    k_out k' @ contents (c_writeBuf c') = k_out k @ contents (c_writeBuf c) @ taken_from c c'"
proof -
  obtain r1 c1 k1 where w1: "ctrl_commitWrite c k = Some (r1, c1, k1)" using w by (auto simp: writeBack_def split: Option.bind_splits)
  from w1 c commitWrite_loop_ok [of "c_writeBuf c" k] have C: "k_in k1 = k_in k" "c_readBuf c1 = c_readBuf c"
    "k_out k1 @ contents (c_writeBuf c1) = k_out k @ contents (c_writeBuf c)" "r1 = 0 \<Longrightarrow> contents (c_writeBuf c1) = []"
    by (auto simp: ctrl_commitWrite_def ctrl_inv_def)
  show ?thesis
  proof (cases "r1 = 0")
    case False
    with w w1 have "c' = c1" "k' = k1" by (auto simp: writeBack_def)
    with C show ?thesis by (simp add: taken_from_def)
  next
    case True
    with w w1 obtain rb where b: "writeBack_loop 0 (c_readBuf c1) k1 = Some (r, rb, k')" "c' = c1\<lparr>c_readBuf := rb\<rparr>"
      by (auto simp: writeBack_def split: Option.bind_splits)
    with writeBack_loop_ok [of "c_readBuf c1" 0 k1] c C(2) have
      L: "k_out k' @ contents rb = k_out k1 @ contents (c_readBuf c)" "k_in k' = k_in k1" "length (contents rb) \<le> length (contents (c_readBuf c))"
      by (auto simp: ctrl_inv_def)
    then obtain us where us: "contents (c_readBuf c) = us @ contents rb" "k_out k' = k_out k1 @ us" by (fastforce simp: append_eq_append_conv2)
    then have "taken_from c c' = us" using b(2) by (simp add: taken_from_def)
    with us b(2) L(2) C True show ?thesis by simp
  qed
qed

lemma writeBack_shape:
  assumes c: "ctrl_inv c"
  shows "\<exists>r c' k'. writeBack c k = Some (r, c', k') \<and> ctrl_inv c' \<and> conn_shape c' = conn_shape c"
proof -
  from commitWrite_shape [OF c, of k] obtain r c1 k1 where
    w: "ctrl_commitWrite c k = Some (r, c1, k1)" "conn_shape c1 = conn_shape c" "ctrl_inv c1" by blast
  obtain r2 rb k2 where b: "writeBack_loop r (c_readBuf c1) k1 = Some (r2, rb, k2)" "buf_inv rb"
    using writeBack_loop_ok [of "c_readBuf c1" r k1] w(3) by (auto simp: ctrl_inv_def)
  have "conn_shape (c1\<lparr>c_readBuf := rb\<rparr>) = conn_shape c" using conn_shape_read [OF writeBack_store [OF b(1)]] w(2) by simp
  with w b show ?thesis by (cases "r = 0") (auto simp: writeBack_def ctrl_inv_def)
qed

interpretation wb: transfer "call_ok WriteBack" "run_call WriteBack"
proof
  fix c k assume c: "ctrl_inv c"
  from writeBack_shape [OF c, of k] obtain r c' k' where w: "writeBack c k = Some (r, c', k')" "ctrl_inv c'" "conn_shape c' = conn_shape c" by blast
  with writeBack_takes [OF c w(1)] show "passes c k (run_call WriteBack c k)"
    by (intro passesI [of _ "taken_from c c'" "taken_from c c'" c' k']) simp_all
qed

lemma move_loop_store:
  assumes "move_loop n m rb wb = Some r"
  shows "same_store rb (fst (snd r)) \<and> same_store wb (snd (snd r))"
proof (rule move_loop.raw_induct [where P = "\<lambda>_ _ rb wb r. same_store rb (fst (snd r)) \<and> same_store wb (snd (snd r))", OF _ assms])
  fix self :: "u32 \<Rightarrow> u32 \<Rightarrow> SPBuffer \<Rightarrow> SPBuffer \<Rightarrow> (u32 \<times> SPBuffer \<times> SPBuffer) option" and n m rb wb r
  assume ih: "\<And>n m rb wb r. self n m rb wb = Some r \<Longrightarrow> same_store rb (fst (snd r)) \<and> same_store wb (snd (snd r))"
  let ?chunk = "min (SPBuffer_distanceRead rb) (SPBuffer_distanceWrite wb)"
  assume run: "(if n < m then let chunk = ?chunk in if chunk = 0 then Some (n, rb, wb)
      else Option.bind (buf_peek_lin (unat chunk) rb) (\<lambda>data. Option.bind (fill data wb) (\<lambda>wb1. Option.bind (SPBuffer_commitRead chunk rb)
        (\<lambda>rb1. Option.bind (SPBuffer_commitWrite chunk wb1) (self (n + chunk) m rb1)))) else Some (n, rb, wb)) = Some r"
  show "same_store rb (fst (snd r)) \<and> same_store wb (snd (snd r))"
  proof (cases "n < m \<and> ?chunk \<noteq> 0")
    case True
    with run obtain d wb1 rb1 wb2 where s: "fill d wb = Some wb1" "SPBuffer_commitRead ?chunk rb = Some rb1"
      "SPBuffer_commitWrite ?chunk wb1 = Some wb2" "self (n + ?chunk) m rb1 wb2 = Some r"
      by (auto simp: Let_def split: Option.bind_splits)
    have "same_store wb wb2" by (rule receive_store [of d wb ?chunk]) (simp add: s)
    with commitRead_store [OF s(2)] ih [OF s(4)] show ?thesis by (simp add: same_store_def)
  next
    case False
    with run show ?thesis by (auto simp: same_store_def Let_def split: if_splits)
  qed
qed

interpretation mv: transfer "call_ok MoveToWriteBuffer" "run_call MoveToWriteBuffer"
proof
  fix c k assume c: "ctrl_inv c"
  define n where "n = min (length (contents (c_readBuf c))) (capacity (c_writeBuf c) - length (contents (c_writeBuf c)))"
  from moveToWriteBuffer_ok [OF c n_def] obtain c' where
    m: "moveToWriteBuffer c = Some (of_nat n, c')" "ctrl_inv c'" "contents (c_writeBuf c') = contents (c_writeBuf c) @ take n (contents (c_readBuf c))"
      "contents (c_readBuf c') = drop n (contents (c_readBuf c))" by blast
  then have t: "taken_from c c' = take n (contents (c_readBuf c))" by (simp add: taken_from_def n_def)
  from m(1) obtain v r rb wb where l: "move_loop 0 v (c_readBuf c) (c_writeBuf c) = Some (r, rb, wb)" "c' = c\<lparr>c_readBuf := rb, c_writeBuf := wb\<rparr>"
    by (auto simp: moveToWriteBuffer_def Let_def split: Option.bind_splits)
  have "conn_shape c' = conn_shape c" using move_loop_store [OF l(1)] l(2) by (simp add: conn_shape_def same_store_def ctrl_holds_def)
  with m t show "passes c k (run_call MoveToWriteBuffer c k)"
    by (intro passesI [of _ "taken_from c c'" "taken_from c c'" c' k]) simp_all
qed

interpretation call: transfer "call_ok a" "run_call a" for a
  by (cases a) (simp_all only: rd.transfer_axioms pk.transfer_axioms wt.transfer_axioms wr.transfer_axioms cm.transfer_axioms
      wb.transfer_axioms mv.transfer_axioms)

section \<open>Channels\<close>

record channel =
  ch_arrived :: "byte list"
  ch_taken :: "byte list"
  ch_given :: "byte list"

text \<open>
  The channel describes the connection: what arrived was taken by the application or is still there, and what the application gave away
  was accepted by the kernel or is waiting; both in their order.
\<close>

definition describes :: "channel \<Rightarrow> addr \<Rightarrow> 'w tcp_sys \<Rightarrow> bool" where
  "describes h x y \<longleftrightarrow> (\<forall>i s. flow_at x y = Some (i, s) \<longrightarrow> ch_arrived h = ch_taken h @ i \<and> ch_given h = s)"

lemma describes_same: "flow_at x y' = flow_at x y \<or> flow_at x y' = None \<Longrightarrow> describes h x y \<Longrightarrow> describes h x y'"
  by (auto simp: describes_def)

lemma describes_conn:
  "describes h x y \<Longrightarrow> conn_at x y = Some c \<Longrightarrow> ch_arrived h = ch_taken h @ contents (c_readBuf c) @ k_in (kn_sock (y_kern y) (int x)) \<and>
    ch_given h = k_out (kn_sock (y_kern y) (int x)) @ contents (c_writeBuf c)"
  by (simp add: describes_def flow_at_def flow_def)

section \<open>The steps\<close>

text \<open>
  A state has the server, the connections that tasks own, the buffers of the I/O threads and the channels. \<open>A\<close> are the calls that the
  application makes. An accepted client may have sent before, and nothing has been sent to it. The network appends to the input of a socket, and
  the kernel decides anew about its next answers.
\<close>

type_synonym 'w stream_state = "'w tcp_sys \<times> addr list \<times> UtilTaskTcp list \<times> (addr \<Rightarrow> channel)"

definition on_socket :: "addr \<Rightarrow> (ksock \<Rightarrow> ksock) \<Rightarrow> 'w tcp_sys \<Rightarrow> 'w tcp_sys" where
  "on_socket x f y = y\<lparr>y_kern := (y_kern y)\<lparr>kn_sock := (kn_sock (y_kern y))(int x := f (kn_sock (y_kern y) (int x)))\<rparr>\<rparr>"

inductive stream_step :: "'w tcp_env \<Rightarrow> int set \<Rightarrow> nat \<Rightarrow> u32 \<Rightarrow> u32 \<Rightarrow> u32 \<Rightarrow> stream_call set \<Rightarrow> 'w stream_state \<Rightarrow> 'w stream_state \<Rightarrow> bool"
  for env R n b len B A where
  S_Accept: "sys_accept (y_kern y) = (Inr (fd, ip, port), k) \<Longrightarrow> pool_can_serve env y \<Longrightarrow> HandleConnect env idlefd y = Some (ok, y') \<Longrightarrow>
    k_out (kn_sock k fd) = [] \<Longrightarrow> stream_step env R n b len B A (y, own, us, h)
      (y', own, us, h(nat fd := \<lparr>ch_arrived = k_in (kn_sock k fd), ch_taken = [], ch_given = []\<rparr>))"
| S_CloseList: "HandleCloseList env y = Some y' \<Longrightarrow> stream_step env R n b len B A (y, own, us, h) (y', own, us, h)"
| S_Single: "single_mode u y \<Longrightarrow> kn_interest (y_kern y) (ep, fd) = Some w \<Longrightarrow> w \<noteq> 0 \<Longrightarrow> fd \<notin> R \<Longrightarrow> fd \<noteq> exitfd \<Longrightarrow> has_handler ev y \<Longrightarrow>
    us = [] \<Longrightarrow> io_event env exitfd (fd, ev) u (deliver ep exitfd [(fd, ev)] y) = Some (False, u', y') \<Longrightarrow>
    stream_step env R n b len B A (y, own, us, h) (y', own @ newly_taken y y', us, h)"
| S_Batch: "batch_mode B len y \<Longrightarrow> i < length us \<Longrightarrow> tm_flag (ut_tm (us ! i)) \<Longrightarrow> kn_interest (y_kern y) (ep, fd) = Some w \<Longrightarrow> w \<noteq> 0 \<Longrightarrow>
    fd \<notin> R \<Longrightarrow> fd \<noteq> exitfd \<Longrightarrow> has_handler ev y \<Longrightarrow>
    io_event env exitfd (fd, ev) (us ! i) (deliver ep exitfd [(fd, ev)] y) = Some (False, u', y') \<Longrightarrow>
    stream_step env R n b len B A (y, own, us, h) (y', own @ newly_taken y y', us[i := u'], h)"
| S_Round: "batch_mode B len y \<Longrightarrow> i < length us \<Longrightarrow> task_reset env (us ! i) y = Some (u', y') \<Longrightarrow>
    stream_step env R n b len B A (y, own, us, h) (y', own @ newly_taken y y', us[i := u'], h)"
| S_Pool: "sink_ok n b len s \<Longrightarrow> stream_step env R n b len B A (y, own, us, h) (y\<lparr>y_sink := s\<rparr>, own, us, h)"
| S_Enable: "x \<in> set own \<Longrightarrow> on_events x (enableEvents run_event rd wr) y = Some (r, y') \<Longrightarrow>
    stream_step env R n b len B A (y, own, us, h) (y', if r then remove1 x own else own, us, h)"
| S_Close: "x \<in> set own \<Longrightarrow> conn_at x y = Some c \<Longrightarrow> ctrl_close (run_close new_ok) c y = Some y' \<Longrightarrow>
    stream_step env R n b len B A (y, own, us, h) (y', remove1 x own, us, h)"
| S_Call: "x \<in> set own \<Longrightarrow> conn_at x y = Some c \<Longrightarrow> a \<in> A \<Longrightarrow> call_ok a c \<Longrightarrow> on_stream x (run_call a) y = Some ((t, g), c', y') \<Longrightarrow>
    stream_step env R n b len B A (y, own, us, h) (y', own, us, h(x := (h x)\<lparr>ch_taken := ch_taken (h x) @ t, ch_given := ch_given (h x) @ g\<rparr>))"
| S_Network: "conn_at x y \<noteq> None \<Longrightarrow> stream_step env R n b len B A (y, own, us, h)
    (on_socket x (\<lambda>k. k\<lparr>k_in := k_in k @ bs\<rparr>) y, own, us, h(x := (h x)\<lparr>ch_arrived := ch_arrived (h x) @ bs\<rparr>))"
| S_Kernel: "stream_step env R n b len B A (y, own, us, h) (on_socket x (\<lambda>k. k\<lparr>k_script := os\<rparr>) y, own, us, h)"

definition stream_inv :: "'w tcp_env \<Rightarrow> int set \<Rightarrow> nat \<Rightarrow> u32 \<Rightarrow> u32 \<Rightarrow> u32 \<Rightarrow> 'w stream_state \<Rightarrow> bool" where
  "stream_inv env R n b len B s = (case s of (y, own, us, h) \<Rightarrow> batch_inv env R n b len B (y, own, us) \<and> (\<forall>x. describes (h x) x y))"

section \<open>A new connection\<close>

definition blank :: "SOCKController \<Rightarrow> bool" where
  "blank c \<longleftrightarrow> b_size (c_readBuf c) = 0 \<and> b_size (c_writeBuf c) = 0"

lemma blank_new: "blank (ctrl_new ip port)"
  by (simp add: blank_def ctrl_new_def SPBuffer_new_def)

lemma blank_flow: "blank c \<Longrightarrow> flow c k = (k_in k, k_out k)"
  by (simp add: blank_def flow_def contents_def)

lemma ctrl_init_blank: "ctrl_init mal cfg fd ctx info c p = Some (ok, c', p') \<Longrightarrow> blank c \<Longrightarrow> blank c'"
  by (auto simp: ctrl_init_def SPBuffer_Init_def Let_def blank_def split: Option.bind_splits if_splits)

lemma CloseConnection_conn: "CloseConnection env x y = Some y' \<Longrightarrow> conn_at z y' = Some c \<Longrightarrow> conn_at z y = Some c"
  by (auto simp: CloseConnection_def erase_conn_def k_close_def conn_at_def on_sock_def delete_conv Let_def
      split: Option.bind_splits option.splits if_splits)

lemma add_count_conns: "add_count d p y = Some y' \<Longrightarrow> y_conns y' = y_conns y"
  by (auto simp: add_count_def on_sock_def)

lemma setup_connection_blank:
  assumes "setup_connection env fd c0 y = Some y'" "blank c0" "conn_at (nat fd) y' = Some c"
  shows "blank c"
proof -
  obtain ctx w where cw: "(if cnp (s_proc (y_sock y)) \<noteq> null then e_cnp env (cnp (s_proc (y_sock y))) (c_ip c0) (c_port c0) (y_app y)
      else (null, y_app y)) = (ctx, w)" by (metis surj_pair)
  note S = assms(1)[unfolded setup_connection_def Let_def cw prod.case]
  from S obtain i0 rest ok c1 b where
    i: "y_info y = i0 # rest"
      "ctrl_init (e_malloc env) (y_cfg y) fd ctx (least_loaded 1 (io_count i0) 2 rest) c0 (y_bufs y) = Some (ok, c1, b)"
    by (cases "y_info y") (auto split: Option.bind_splits)
  let ?y2 = "set_conn (nat fd) c1 (y\<lparr>y_app := w, y_bufs := b\<rparr>)"
  obtain y3 where y3: "y_conns y3 = y_conns ?y2" "CloseConnection env (nat fd) y3 = Some y' \<or> y_conns y' = y_conns y3"
  proof (cases ok)
    case False
    with S i that [of ?y2] show ?thesis by simp
  next
    case True
    let ?p = "least_loaded 1 (io_count i0) 2 rest"
    obtain inf where f: "info_at ?p ?y2 = Some inf" using S i True by (cases "info_at ?p ?y2") simp_all
    obtain added k where e: "epoll_add (io_epollfd inf) fd
        (EPOLLERR OR EPOLLHUP OR EPOLLRDHUP OR EPOLLONESHOT OR EPOLL_DEFAULT_EVENT (y_cfg ?y2)) (y_kern ?y2) = (added, k)" by (metis surj_pair)
    then have "(if \<not> added then CloseConnection env (nat fd) (?y2\<lparr>y_kern := k\<rparr>) else add_count 1 ?p (?y2\<lparr>y_kern := k\<rparr>)) = Some y'"
      using S i True f by (simp add: on_kern_def split del: if_split)
    then show ?thesis using that [of "?y2\<lparr>y_kern := k\<rparr>"] add_count_conns [of 1 ?p "?y2\<lparr>y_kern := k\<rparr>" y'] by (auto split: if_splits)
  qed
  then have "conn_at (nat fd) y3 = Some c" using assms(3) CloseConnection_conn by (metis conn_at_def)
  then have "c = c1" using y3(1) by (simp add: conn_at_def update_conv')
  with ctrl_init_blank [OF i(2) assms(2)] show ?thesis by simp
qed

lemma accept_sock: "sys_accept k = (Inr (fd, ip, port), k') \<Longrightarrow> kn_sock k' = (kn_sock k)(fd := kn_sock k' fd)"
  using kcall_files(3) [of k] by (cases "kcall k") (auto simp: sys_accept_def Let_def split: option.splits list.splits)

lemma HandleConnect_flow:
  assumes I: "proto_inv env R n b len (y, own)" and acc: "sys_accept (y_kern y) = (Inr (fd, ip, port), k)"
    and can: "pool_can_serve env y" and h: "HandleConnect env idlefd y = Some (ok, y')"
  shows "int z \<noteq> fd \<Longrightarrow> flow_at z y' = flow_at z y" "flow_at (nat fd) y' \<in> {None, Some (k_in (kn_sock k fd), k_out (kn_sock k fd))}" "0 \<le> fd"
proof -
  note D = proto_invD [OF I] and G = HandleConnect_regs [OF acc h D(5)]
  have fd: "fd \<notin> set (kn_fds (y_kern y))" "0 \<le> fd" using accept_cases [of "y_kern y"] acc by auto
  then show "0 \<le> fd" by simp
  have new: "map_of (y_conns y) fd = None" using fd core_invD(6) [OF D(2)] by (auto simp: fds_ok_def map_of_eq_None_iff)
  from HandleConnect_server_inv [OF D(1,4) can acc, of idlefd] h have
    y': "y_conns y' = y_conns y \<or> (\<exists>c. y_conns y' = y_conns y @ [(fd, c)])" by auto
  have s: "kn_sock (y_kern y') = (kn_sock (y_kern y))(fd := kn_sock k fd)" using G(3) accept_sock [OF acc] by (simp add: same_side_def)
  show "flow_at z y' = flow_at z y" if "int z \<noteq> fd"
  proof -
    have "conn_at z y' = conn_at z y" using y' that by (auto simp: conn_at_def map_add_def split: option.splits)
    with s that show ?thesis by (simp add: flow_at_def)
  qed
  show "flow_at (nat fd) y' \<in> {None, Some (k_in (kn_sock k fd), k_out (kn_sock k fd))}"
  proof (cases "conn_at (nat fd) y'")
    case None
    then show ?thesis by (simp add: flow_at_def)
  next
    case (Some c)
    obtain ready y2 where p: "prepare_socket fd (y\<lparr>y_kern := k\<rparr>) = (ready, y2)" by (cases "prepare_socket fd (y\<lparr>y_kern := k\<rparr>)")
    have k2: "y_conns y2 = y_conns y" using prepare_socket_only [of "y\<lparr>y_kern := k\<rparr>" fd] p by (auto simp: kern_only_def)
    have "setup_connection env fd (ctrl_new ip port) (set_conn (nat fd) (ctrl_new ip port) y2) = Some y'"
      using h acc p Some new k2 fd(2) by (auto simp: HandleConnect_def on_kern_def k_close_def conn_at_def Let_def split: if_splits)
    then have "blank c" by (rule setup_connection_blank [OF _ blank_new Some])
    with Some s fd(2) show ?thesis by (simp add: flow_at_def blank_flow)
  qed
qed

lemma HandleCloseList_flow:
  assumes I: "proto_inv env R n b len (y, own)" and st: "stale_readable env" and h: "HandleCloseList env y = Some y'"
  shows "flow_at z y' = flow_at z y \<or> flow_at z y' = None"
proof -
  from HandleCloseList_ok [OF proto_invD(1) [OF I] st] h have
    y': "y_conns y' = filter (\<lambda>(fd, c). nat fd \<notin> set (s_cList (y_sock y))) (y_conns y)" by auto
  from HandleCloseList_less [OF h] have s: "kn_sock (y_kern y') = kn_sock (y_kern y)" by (simp add: same_side_def)
  show ?thesis by (simp add: flow_at_def conn_at_def y' map_of_filter_key s)
qed

section \<open>Preservation\<close>

lemma proto_socket: "proto_inv env R n b len (on_socket x f y, own) = proto_inv env R n b len (y, own)"
  by (simp add: proto_inv_def on_socket_def server_inv_def core_inv_cong regs_ok_def live_def conn_at_def)

lemma flow_network: "flow_at z (on_socket x (\<lambda>k. k\<lparr>k_in := k_in k @ bs\<rparr>) y) =
    (if z = x then map_option (\<lambda>(i, s). (i @ bs, s)) (flow_at z y) else flow_at z y)"
  by (cases "conn_at z y") (auto simp: flow_at_def flow_def on_socket_def)

lemma flow_kernel: "flow_at z (on_socket x (\<lambda>k. k\<lparr>k_script := os\<rparr>) y) = flow_at z y"
  by (cases "conn_at z y") (auto simp: flow_at_def flow_def on_socket_def)

text \<open>The acceptor, the workers and the kernel, in a state where \<open>H\<close> are held by I/O threads.\<close>

lemma accept_step:
  assumes I: "proto_inv env R n b len (y, own)" and acc: "sys_accept (y_kern y) = (Inr (fd, ip, port), k)"
    and can: "pool_can_serve env y" and e: "HandleConnect env idlefd y = Some (ok, y')"
    and d: "\<And>x. describes (h x) x y" and out: "k_out (kn_sock k fd) = []"
  shows "proto_inv env R n b len (y', own)"
    "describes ((h(nat fd := \<lparr>ch_arrived = k_in (kn_sock k fd), ch_taken = [], ch_given = []\<rparr>)) x) x y'"
proof -
  note F = HandleConnect_flow [OF I acc can e]
  show "proto_inv env R n b len (y', own)" by (rule proto_accept [OF I acc can e])
  show "describes ((h(nat fd := \<lparr>ch_arrived = k_in (kn_sock k fd), ch_taken = [], ch_given = []\<rparr>)) x) x y'"
  proof (cases "x = nat fd")
    case True
    with F(2) out show ?thesis by (auto simp: describes_def)
  next
    case False
    then have "flow_at x y' = flow_at x y" using F(1) [of x] F(3) by linarith
    with False d [of x] show ?thesis by (simp add: describes_def)
  qed
qed

lemma enable_step:
  assumes I: "proto_inv env R n b len (y, own @ H)" and x: "x \<in> set own" and e: "on_events x (enableEvents run_event rd wr) y = Some (r, y')"
  shows "proto_inv env R n b len (y', (if r then remove1 x own else own) @ H)" "flow_at z y' = flow_at z y"
proof -
  note D = proto_invD [OF I]
  obtain c where c: "conn_at x y = Some c" using D(7) [of x] x by auto
  show "flow_at z y' = flow_at z y" using enable_events_ok(1) [OF D(2) c e] by (simp add: kept_def)
  show "proto_inv env R n b len (y', (if r then remove1 x own else own) @ H)"
    using proto_worker(2) [OF I _ e] x by (simp add: remove1_append split: if_splits)
qed

lemma close_list_step:
  assumes I: "proto_inv env R n b len (y, own @ H)" and x: "x \<in> set own" and c: "conn_at x y = Some c" and e: "ctrl_close (run_close new_ok) c y = Some y'"
  shows "proto_inv env R n b len (y', remove1 x own @ H)" "flow_at z y' = flow_at z y"
proof -
  note D = proto_invD [OF I]
  show "proto_inv env R n b len (y', remove1 x own @ H)" using proto_worker(3) [OF I _ c e] x by (simp add: remove1_append)
  have "ActiveClose new_ok c y = Some y'" using e core_invD(2) [OF D(2)] by (simp add: ctrl_close_def run_close_def hooks_ok_def)
  with ActiveClose_ok [OF D(2) c refl, of new_ok] show "flow_at z y' = flow_at z y" by (auto simp: kept_def)
qed

lemma call_step:
  assumes I: "proto_inv env R n b len (y, own @ H)" and x: "x \<in> set own" and c: "conn_at x y = Some c" and o: "call_ok a c"
    and e: "on_stream x (run_call a) y = Some ((t, g), c', y')"
  shows "proto_inv env R n b len (y', own @ H)" "\<exists>i s. flow_at x y = Some (t @ i, s) \<and> flow_at x y' = Some (i, s @ g)"
    "z \<noteq> x \<Longrightarrow> flow_at z y' = flow_at z y"
proof -
  note D = proto_invD [OF I]
  from call.on_conn [OF D(2) c o] e obtain i s f where
    r: "flow_at x y = Some (t @ i, s)" "flow_at x y' = Some (i, s @ g)" "\<forall>z. z \<noteq> x \<longrightarrow> flow_at z y' = flow_at z y"
      "conn_shape c' = conn_shape c" "ctrl_inv c'" "y' = set_conn x c' (y\<lparr>y_kern := (y_kern y)\<lparr>kn_sock := f\<rparr>\<rparr>)" by auto
  from proto_worker(1) [OF I _ c r(4,5), of f] x r(6) show "proto_inv env R n b len (y', own @ H)" by simp
  from r show "\<exists>i s. flow_at x y = Some (t @ i, s) \<and> flow_at x y' = Some (i, s @ g)" "z \<noteq> x \<Longrightarrow> flow_at z y' = flow_at z y" by blast+
qed

lemma stream_step_inv:
  assumes "stream_step env R n b len B A s s'" "stream_inv env R n b len B s" "stale_readable env"
  shows "stream_inv env R n b len B s'"
  using assms(1,2)
proof (induction rule: stream_step.induct)
  case (S_Accept y fd ip port k idlefd ok y' own us h)
  then have I: "proto_inv env R n b len (y, own @ held us)" and d: "\<And>x. describes (h x) x y" by (simp_all add: stream_inv_def batch_inv_def)
  from accept_step [OF I S_Accept.hyps(1-3) d S_Accept.hyps(4)] S_Accept.prems show ?case by (simp add: stream_inv_def batch_inv_def)
next
  case (S_CloseList y y' own us h)
  then have I: "proto_inv env R n b len (y, own @ held us)" and d: "\<And>x. describes (h x) x y" by (simp_all add: stream_inv_def batch_inv_def)
  have "describes (h x) x y'" for x by (rule describes_same [OF HandleCloseList_flow [OF I assms(3) S_CloseList.hyps] d])
  with proto_closelist(1) [OF I assms(3) S_CloseList.hyps] S_CloseList.prems show ?case by (simp add: stream_inv_def batch_inv_def)
next
  case (S_Single u y ep fd w exitfd ev us u' y' own h)
  then have I: "proto_inv env R n b len (y, own)" by (simp add: stream_inv_def batch_inv_def held_def)
  have "flow_at z y' = flow_at z y" for z
    by (rule event_result [OF I S_Single.hyps(2-6,1)]) (use S_Single.hyps(8) in \<open>simp add: kept_def\<close>)
  with proto_event [OF I S_Single.hyps(2-6,1,8)] S_Single.hyps(7) S_Single.prems show ?case
    by (simp add: stream_inv_def batch_inv_def held_def newly_taken_def describes_def)
next
  case (S_Batch y i us ep fd w exitfd ev u' y' own h)
  then have I: "batch_inv env R n b len B (y, own, us)" by (simp add: stream_inv_def)
  from batch_event_inv [OF I S_Batch.hyps(1-8)] S_Batch.hyps(9) S_Batch.prems show ?case by (simp add: stream_inv_def describes_def)
next
  case (S_Round y i us u' y' own h)
  then have I: "batch_inv env R n b len B (y, own, us)" by (simp add: stream_inv_def)
  from batch_reset_inv [OF I S_Round.hyps(1,2)] S_Round.hyps(3) S_Round.prems show ?case by (simp add: stream_inv_def describes_def)
next
  case (S_Pool s y own us h)
  then show ?case by (auto simp: stream_inv_def batch_inv_def proto_inv_def server_inv_def core_inv_cong conn_at_def describes_def)
next
  case (S_Enable x own rd wr y r y' us h)
  then have I: "proto_inv env R n b len (y, own @ held us)" by (simp add: stream_inv_def batch_inv_def)
  from enable_step [OF I S_Enable.hyps] S_Enable.prems show ?case by (simp add: stream_inv_def batch_inv_def describes_def)
next
  case (S_Close x own y c new_ok y' us h)
  then have I: "proto_inv env R n b len (y, own @ held us)" by (simp add: stream_inv_def batch_inv_def)
  from close_list_step [OF I S_Close.hyps] S_Close.prems show ?case by (simp add: stream_inv_def batch_inv_def describes_def)
next
  case (S_Call x own y c a t g c' y' us h)
  then have I: "proto_inv env R n b len (y, own @ held us)" by (simp add: stream_inv_def batch_inv_def)
  from call_step [OF I S_Call.hyps(1,2,4,5)] S_Call.prems show ?case by (auto simp: stream_inv_def batch_inv_def describes_def)
next
  case (S_Network x y own us h bs)
  then show ?case
    by (auto simp: stream_inv_def batch_inv_def proto_socket describes_def flow_network)
next
  case (S_Kernel y own us h x os)
  then show ?case
    by (simp add: stream_inv_def batch_inv_def proto_socket describes_def flow_kernel)
qed

section \<open>Runs of the server\<close>

text \<open>The buffers of the I/O threads at the start: none with single submission, or as \<open>init\<close> leaves them.\<close>

definition first_buffers :: "SPTcpConfig \<Rightarrow> u32 \<Rightarrow> UtilTaskTcp list \<Rightarrow> bool" where
  "first_buffers cfg B us \<longleftrightarrow> us = [] \<or> tcp_config_ok cfg \<and> tcp_config_typed cfg \<and> THREADPOOL_BATCH_SIZE_SUBMIT cfg \<noteq> 1 \<and> B = batch_of cfg \<and>
     (\<exists>threads. us = batch_start cfg threads)"

lemma stream_start_inv:
  assumes "proto_start env R n b len y0" "first_buffers cfg B us0" "\<And>x. describes (h0 x) x y0" "stale_readable env"
  shows "stream_inv env R n b len B (y0, [], us0, h0)"
proof -
  have "batch_inv env R n b len B (y0, [], us0)"
  proof (cases "us0 = []")
    case True
    with assms(1) show ?thesis by (simp add: batch_inv_def held_def proto_start_def proto_inv_def)
  next
    case False
    with assms(2) obtain threads where f: "tcp_config_ok cfg" "tcp_config_typed cfg" "THREADPOOL_BATCH_SIZE_SUBMIT cfg \<noteq> 1" "B = batch_of cfg"
      "us0 = batch_start cfg threads" unfolding first_buffers_def by blast
    show ?thesis unfolding f(4,5) by (rule batch_reach_inv [OF rtranclp.rtrancl_refl assms(1,4) f(1-3)])
  qed
  with assms(3) show ?thesis by (simp add: stream_inv_def)
qed

lemma stream_reach_inv:
  assumes "(stream_step env R n b len B A)\<^sup>*\<^sup>* s s'" "stream_inv env R n b len B s" "stale_readable env"
  shows "stream_inv env R n b len B s'"
  using assms(1,2) by (induction rule: rtranclp_induct) (use stream_step_inv assms(3) in blast)+

text \<open>An application that only passes on what it takes.\<close>

definition relays :: "stream_call \<Rightarrow> bool" where
  "relays a \<longleftrightarrow> a = WriteBack \<or> a = MoveToWriteBuffer \<or> a = CommitWrite \<or> (\<exists>dst len. a = Peek dst len)"

lemma relays_run: "relays a \<Longrightarrow> run_call a c k = Some ((t, g), c', k') \<Longrightarrow> t = g"
  by (auto simp: relays_def)

lemma relay_step:
  assumes "stream_step env R n b len B A (y, own, us, h) (y', own', us', h')" "\<And>a. a \<in> A \<Longrightarrow> relays a" "\<And>x. ch_taken (h x) = ch_given (h x)"
  shows "ch_taken (h' x) = ch_given (h' x)"
  using assms(1)
proof (cases rule: stream_step.cases)
  case (S_Call z c a t g c')
  then obtain k' where "run_call a c (kn_sock (y_kern y) (c_fd c)) = Some ((t, g), c', k')" by (auto simp: on_stream_def split: Option.bind_splits)
  then have "t = g" by (rule relays_run [OF assms(2) [OF \<open>a \<in> A\<close>]])
  with S_Call assms(3) show ?thesis by simp
qed (use assms(3) in auto)

lemma relay_run:
  assumes "(stream_step env R n b len B A)\<^sup>*\<^sup>* (y0, own0, us0, h0) (y, own, us, h)" "\<And>a. a \<in> A \<Longrightarrow> relays a" "\<And>x. ch_taken (h0 x) = ch_given (h0 x)"
  shows "ch_taken (h x) = ch_given (h x)"
  using assms(1)
proof (induction "(y, own, us, h)" arbitrary: y own us h x rule: rtranclp_induct)
  case base
  with assms(3) show ?case by simp
next
  case (step s)
  obtain y1 own1 us1 h1 where s: "s = (y1, own1, us1, h1)" by (metis surj_pair)
  from relay_step [OF step(2) [unfolded s] assms(2)] step(3) [OF s] show ?case by blast
qed

section \<open>The applications\<close>

text \<open>The calls that the callbacks make, and what they come to: steps that end with the connection armed or queued for closing.\<close>

fun app_calls :: "app \<Rightarrow> stream_call set" where
  "app_calls Echo_App = {WriteBack}"
| "app_calls (Recv_App junk) = {Read (map junk [0..<1024 * 32]) (1024 * 32)}"
| "app_calls Write_App = {WriteTemp (replicate (1024 * 32) 0) (1024 * 32), CommitWrite}"
| "app_calls Memory_App = {}"

definition ends :: "('w stream_state \<Rightarrow> 'w stream_state \<Rightarrow> bool) \<Rightarrow> addr \<Rightarrow> 'w stream_state \<Rightarrow> 'w tcp_sys \<Rightarrow> bool" where
  "ends step x s y' \<longleftrightarrow> (case s of (y, own, us, h) \<Rightarrow> \<exists>h'. step\<^sup>*\<^sup>* s (y', remove1 x own, us, h')) \<and> (armed x y' \<or> x \<in> set (s_cList (y_sock y')))"

lemma ends_step:
  "step (y, own, us, h) (y1, own, us, h1) \<Longrightarrow> ends step x (y1, own, us, h1) y' \<Longrightarrow> ends step x (y, own, us, h) y'"
  unfolding ends_def by (auto intro: converse_rtranclp_into_rtranclp)

lemma stream_proto: "stream_inv env R n b len B (y, own, us, h) \<Longrightarrow> proto_inv env R n b len (y, own @ held us)"
  by (simp add: stream_inv_def batch_inv_def)

lemma close_ends:
  assumes I: "stream_inv env R n b len B (y, own, us, h)" and x: "x \<in> set own"
  shows "\<exists>y'. close_conn new_ok x y = Some y' \<and> ends (stream_step env R n b len B A) x (y, own, us, h) y'"
proof -
  note D = proto_invD [OF stream_proto [OF I]]
  obtain c where c: "conn_at x y = Some c" using D(7) [of x] x by auto
  from ActiveClose_ok [OF D(2) c refl, of new_ok] obtain y' where
    a: "ActiveClose new_ok c y = Some y'" "s_cList (y_sock y') = s_cList (y_sock y) @ [x]" by auto
  then have "ctrl_close (run_close new_ok) c y = Some y'" using core_invD(2) [OF D(2)] by (simp add: ctrl_close_def run_close_def hooks_ok_def)
  with c a(2) r_into_rtranclp [of "stream_step env R n b len B A", OF S_Close [OF x c this]] show ?thesis
    by (auto simp: close_conn_def ends_def)
qed

lemma arm_ends:
  assumes I: "stream_inv env R n b len B (y, own, us, h)" and x: "x \<in> set own" and st: "stale_readable env"
  shows "\<exists>y'. arm_or_close new_ok rd wr x y = Some y' \<and> ends (stream_step env R n b len B A) x (y, own, us, h) y'"
proof -
  note D = proto_invD [OF stream_proto [OF I]]
  obtain c where c: "conn_at x y = Some c" using D(7) [of x] x by auto
  obtain r k where run: "run_event c rd wr y = Some (r, y\<lparr>y_kern := k\<rparr>)" "r \<longrightarrow> armed x (y\<lparr>y_kern := k\<rparr>)"
    using EnableEvent_ok [OF D(2) c refl] by blast
  obtain ev where e: "on_events x (enableEvents run_event rd wr) y = Some (r, set_conn x (c\<lparr>c_events := ev\<rparr>) (y\<lparr>y_kern := k\<rparr>))"
    using c run(1) by (auto simp: on_events_def enableEvents_def)
  let ?y1 = "set_conn x (c\<lparr>c_events := ev\<rparr>) (y\<lparr>y_kern := k\<rparr>)"
  note step = S_Enable [OF x e, of env R n b len B A us h]
  show ?thesis
  proof (cases r)
    case True
    have "conn_at x (y\<lparr>y_kern := k\<rparr>) = Some c" using c by simp
    with run(2) True have "armed x ?y1" by (auto intro: armed_set_conn)
    with True e step show ?thesis by (auto simp: arm_or_close_def ends_def)
  next
    case False
    with step have s: "stream_step env R n b len B A (y, own, us, h) (?y1, own, us, h)" by simp
    from close_ends [OF stream_step_inv [OF s I st] x, of new_ok A] ends_step [of "stream_step env R n b len B A", OF s] False e show ?thesis
      by (auto simp: arm_or_close_def)
  qed
qed

text \<open>A method of the controller and the call that stands for it have the same effect.\<close>

lemma call_ends:
  assumes I: "stream_inv env R n b len B (y, own, us, h)" and x: "x \<in> set own" and c: "conn_at x y = Some c" and a: "a \<in> A" "call_ok a c"
  shows "\<exists>t g c' y' h'. on_stream x (run_call a) y = Some ((t, g), c', y') \<and> conn_at x y' = Some c' \<and> conn_shape c' = conn_shape c \<and>
    stream_step env R n b len B A (y, own, us, h) (y', own, us, h')"
proof -
  from call.on_conn [OF proto_invD(2) [OF stream_proto [OF I]] c a(2)] obtain t g c' y' where
    r: "on_stream x (run_call a) y = Some ((t, g), c', y')" "conn_shape c' = conn_shape c" by blast
  moreover have "conn_at x y' = Some c'" using r(1) by (auto simp: on_stream_def split: Option.bind_splits)
  ultimately show ?thesis using S_Call [OF x c a r(1)] by blast
qed

lemma on_stream_same:
  assumes "\<And>c k. map_option snd (f c k) = map_option snd (f' c k)" "on_stream x f' y = Some (r', c', y')"
  obtains r where "on_stream x f y = Some (r, c', y')"
proof -
  obtain c k1 where c: "conn_at x y = Some c" "f' c (kn_sock (y_kern y) (c_fd c)) = Some (r', c', k1)"
    "y' = set_conn x c' (y\<lparr>y_kern := (y_kern y)\<lparr>kn_sock := (kn_sock (y_kern y))(c_fd c := k1)\<rparr>\<rparr>)"
    using assms(2) by (auto simp: on_stream_def split: Option.bind_splits)
  with assms(1) [of c "kn_sock (y_kern y) (c_fd c)"] obtain r where "f c (kn_sock (y_kern y) (c_fd c)) = Some (r, c', k1)" by auto
  with c that show thesis by (simp add: on_stream_def)
qed

lemma recv_stream_call:
  "map_option snd (recv_stream junk c k) = map_option snd (run_call (Read (map junk [0..<1024 * 32]) (1024 * 32)) c k)"
  unfolding recv_stream_def run_call.simps by (cases "ctrl_read (map junk [0..<1024 * 32]) (1024 * 32) c") (auto simp del: upt_conv_Cons)

lemma write_stream_calls:
  assumes "on_stream x (run_call (WriteTemp (replicate (1024 * 32) 0) (1024 * 32))) y = Some (r1, c1, y1)"
    "on_stream x (run_call CommitWrite) y1 = Some (r2, c2, y2)" "conn_shape c1 = conn_shape c" "conn_at x y = Some c"
  obtains r where "on_stream x write_stream y = Some (r, c2, y2)"
proof -
  let ?s = "kn_sock (y_kern y)"
  have fd: "c_fd c1 = c_fd c" using conn_shapeD [OF assms(3)] by simp
  from assms(1,4) obtain n where t: "ctrl_writeTemp (replicate (1024 * 32) 0) (1024 * 32) c = Some (n, c1)"
    and y1: "y1 = set_conn x c1 (y\<lparr>y_kern := (y_kern y)\<lparr>kn_sock := ?s(c_fd c := ?s (c_fd c))\<rparr>\<rparr>)"
    by (auto simp: on_stream_def split: Option.bind_splits)
  from assms(2) obtain r k2 where w: "ctrl_commitWrite c1 (?s (c_fd c)) = Some (r, c2, k2)"
    and y2: "y2 = set_conn x c2 (y1\<lparr>y_kern := (y_kern y1)\<lparr>kn_sock := (kn_sock (y_kern y1))(c_fd c := k2)\<rparr>\<rparr>)"
    by (auto simp: on_stream_def y1 fd split: Option.bind_splits)
  have "y2 = set_conn x c2 (y\<lparr>y_kern := (y_kern y)\<lparr>kn_sock := ?s(c_fd c := k2)\<rparr>\<rparr>)"
    unfolding y2 y1 by (simp add: set_conn_def on_sock_def)
  with t w assms(4) that [of r] show thesis by (simp add: on_stream_def write_stream_def)
qed

text \<open>After one call or two, the callback closes or arms.\<close>

lemma finish_ends:
  assumes I: "stream_inv env R n b len B (y, own, us, h)" and x: "x \<in> set own" and st: "stale_readable env"
  shows "\<exists>y'. (if q then close_conn new_ok x y else arm_or_close new_ok rd wr x y) = Some y' \<and>
    ends (stream_step env R n b len B A) x (y, own, us, h) y'"
  using close_ends [OF I x, of new_ok A] arm_ends [OF I x st, of new_ok rd wr A] by auto

lemma write_ends:
  assumes I: "stream_inv env R n b len B (y, own, us, h)" and x: "x \<in> set own" and st: "stale_readable env" and c: "conn_at x y = Some c"
  shows "\<exists>r c2 y2. on_stream x write_stream y = Some (r, c2, y2) \<and> (\<exists>y'. (if q r then close_conn new_ok x y2 else arm_or_close new_ok rd wr x y2) = Some y' \<and>
    ends (stream_step env R n b len B (app_calls Write_App)) x (y, own, us, h) y')"
proof -
  let ?step = "stream_step env R n b len B (app_calls Write_App)" and ?a = "WriteTemp (replicate (1024 * 32) 0) (1024 * 32)"
  obtain t g c1 y1 h1 where s: "on_stream x (run_call ?a) y = Some ((t, g), c1, y1)" "conn_at x y1 = Some c1" "conn_shape c1 = conn_shape c"
    "?step (y, own, us, h) (y1, own, us, h1)" using call_ends [OF I x c, of ?a "app_calls Write_App"] by auto
  note I1 = stream_step_inv [OF s(4) I st]
  obtain t2 g2 c2 y2 h2 where s2: "on_stream x (run_call CommitWrite) y1 = Some ((t2, g2), c2, y2)"
    "?step (y1, own, us, h1) (y2, own, us, h2)" using call_ends [OF I1 x s(2), of CommitWrite "app_calls Write_App"] by auto
  obtain r where "on_stream x write_stream y = Some (r, c2, y2)" by (rule write_stream_calls [OF s(1) s2(1) s(3) c])
  moreover from finish_ends [OF stream_step_inv [OF s2(2) I1 st] x st] obtain y' where
    y': "(if q r then close_conn new_ok x y2 else arm_or_close new_ok rd wr x y2) = Some y'" "ends ?step x (y2, own, us, h2) y'" by blast
  have "ends ?step x (y1, own, us, h1) y'" by (rule ends_step [of ?step, OF s2(2) y'(2)])
  then have "ends ?step x (y, own, us, h) y'" by (rule ends_step [of ?step, OF s(4)])
  with y'(1) calculation show ?thesis by blast
qed

lemma app_ends:
  assumes I: "stream_inv env R n b len B (y, own, us, h)" and x: "x \<in> set own" and st: "stale_readable env"
  shows "\<exists>y'. app_proc app new_ok x y = Some y' \<and> ends (stream_step env R n b len B (app_calls app)) x (y, own, us, h) y'"
proof -
  let ?step = "stream_step env R n b len B (app_calls app)"
  obtain c where c: "conn_at x y = Some c" using proto_invD(7) [OF stream_proto [OF I], of x] x by auto
  have go: "\<exists>y'. (if q then close_conn new_ok x y1 else arm_or_close new_ok rd wr x y1) = Some y' \<and> ends ?step x (y, own, us, h) y'"
    if s: "?step (y, own, us, h) (y1, own, us, h1)" for y1 h1 q rd wr
    using finish_ends [OF stream_step_inv [OF s I st] x st, of q new_ok rd wr "app_calls app"] ends_step [of ?step, OF s] by blast
  show ?thesis
  proof (cases "isPeerClosed c")
    case True
    with c close_ends [OF I x, of new_ok "app_calls app"] show ?thesis
      by (cases app) (simp_all add: echo_proc_def recv_proc_def write_proc_def memory_proc_def)
  next
    case up: False
    show ?thesis
    proof (cases app)
      case Echo_App
      obtain t g c1 y1 h1 where s: "on_stream x (run_call WriteBack) y = Some ((t, g), c1, y1)" "?step (y, own, us, h) (y1, own, us, h1)"
        using call_ends [OF I x c, of WriteBack "app_calls app"] Echo_App by auto
      obtain r where "on_stream x writeBack y = Some (r, c1, y1)" by (rule on_stream_same [OF _ s(1)]) (simp add: option.map_comp comp_def split_beta)
      with go [OF s(2), of "r < 0" False True] go [OF s(2), of "r < 0" True False] c up Echo_App show ?thesis
        by (cases "r < 0") (simp_all add: echo_proc_def)
    next
      case (Recv_App junk)
      let ?a = "Read (map junk [0..<1024 * 32]) (1024 * 32)"
      obtain t g c1 y1 h1 where s: "on_stream x (run_call ?a) y = Some ((t, g), c1, y1)" "?step (y, own, us, h) (y1, own, us, h1)"
        using call_ends [OF I x c, of ?a "app_calls app"] Recv_App by auto
      obtain r where "on_stream x (recv_stream junk) y = Some (r, c1, y1)"
        by (rule on_stream_same [OF recv_stream_call s(1)])
      with go [OF s(2), of "r = 0" True False] c up Recv_App show ?thesis by (simp add: recv_proc_def)
    next
      case Write_App
      with write_ends [OF I x st c, of "\<lambda>r. r = -1" new_ok False True] c up show ?thesis by (auto simp: write_proc_def)
    next
      case Memory_App
      with arm_ends [OF I x st, of new_ok True False "app_calls app"] c up show ?thesis by (simp add: memory_proc_def)
    qed
  qed
qed

section \<open>Properties\<close>



text \<open>
  C17. A callback of the applications always comes to an end and gives its connection up. On a connection that its task owns, in every
  state of the invariant, it is defined, consists of the calls of its application and steps of the protocol only, and
  afterwards the connection is armed or on the close list, and the task owns it no longer.
\<close>

theorem callbacks_end:
  assumes "stream_inv env R n b len B (y, own, us, h)" "x \<in> set own" "stale_readable env"
  shows "\<exists>y' h'. app_proc app new_ok x y = Some y' \<and> (stream_step env R n b len B (app_calls app))\<^sup>*\<^sup>* (y, own, us, h) (y', remove1 x own, us, h') \<and>
    (armed x y' \<or> x \<in> set (s_cList (y_sock y')))"
  using app_ends [OF assms, of app new_ok] by (auto simp: ends_def)

text \<open>The sample server: a client is connected and has sent four bytes; two more arrive.\<close>

definition sample_channels :: "addr \<Rightarrow> channel" where
  "sample_channels x = \<lparr>ch_arrived = [6, 7, 8, 9], ch_taken = [], ch_given = []\<rparr>"

lemma made_blank: "blank (fst (snd made))"
proof -
  from server_ctrl_init [of 7 null 1 "''10.0.0.1''" 4000 "\<lambda>_. 0"] obtain c b where
    i: "ctrl_init bump_malloc server_cfg 7 null 1 (ctrl_new ''10.0.0.1'' 4000) (pool_init (\<lambda>_. 0)) = Some (True, c, b)" by blast
  have "blank c" by (rule ctrl_init_blank [OF i blank_new])
  then show ?thesis unfolding made_def i by simp
qed

lemma server1_flow: "flow_at x server1 = (if x = 7 then Some ([6, 7, 8, 9], []) else None)"
  by (simp add: flow_at_def conn_at_def server1_def server0_def kern0_def blank_flow [OF made_blank] sample_sock_def)

lemma sample_channels_ok: "describes (sample_channels x) x server1" "describes (sample_channels x) x server1_armed"
  "describes (sample_channels x) x server2"
  by (simp_all add: describes_def server1_armed_def server2_def flow_at_def conn_at_def server1_flow [unfolded flow_at_def conn_at_def] sample_channels_def
      split: if_splits)

text \<open>Two bytes arrive at the sample server that submits in batches.\<close>

definition server2_later :: "unit stream_state" where
  "server2_later = (on_socket 7 (\<lambda>k. k\<lparr>k_in := k_in k @ [10, 11]\<rparr>) server2, [], batch_start pair_cfg 1,
     sample_channels(7 := (sample_channels 7)\<lparr>ch_arrived := ch_arrived (sample_channels 7) @ [10, 11]\<rparr>))"

lemma server2_run: "(stream_step server_env server_fds 1 1 4 2 A)\<^sup>*\<^sup>* (server2, [], batch_start pair_cfg 1, sample_channels) server2_later"
  unfolding server2_later_def
  by (rule r_into_rtranclp, rule S_Network) (simp add: conn_at_def server2_def server1_armed_def server1_def)

lemma server2_first: "first_buffers pair_cfg 2 (batch_start pair_cfg 1)"
  using pair_cfg_ok by (auto simp: first_buffers_def)

lemma server2_conn: "conn_at 7 (fst server2_later) = Some (fst (snd made))"
  by (simp add: server2_later_def on_socket_def conn_at_def server2_def server1_armed_def server1_def)



theorem callbacks_end_witness:
  "\<exists>y' h'. app_proc Echo_App True 7 server1 = Some y' \<and>
    (stream_step server_env server_fds 1 1 4 2 (app_calls Echo_App))\<^sup>*\<^sup>* (server1, [7], [], sample_channels) (y', remove1 7 [7], [], h') \<and>
    (armed 7 y' \<or> 7 \<in> set (s_cList (y_sock y')))"
  by (rule callbacks_end [OF _ _ server_env_stale])
    (use server1_owned sample_channels_ok(1) in \<open>simp_all add: stream_inv_def batch_inv_def held_def\<close>)

end
