(* ===== verification/TP_Steal.thy ===== *)
theory TP_Steal
  imports Thread_Pool
begin

text \<open>
  The remaining parts of \<open>base/ThreadPool.hpp\<close>: \<open>Stealer::steal\<close> as one sequential function, which the steps of a worker
  implement; the binding of the workers to cores; and \<open>emplaceBulk\<close>.

  \<open>emplaceBulk\<close> of the pool calls a member \<open>emplaceBulk\<close> of the queue that the repository does not define. That member is an argument.
\<close>

section \<open>Stealing\<close>

text \<open>
  The loop of \<open>steal\<close> over the other queues, from the one that was robbed last; \<open>m\<close> iterations are left after \<open>k\<close>. The result is what
  was stolen and the new position.
\<close>

fun steal_loop :: "nat \<Rightarrow> 'a worker \<Rightarrow> nat \<Rightarrow> nat \<Rightarrow> 'a ThreadPool \<Rightarrow> ('a list \<times> nat \<times> 'a ThreadPool) option" where
  "steal_loop i w k 0 tp = Some ([], w_index w, tp)"
| "steal_loop i w k (Suc m) tp =
     (let total = length (others i tp); now = (w_index w + k) mod total in
      case tp_queues tp of None \<Rightarrow> None
      | Some qs \<Rightarrow>
        if threshold w total (qs ! i) \<le> q_size (qs ! (others i tp ! now)) then do {
          (xs, tp1) \<leftarrow> on_queue (others i tp ! now) (own_pop w) tp;
          if xs \<noteq> [] then Some (xs, now, tp1) else steal_loop i w (Suc k) m tp1
        } else steal_loop i w (Suc k) m tp)"

definition steal :: "nat \<Rightarrow> 'a worker \<Rightarrow> 'a ThreadPool \<Rightarrow> ('a list \<times> nat \<times> 'a ThreadPool) option" where
  "steal i w tp = steal_loop i w 0 (length (others i tp)) tp"

text \<open>A step of worker \<open>i\<close> that reads the size that the queue has, with no other thread in between.\<close>

definition size_now :: "nat \<Rightarrow> 'a ThreadPool \<Rightarrow> u32" where
  "size_now i tp = (case (tp_queues tp, w_pc (tp_workers tp ! i)) of
     (Some qs, WSteal k) \<Rightarrow> q_size (qs ! (others i tp ! ((w_index (tp_workers tp ! i) + k) mod length (others i tp))))
   | _ \<Rightarrow> 0)"

definition alone_step :: "nat \<Rightarrow> 'a ThreadPool \<Rightarrow> 'a ThreadPool \<Rightarrow> bool" where
  "alone_step i tp tp' \<longleftrightarrow> worker_step (size_now i tp) False i tp = Some tp'"

lemma set_worker_fields [simp]: "tp_queues (set_worker i w tp) = tp_queues tp" "others i (set_worker j w tp) = others i tp"
  "set_worker i w (set_worker i w' tp) = set_worker i w tp" "length (tp_workers (set_worker i w tp)) = length (tp_workers tp)"
  by (simp_all add: set_worker_def others_def)

lemma set_worker_at [simp]: "i < length (tp_workers tp) \<Longrightarrow> tp_workers (set_worker i w tp) ! i = w"
  by (simp add: set_worker_def)

lemma on_queue_worker: "on_queue j f (set_worker i w tp) = map_option (\<lambda>(r, tp'). (r, set_worker i w tp')) (on_queue j f tp)"
  by (auto simp: on_queue_def set_worker_def split: option.splits Option.bind_splits)

lemma on_queue_workers: "on_queue j f tp = Some (r, tp') \<Longrightarrow> tp_workers tp' = tp_workers tp \<and> tp_threadNum tp' = tp_threadNum tp"
  by (auto simp: on_queue_def split: option.splits Option.bind_splits if_splits)

lemma own_pop_batch: "own_pop (w\<lparr>w_hold := xs, w_pc := pc\<rparr>) = own_pop w" "threshold (w\<lparr>w_hold := xs, w_pc := pc\<rparr>) n q = threshold w n q"
  by (simp_all add: own_pop_def threshold_def fun_eq_iff)

lemma steal_steps:
  assumes "steal_loop i w k m tp = Some (xs, p, tp1)" "k + m = length (others i tp)" "i < length (tp_workers tp)" "tp_queues tp \<noteq> None"
  shows "(alone_step i)\<^sup>*\<^sup>* (set_worker i (w\<lparr>w_hold := [], w_pc := WSteal k\<rparr>) tp)
    (set_worker i (w\<lparr>w_index := p, w_hold := xs, w_pc := if xs = [] then WWait else WLoop\<rparr>) tp1)"
  using assms
proof (induction m arbitrary: k tp)
  case 0
  let ?w = "w\<lparr>w_hold := [], w_pc := WSteal k\<rparr>"
  from 0 obtain qs where "tp_queues tp = Some qs" by auto
  with 0 have "alone_step i (set_worker i ?w tp) (set_worker i (w\<lparr>w_hold := [], w_pc := WWait\<rparr>) tp)"
    by (simp add: alone_step_def worker_step_def Let_def)
  with 0(1) show ?case by auto
next
  case (Suc m)
  let ?w = "w\<lparr>w_hold := [], w_pc := WSteal k\<rparr>" and ?next = "set_worker i (w\<lparr>w_hold := [], w_pc := WSteal (Suc k)\<rparr>)"
  let ?total = "length (others i tp)"
  let ?now = "(w_index w + k) mod ?total"
  from Suc.prems(4) obtain qs where qs: "tp_queues tp = Some qs" by auto
  let ?v = "others i tp ! ?now"
  have run: "worker_step (size_now i (set_worker i ?w tp)) False i (set_worker i ?w tp) =
      (if threshold w ?total (qs ! i) \<le> q_size (qs ! ?v)
       then Option.bind (on_queue ?v (own_pop w) (set_worker i ?w tp))
         (\<lambda>(xs, tp'). after_pop i (if xs = [] then ?w else ?w\<lparr>w_index := ?now\<rparr>) WLoop (WSteal (Suc k)) (xs, tp'))
       else Some (?next tp))"
    using Suc.prems(2,3) qs by (simp add: worker_step_def size_now_def Let_def own_pop_batch)
  show ?case
  proof (cases "threshold w ?total (qs ! i) \<le> q_size (qs ! ?v)")
    case False
    then have "alone_step i (set_worker i ?w tp) (?next tp)" using run by (simp add: alone_step_def)
    moreover have "steal_loop i w (Suc k) m tp = Some (xs, p, tp1)" using Suc.prems(1) qs False by (simp add: Let_def)
    from Suc.IH [OF this] Suc.prems(2-4) have "(alone_step i)\<^sup>*\<^sup>* (?next tp)
      (set_worker i (w\<lparr>w_index := p, w_hold := xs, w_pc := if xs = [] then WWait else WLoop\<rparr>) tp1)" by simp
    ultimately show ?thesis by (rule converse_rtranclp_into_rtranclp)
  next
    case True
    with Suc.prems(1) qs obtain ys tp2 where o: "on_queue ?v (own_pop w) tp = Some (ys, tp2)"
      by (auto simp: Let_def split: Option.bind_splits)
    note W = on_queue_workers [OF o]
    have q2: "tp_queues tp2 \<noteq> None" using o by (auto simp: on_queue_def split: option.splits Option.bind_splits if_splits)
    show ?thesis
    proof (cases "ys = []")
      case empty: True
      have "alone_step i (set_worker i ?w tp) (?next tp2)"
        using run True o empty by (simp add: alone_step_def on_queue_worker after_pop_def)
      moreover have "steal_loop i w (Suc k) m tp2 = Some (xs, p, tp1)" using Suc.prems(1) qs True o empty by (simp add: Let_def)
      from Suc.IH [OF this _ _ q2] Suc.prems(2,3) W have "(alone_step i)\<^sup>*\<^sup>* (?next tp2)
        (set_worker i (w\<lparr>w_index := p, w_hold := xs, w_pc := if xs = [] then WWait else WLoop\<rparr>) tp1)" by (simp add: others_def)
      ultimately show ?thesis by (rule converse_rtranclp_into_rtranclp)
    next
      case got: False
      then have "xs = ys" "p = ?now" "tp1 = tp2" using Suc.prems(1) qs True o by (simp_all add: Let_def)
      with run True o got have "alone_step i (set_worker i ?w tp) (set_worker i (w\<lparr>w_index := p, w_hold := xs, w_pc := if xs = [] then WWait else WLoop\<rparr>) tp1)"
        by (simp add: alone_step_def on_queue_worker after_pop_def)
      then show ?thesis by (rule r_into_rtranclp)
    qed
  qed
qed

text \<open>A pop takes a batch from the front; on an empty queue it has no effect.\<close>

lemma own_pop_take:
  assumes "queue_inv q" "w_batch w \<noteq> 0"
  shows "\<exists>q'. own_pop w q = Some (take (unat (w_batch w)) (queue_items q), q') \<and> queue_inv q' \<and> queue_items q' = drop (unat (w_batch w)) (queue_items q)"
proof (cases "w_batch w = 1")
  case True
  with queue_pop_ok [OF assms(1)] show ?thesis by (cases "queue_items q") (auto simp: own_pop_def)
next
  case False
  with queue_popBulk_ok [OF assms(1), of "w_batch w"] show ?thesis by (auto simp: own_pop_def)
qed

lemma own_pop_empty: "queue_inv q \<Longrightarrow> queue_items q = [] \<Longrightarrow> own_pop w q = Some ([], q)"
  by (simp add: own_pop_def queue_pop_def queue_popBulk_def queue_items_empty queue_inv_block)

text \<open>The queue that is probed in iteration \<open>l\<close>, and whether it can be robbed.\<close>

definition victim :: "nat \<Rightarrow> 'a worker \<Rightarrow> 'a ThreadPool \<Rightarrow> nat \<Rightarrow> nat" where
  "victim i w tp l = others i tp ! ((w_index w + l) mod length (others i tp))"

definition stealable :: "nat \<Rightarrow> 'a worker \<Rightarrow> 'a ThreadPool \<Rightarrow> 'a TPBlockQueue list \<Rightarrow> nat \<Rightarrow> bool" where
  "stealable i w tp qs l \<longleftrightarrow> threshold w (length (others i tp)) (qs ! i) \<le> q_size (qs ! victim i w tp l) \<and> queue_items (qs ! victim i w tp l) \<noteq> []"

definition robbed :: "nat \<Rightarrow> 'a worker \<Rightarrow> 'a ThreadPool \<Rightarrow> 'a TPBlockQueue list \<Rightarrow> nat \<Rightarrow> ('a list \<times> nat \<times> 'a ThreadPool) option \<Rightarrow> bool" where
  "robbed i w tp qs l r \<longleftrightarrow> (\<exists>q'. r = Some (take (unat (w_batch w)) (queue_items (qs ! victim i w tp l)), (w_index w + l) mod length (others i tp),
       tp\<lparr>tp_queues := Some (qs[victim i w tp l := q'])\<rparr>) \<and>
     queue_inv q' \<and> queue_items q' = drop (unat (w_batch w)) (queue_items (qs ! victim i w tp l)))"

lemma steal_loop_finds:
  assumes qs: "tp_queues tp = Some qs" "\<And>j. j < length qs \<Longrightarrow> queue_inv (qs ! j)" "length qs = unat (tp_threadNum tp)" and w: "w_batch w \<noteq> 0"
    and o: "others i tp \<noteq> []"
  shows "(\<exists>l. k \<le> l \<and> l < k + m \<and> stealable i w tp qs l \<and> (\<forall>l'. k \<le> l' \<and> l' < l \<longrightarrow> \<not> stealable i w tp qs l') \<and>
      robbed i w tp qs l (steal_loop i w k m tp)) \<or>
    (\<forall>l. k \<le> l \<and> l < k + m \<longrightarrow> \<not> stealable i w tp qs l) \<and> steal_loop i w k m tp = Some ([], w_index w, tp)"
proof (induction m arbitrary: k)
  case 0
  then show ?case by auto
next
  case (Suc m)
  let ?now = "(w_index w + k) mod length (others i tp)"
  have v: "victim i w tp k < length qs" unfolding victim_def qs(3) using others_nth [of ?now i tp] o by simp
  let ?q = "qs ! victim i w tp k"
  show ?case
  proof (cases "stealable i w tp qs k")
    case True
    from own_pop_take [OF qs(2) [OF v] w] obtain q' where
      p: "own_pop w ?q = Some (take (unat (w_batch w)) (queue_items ?q), q')" "queue_inv q'" "queue_items q' = drop (unat (w_batch w)) (queue_items ?q)" by blast
    have "take (unat (w_batch w)) (queue_items ?q) \<noteq> []" using True w by (simp add: stealable_def u32_eq_0_iff)
    with True p(1) v qs(1) have "steal_loop i w k (Suc m) tp =
        Some (take (unat (w_batch w)) (queue_items ?q), ?now, tp\<lparr>tp_queues := Some (qs[victim i w tp k := q'])\<rparr>)"
      by (simp add: stealable_def Let_def victim_def on_queue_def)
    with p(2,3) have "robbed i w tp qs k (steal_loop i w k (Suc m) tp)" unfolding robbed_def by blast
    with True show ?thesis by (auto intro!: exI [of _ k])
  next
    case False
    have "steal_loop i w k (Suc m) tp = steal_loop i w (Suc k) m tp"
    proof (cases "threshold w (length (others i tp)) (qs ! i) \<le> q_size ?q")
      case True
      with False have "queue_items ?q = []" by (simp add: stealable_def)
      from own_pop_empty [OF qs(2) [OF v] this] True v qs(1) show ?thesis
        by (simp add: Let_def victim_def on_queue_def tp_queues_id)
    qed (use qs(1) in \<open>simp add: Let_def victim_def\<close>)
    moreover have "l = k \<or> Suc k \<le> l" if "k \<le> l" for l using that by auto
    ultimately show ?thesis using Suc.IH [of "Suc k"] False by (metis Suc_leD add_Suc add_Suc_right)
  qed
qed

section \<open>Binding to cores\<close>

text \<open>
  \<open>ThreadBinder\<close> under Linux: the set of cores that \<open>CPU_ZERO\<close> and \<open>CPU_SET\<close> make, which has room for 1024 cores, and the system call
  as an argument. The lambda of \<open>init\<close> binds worker \<open>i\<close> and ignores the result.
\<close>

definition CPU_SET :: "u32 \<Rightarrow> nat set" where
  "CPU_SET core = (if unat core < 1024 then {unat core} else {})"

definition bind_current_thread_to_core :: "(nat set \<Rightarrow> int) \<Rightarrow> u32 \<Rightarrow> bool" where
  "bind_current_thread_to_core setaffinity core \<longleftrightarrow> setaffinity (CPU_SET core) = 0"

definition worker_cores :: "u32 \<Rightarrow> u32 \<Rightarrow> nat set" where
  "worker_cores cores i = (if cores > 0 then CPU_SET (i mod cores) else UNIV)"

lemma worker_cores_nat:
  assumes "0 < cores" "unat cores \<le> 1024"
  shows "worker_cores cores i = {unat i mod unat cores}"
proof -
  have "unat (i mod cores) < unat cores" using assms(1) by (simp add: unat_mod unat_gt_0)
  with assms show ?thesis by (simp add: worker_cores_def CPU_SET_def unat_mod)
qed

lemma card_residue:
  assumes "c < m"
  shows "card {i. i < n \<and> i mod m = c} = (n + (m - 1 - c)) div m"
proof -
  have "{i. i < n \<and> i mod m = c} = (\<lambda>q. q * m + c) ` {..<(n + (m - 1 - c)) div m}"
  proof (intro equalityI subsetI)
    fix i assume i: "i \<in> {i. i < n \<and> i mod m = c}"
    then have "i = i div m * m + c" by (metis (mono_tags) div_mult_mod_eq mem_Collect_eq)
    moreover have "i div m * m + c < n" using i calculation by simp
    then have "Suc (i div m) * m \<le> n + (m - 1 - c)" using assms by simp
    then have "Suc (i div m) \<le> (n + (m - 1 - c)) div m" using assms by (simp add: less_eq_div_iff_mult_less_eq)
    ultimately show "i \<in> (\<lambda>q. q * m + c) ` {..<(n + (m - 1 - c)) div m}" by (intro image_eqI [of _ _ "i div m"]) simp_all
  next
    fix i assume "i \<in> (\<lambda>q. q * m + c) ` {..<(n + (m - 1 - c)) div m}"
    then obtain q where q: "i = q * m + c" "Suc q \<le> (n + (m - 1 - c)) div m" by (fastforce simp: less_eq_Suc_le)
    then have "Suc q * m \<le> n + (m - 1 - c)" using assms by (simp add: less_eq_div_iff_mult_less_eq)
    with q(1) assms show "i \<in> {i. i < n \<and> i mod m = c}" by simp
  qed
  moreover have "inj_on (\<lambda>q. q * m + c) A" for A using assms by (auto intro: inj_onI)
  ultimately show ?thesis by (simp add: card_image)
qed

text \<open>The workers are spread evenly over the cores: two cores differ by at most one worker.\<close>

lemma cores_balanced:
  fixes threads :: u32
  assumes "0 < cores" "unat cores \<le> 1024" "c < unat cores"
  shows "card {i. i < unat threads \<and> worker_cores cores (of_nat i) = {c}} \<in> {unat threads div unat cores, Suc (unat threads div unat cores)}"
proof -
  let ?n = "unat threads" and ?m = "unat cores"
  have u: "unat (of_nat i :: u32) = i" if "i < ?n" for i
    using that le_unat_u32 [of i threads] by (simp add: unat_of_nat_u32)
  have "{i. i < ?n \<and> worker_cores cores (of_nat i) = {c}} = {i. i < ?n \<and> i mod ?m = c}"
    using u worker_cores_nat [OF assms(1,2)] by auto
  then have e: "card {i. i < ?n \<and> worker_cores cores (of_nat i) = {c}} = (?n + (?m - 1 - c)) div ?m" using card_residue [OF assms(3)] by simp
  have "?n div ?m \<le> (?n + (?m - 1 - c)) div ?m" by (intro div_le_mono) simp
  moreover have "(?n + (?m - 1 - c)) div ?m \<le> (?n + ?m) div ?m" by (intro div_le_mono) simp
  moreover have "(?n + ?m) div ?m = Suc (?n div ?m)" using assms(3) by (subst div_add_self2) auto
  ultimately show ?thesis unfolding e insert_iff by linarith
qed

section \<open>Bulk construction\<close>

text \<open>
  The two forms of \<open>emplaceBulk\<close>; \<open>place\<close> is the member of the queue that they call, with the number of tasks, or with the packages
  of arguments and their number.
\<close>

definition tp_emplaceBulk_default :: "(u32 \<Rightarrow> 'a TPBlockQueue \<Rightarrow> (u32 \<times> 'a TPBlockQueue) option) \<Rightarrow> u32 \<Rightarrow> u32 \<Rightarrow> 'a ThreadPool \<Rightarrow>
    (u32 \<times> 'a ThreadPool) option" where
  "tp_emplaceBulk_default place seen cnt tp =
     (if cnt > tp_queueLength tp then None
      else do {
        (index, tp1) \<leftarrow> next_index tp;
        if seen + cnt div 2 \<le> tp_queueLength tp1
        then on_queue (unat index) (place cnt) tp1
        else on_queue (half_index index tp1) (place cnt) tp1
      })"

definition tp_emplaceBulk :: "('p list \<Rightarrow> u32 \<Rightarrow> 'a TPBlockQueue \<Rightarrow> (u32 \<times> 'a TPBlockQueue) option) \<Rightarrow> u32 \<Rightarrow> 'p list \<Rightarrow> u32 \<Rightarrow> 'a ThreadPool \<Rightarrow>
    (u32 \<times> 'a ThreadPool) option" where
  "tp_emplaceBulk place seen packages cnt tp =
     (if cnt > tp_queueLength tp then None
      else do {
        (index, tp1) \<leftarrow> next_index tp;
        if seen + cnt div 2 \<le> tp_queueLength tp1
        then on_queue (unat index) (place packages cnt) tp1
        else on_queue (half_index index tp1) (place packages cnt) tp1
      })"

text \<open>With the bulk insertion of the queue in its place they do what \<open>append_bulk\<close> does: the dispatch to the queues is the same.\<close>

lemma emplaceBulk_dispatch: "tp_emplaceBulk queue_pushBulk seen tasks cnt tp = tp_append_bulk seen tasks cnt tp"
  "tp_emplaceBulk_default (queue_pushBulk (replicate (unat cnt) x)) seen cnt tp = tp_append_bulk seen (replicate (unat cnt) x) cnt tp"
  by (simp_all add: tp_emplaceBulk_def tp_emplaceBulk_default_def tp_append_bulk_def)

section \<open>Properties\<close>

text \<open>
  C15. A worker that finds its own queue empty robs the right one. In every reachable state, the steps of a worker in its
  steal loop, when no other thread comes in between, come to what \<open>Stealer::steal\<close> computes: it takes a batch from the front of the first
  queue, in the cyclic order from the queue that it robbed last, whose size reaches the threshold, and remembers that queue; if there is
  none it changes nothing and goes on to wait on its own queue.
\<close>

theorem steal_robs_first:
  assumes "tp_init new_ok amal nsz cores len threads batch (tp_new idx) = Some (True, tp)" "pool_args nsz len"
    and "tpstep\<^sup>*\<^sup>* (fresh_pool tp) s" "i < unat threads" "w = tp_workers (t_pool s) ! i" "w_pc w = WSteal 0" "tp_queues (t_pool s) = Some qs"
  shows "\<exists>xs p tp1. steal i w (t_pool s) = Some (xs, p, tp1) \<and>
    (alone_step i)\<^sup>*\<^sup>* (t_pool s) (set_worker i (w\<lparr>w_index := p, w_hold := xs, w_pc := if xs = [] then WWait else WLoop\<rparr>) tp1) \<and>
    (if \<exists>l < length (others i (t_pool s)). stealable i w (t_pool s) qs l
     then \<exists>l < length (others i (t_pool s)). stealable i w (t_pool s) qs l \<and> (\<forall>l' < l. \<not> stealable i w (t_pool s) qs l') \<and>
       robbed i w (t_pool s) qs l (Some (xs, p, tp1))
     else xs = [] \<and> p = w_index w \<and> tp1 = t_pool s)"
proof -
  let ?tp = "t_pool s"
  have inv: "tp_inv (t_closing s) (unat threads) batch len (t_submitted s) ?tp"
    using tpsteps_inv [OF assms(3) tp_init_inv [OF assms(1,2)]] by (simp add: sys_inv_def)
  with assms(7) have I: "unat threads = unat (tp_threadNum ?tp)" "batch \<noteq> 0" "length qs = unat threads" "length (tp_workers ?tp) = unat threads"
    "\<And>j. j < unat threads \<Longrightarrow> wq_ok (t_closing s) (tp_shutdownPolicy ?tp) (unat threads) batch (tp_workers ?tp ! j) (qs ! j)"
    by (auto simp: tp_inv_def)
  from I(5) [OF assms(4)] assms(5,6) have W: "w_batch w = batch" "w_hold w = []" "unat threads \<noteq> 1" by (auto simp: wq_ok_def pc_holds_def)
  have o: "others i ?tp \<noteq> []" using others_empty [of i ?tp] I(1) assms(4) W(3) by simp
  have "\<And>j. j < length qs \<Longrightarrow> queue_inv (qs ! j)" "length qs = unat (tp_threadNum ?tp)" "w_batch w \<noteq> 0" using I W(1) by (simp_all add: wq_ok_def)
  note F = steal_loop_finds [OF assms(7) this o, of 0 "length (others i ?tp)"]
  obtain xs p tp1 where r: "steal i w ?tp = Some (xs, p, tp1)" using F by (auto simp: steal_def robbed_def split: if_splits)
  have "w\<lparr>w_hold := [], w_pc := WSteal 0\<rparr> = w" using W(2) assms(6) by simp
  then have "set_worker i (w\<lparr>w_hold := [], w_pc := WSteal 0\<rparr>) ?tp = ?tp" using assms(5) by (simp add: set_worker_def)
  with steal_steps [of i w 0 "length (others i ?tp)" ?tp xs p tp1] r assms(4,7) I(4)
  have "(alone_step i)\<^sup>*\<^sup>* ?tp (set_worker i (w\<lparr>w_index := p, w_hold := xs, w_pc := if xs = [] then WWait else WLoop\<rparr>) tp1)"
    by (simp add: steal_def)
  moreover have "if \<exists>l < length (others i ?tp). stealable i w ?tp qs l
     then \<exists>l < length (others i ?tp). stealable i w ?tp qs l \<and> (\<forall>l' < l. \<not> stealable i w ?tp qs l') \<and> robbed i w ?tp qs l (Some (xs, p, tp1))
     else xs = [] \<and> p = w_index w \<and> tp1 = ?tp"
    using F r by (auto simp: steal_def)
  ultimately show ?thesis using r by blast
qed

text \<open>Worker 1 finds its queue empty while two tasks wait in the queue of worker 0; the threshold is one.\<close>

definition steal_script :: "nat tp_act list" where
  "steal_script = [ActAppend 0 7, ActAppend 0 9, ActWork 0 False 1, ActWork 0 False 1, ActWork 0 False 1, ActAppend 0 8, ActWork 0 False 1]"

theorem steal_robs_first_witness:
  "\<exists>s qs xs p tp1. tp_script steal_script (fresh_pool (sample_pool 1)) = Some s \<and> tp_queues (t_pool s) = Some qs \<and>
    steal 1 (tp_workers (t_pool s) ! 1) (t_pool s) = Some (xs, p, tp1) \<and>
    (alone_step 1)\<^sup>*\<^sup>* (t_pool s) (set_worker 1 ((tp_workers (t_pool s) ! 1)\<lparr>w_index := p, w_hold := xs, w_pc := if xs = [] then WWait else WLoop\<rparr>) tp1) \<and>
    (\<exists>l < length (others 1 (t_pool s)). robbed 1 (tp_workers (t_pool s) ! 1) (t_pool s) qs l (Some (xs, p, tp1)))"
proof -
  have "(case tp_script steal_script (fresh_pool (sample_pool 1)) of None \<Rightarrow> False
      | Some s \<Rightarrow> w_pc (tp_workers (t_pool s) ! 1) = WSteal 0 \<and> (case tp_queues (t_pool s) of None \<Rightarrow> False
          | Some qs \<Rightarrow> 0 < length (others 1 (t_pool s)) \<and> stealable 1 (tp_workers (t_pool s) ! 1) (t_pool s) qs 0))"
    unfolding steal_script_def sample_pool_def by code_simp
  then obtain s qs where s: "tp_script steal_script (fresh_pool (sample_pool 1)) = Some s" "w_pc (tp_workers (t_pool s) ! 1) = WSteal 0"
    "tp_queues (t_pool s) = Some qs" "0 < length (others 1 (t_pool s))" "stealable 1 (tp_workers (t_pool s) ! 1) (t_pool s) qs 0"
    by (auto split: option.splits)
  have "1 < unat (2 :: u32)" by simp
  from steal_robs_first [OF sample_pool_init(1,3) tp_script_steps [OF s(1)] this refl s(2,3)] s show ?thesis by (auto split: if_splits)
qed

end
