(* ===== verification/TP_Task.thy ===== *)
theory TP_Task
  imports SP_Prelude "HOL-Library.Monad_Syntax"
begin

text \<open>
  \<open>TaskStack\<close> and \<open>TaskImpl\<close> of \<open>base/TPTask.h\<close>, the default task type of the thread pool: a callable
  with its bound arguments, stored without a heap allocation in a fixed buffer behind virtual functions.

  The memory maps the address of a storage buffer to the task implementation that lives in it,
  \<^term>\<open>None\<close> where none does. Placement \<open>new\<close> starts a lifetime, a destructor ends one, and a virtual call
  needs a live object; a violation is the result \<^term>\<open>None\<close>. The number of constructions and of
  destructions is counted. A constructor of a bound value may throw: then the operation ends with
  \<open>Thrown\<close> and the state it had reached.

  The behaviour of the types that are bound, their copy constructors, what a move leaves behind and
  the call operator, is a parameter; a copy may throw, a move does not.
\<close>

section \<open>Memory\<close>

text \<open>A value of a bound type; the first of the list is the callable, the others are the arguments.\<close>

record 'v TaskImpl =
  ti_storage :: "'v list"
  ti_sizeof :: nat

record ('v, 'w) task_mem =
  tm_obj :: "addr \<rightharpoonup> 'v TaskImpl"
  tm_built :: nat
  tm_destroyed :: nat
  tm_world :: 'w

text \<open>
  \<open>vt_copy\<close> is the copy constructor, \<^term>\<open>None\<close> when it throws; \<open>vt_move\<close> yields what is left of a moved
  value. \<open>vt_call\<close> calls the callable with its arguments as lvalues, which it may change.
\<close>

record ('v, 'w) value_type =
  vt_copy :: "'v \<Rightarrow> 'v option"
  vt_move :: "'v \<Rightarrow> 'v"
  vt_call :: "'v \<Rightarrow> 'v list \<Rightarrow> 'w \<Rightarrow> 'v \<times> 'v list \<times> 'w"

datatype completion = Done | Thrown

type_synonym ('v, 'w) task_result = "(completion \<times> ('v, 'w) task_mem) option"

definition place :: "addr \<Rightarrow> 'v TaskImpl \<Rightarrow> ('v, 'w) task_mem \<Rightarrow> ('v, 'w) task_mem option" where
  "place a t m = (if tm_obj m a = None then Some (m\<lparr>tm_obj := (tm_obj m)(a \<mapsto> t), tm_built := Suc (tm_built m)\<rparr>) else None)"

section \<open>The implementation object\<close>

text \<open>A bound value is forwarded: an lvalue is copied, an rvalue is moved. The sources are not part of the memory.\<close>

datatype 'v forwarded = Lvalue 'v | Rvalue 'v

fun forward :: "('v, 'w) value_type \<Rightarrow> 'v forwarded \<Rightarrow> 'v option" where
  "forward vt (Lvalue v) = vt_copy vt v"
| "forward vt (Rvalue v) = Some v"

fun forward_all :: "('v, 'w) value_type \<Rightarrow> 'v forwarded list \<Rightarrow> 'v list option" where
  "forward_all vt [] = Some []"
| "forward_all vt (x # xs) = do { v \<leftarrow> forward vt x; vs \<leftarrow> forward_all vt xs; Some (v # vs) }"

text \<open>The implicit copy constructor copies the elements of the tuple; if one throws no object comes to life.\<close>

definition copy_storage :: "('v, 'w) value_type \<Rightarrow> 'v list \<Rightarrow> 'v list option" where
  "copy_storage vt vs = forward_all vt (map Lvalue vs)"

text \<open>\<open>execute\<close>: the callable with the arguments of the tuple.\<close>

definition impl_execute :: "('v, 'w) value_type \<Rightarrow> 'v TaskImpl \<Rightarrow> 'w \<Rightarrow> ('v TaskImpl \<times> 'w) option" where
  "impl_execute vt t w = (case ti_storage t of
     [] \<Rightarrow> None
   | f # args \<Rightarrow> let (f', args', w') = vt_call vt f args w in Some (t\<lparr>ti_storage := f' # args'\<rparr>, w'))"

definition cloneTo :: "('v, 'w) value_type \<Rightarrow> addr \<Rightarrow> addr \<Rightarrow> ('v, 'w) task_mem \<Rightarrow> ('v, 'w) task_result" where
  "cloneTo vt src memory m = do {
     t \<leftarrow> tm_obj m src;
     case copy_storage vt (ti_storage t) of
       None \<Rightarrow> Some (Thrown, m)
     | Some vs \<Rightarrow> map_option (Pair Done) (place memory (t\<lparr>ti_storage := vs\<rparr>) m)
   }"

definition moveTo :: "('v, 'w) value_type \<Rightarrow> addr \<Rightarrow> addr \<Rightarrow> ('v, 'w) task_mem \<Rightarrow> ('v, 'w) task_result" where
  "moveTo vt src memory m = do {
     t \<leftarrow> tm_obj m src;
     m1 \<leftarrow> place memory t m;
     Some (Done, m1\<lparr>tm_obj := (tm_obj m1)(src \<mapsto> t\<lparr>ti_storage := map (vt_move vt) (ti_storage t)\<rparr>)\<rparr>)
   }"

definition destroy_impl :: "addr \<Rightarrow> ('v, 'w) task_mem \<Rightarrow> ('v, 'w) task_mem option" where
  "destroy_impl a m = map_option (\<lambda>_. m\<lparr>tm_obj := (tm_obj m)(a := None), tm_destroyed := Suc (tm_destroyed m)\<rparr>) (tm_obj m a)"

section \<open>The container\<close>

text \<open>The static assertion: an implementation that does not fit is rejected, here as \<^term>\<open>None\<close>.\<close>

definition TaskStack_new :: "('v, 'w) value_type \<Rightarrow> nat \<Rightarrow> addr \<Rightarrow> nat \<Rightarrow> 'v forwarded list \<Rightarrow> ('v, 'w) task_mem \<Rightarrow> ('v, 'w) task_result" where
  "TaskStack_new vt TSIZE storage size_of bound m =
     (if size_of \<le> TSIZE then
        (case forward_all vt bound of
           None \<Rightarrow> Some (Thrown, m)
         | Some vs \<Rightarrow> map_option (Pair Done) (place storage \<lparr>ti_storage = vs, ti_sizeof = size_of\<rparr> m))
      else None)"

definition TaskStack_execute :: "('v, 'w) value_type \<Rightarrow> addr \<Rightarrow> ('v, 'w) task_mem \<Rightarrow> ('v, 'w) task_result" where
  "TaskStack_execute vt this m = do {
     t \<leftarrow> tm_obj m this;
     (t1, w1) \<leftarrow> impl_execute vt t (tm_world m);
     Some (Done, m\<lparr>tm_obj := (tm_obj m)(this \<mapsto> t1), tm_world := w1\<rparr>)
   }"

definition TaskStack_copy :: "('v, 'w) value_type \<Rightarrow> addr \<Rightarrow> addr \<Rightarrow> ('v, 'w) task_mem \<Rightarrow> ('v, 'w) task_result" where
  "TaskStack_copy vt this other m = cloneTo vt other this m"

definition TaskStack_move :: "('v, 'w) value_type \<Rightarrow> addr \<Rightarrow> addr \<Rightarrow> ('v, 'w) task_mem \<Rightarrow> ('v, 'w) task_result" where
  "TaskStack_move vt this other m = moveTo vt other this m"

definition TaskStack_copy_assign :: "('v, 'w) value_type \<Rightarrow> addr \<Rightarrow> addr \<Rightarrow> ('v, 'w) task_mem \<Rightarrow> ('v, 'w) task_result" where
  "TaskStack_copy_assign vt this other m =
     (if this \<noteq> other then do { m1 \<leftarrow> destroy_impl this m; cloneTo vt other this m1 } else Some (Done, m))"

definition TaskStack_move_assign :: "('v, 'w) value_type \<Rightarrow> addr \<Rightarrow> addr \<Rightarrow> ('v, 'w) task_mem \<Rightarrow> ('v, 'w) task_result" where
  "TaskStack_move_assign vt this other m =
     (if this \<noteq> other then do { m1 \<leftarrow> destroy_impl this m; moveTo vt other this m1 } else Some (Done, m))"

definition TaskStack_destroy :: "addr \<Rightarrow> ('v, 'w) task_mem \<Rightarrow> ('v, 'w) task_result" where
  "TaskStack_destroy this m = map_option (Pair Done) (destroy_impl this m)"


section \<open>Lifetimes\<close>

text \<open>
  A client sees a set of live tasks. An operation is legal when the storage it constructs in is
  free and the tasks it uses are alive; this is what C++ guarantees for objects with a scope.
\<close>

datatype 'v task_op = Op_new addr nat "'v forwarded list" | Op_copy addr addr | Op_move addr addr
  | Op_assign addr addr | Op_move_assign addr addr | Op_execute addr | Op_destroy addr

fun run_op :: "('v, 'w) value_type \<Rightarrow> nat \<Rightarrow> 'v task_op \<Rightarrow> ('v, 'w) task_mem \<Rightarrow> ('v, 'w) task_result" where
  "run_op vt TSIZE (Op_new a sz bound) m = TaskStack_new vt TSIZE a sz bound m"
| "run_op vt TSIZE (Op_copy a b) m = TaskStack_copy vt a b m"
| "run_op vt TSIZE (Op_move a b) m = TaskStack_move vt a b m"
| "run_op vt TSIZE (Op_assign a b) m = TaskStack_copy_assign vt a b m"
| "run_op vt TSIZE (Op_move_assign a b) m = TaskStack_move_assign vt a b m"
| "run_op vt TSIZE (Op_execute a) m = TaskStack_execute vt a m"
| "run_op vt TSIZE (Op_destroy a) m = TaskStack_destroy a m"

fun legal :: "nat \<Rightarrow> addr set \<Rightarrow> 'v task_op \<Rightarrow> bool" where
  "legal TSIZE L (Op_new a sz bound) = (a \<notin> L \<and> sz \<le> TSIZE \<and> bound \<noteq> [])"
| "legal TSIZE L (Op_copy a b) = (a \<notin> L \<and> b \<in> L)"
| "legal TSIZE L (Op_move a b) = (a \<notin> L \<and> b \<in> L)"
| "legal TSIZE L (Op_assign a b) = (a \<in> L \<and> b \<in> L)"
| "legal TSIZE L (Op_move_assign a b) = (a \<in> L \<and> b \<in> L)"
| "legal TSIZE L (Op_execute a) = (a \<in> L)"
| "legal TSIZE L (Op_destroy a) = (a \<in> L)"

fun live_after :: "'v task_op \<Rightarrow> addr set \<Rightarrow> addr set" where
  "live_after (Op_new a sz bound) L = insert a L"
| "live_after (Op_copy a b) L = insert a L"
| "live_after (Op_move a b) L = insert a L"
| "live_after (Op_destroy a) L = L - {a}"
| "live_after _ L = L"

fun is_assign :: "'v task_op \<Rightarrow> bool" where
  "is_assign (Op_assign a b) = True"
| "is_assign _ = False"

text \<open>
  The type of a memory: exactly the tasks of \<open>L\<close> are alive, each holds a callable and fits in
  the buffer, and every implementation object that was built is alive or was destroyed once.
\<close>

definition mem_typed :: "nat \<Rightarrow> addr set \<Rightarrow> ('v, 'w) task_mem \<Rightarrow> bool" where
  "mem_typed TSIZE L m \<longleftrightarrow> finite L \<and> dom (tm_obj m) = L \<and> (\<forall>t \<in> ran (tm_obj m). ti_storage t \<noteq> [] \<and> ti_sizeof t \<le> TSIZE) \<and>
     tm_built m = tm_destroyed m + card L"

lemma mem_typed_live:
  assumes "mem_typed TSIZE L m" "a \<in> L"
  obtains t where "tm_obj m a = Some t" "ti_storage t \<noteq> []" "ti_sizeof t \<le> TSIZE"
  using assms by (auto simp: mem_typed_def ran_def)

lemma mem_typed_dead: "mem_typed TSIZE L m \<Longrightarrow> a \<notin> L \<Longrightarrow> tm_obj m a = None"
  by (auto simp: mem_typed_def)

lemma ran_update: "x \<in> ran (f(a \<mapsto> t)) \<Longrightarrow> x = t \<or> x \<in> ran f"
  by (auto simp: ran_def split: if_splits)

lemma place_typed:
  assumes "mem_typed TSIZE L m" "a \<notin> L" "ti_storage t \<noteq> []" "ti_sizeof t \<le> TSIZE"
  shows "\<exists>m'. place a t m = Some m' \<and> mem_typed TSIZE (insert a L) m' \<and> tm_obj m' = (tm_obj m)(a \<mapsto> t) \<and> tm_world m' = tm_world m"
  using assms mem_typed_dead [OF assms(1,2)] by (auto simp: place_def mem_typed_def dest!: ran_update)

lemma update_typed:
  assumes "mem_typed TSIZE L m" "a \<in> L" "ti_storage t \<noteq> []" "ti_sizeof t \<le> TSIZE"
  shows "mem_typed TSIZE L (m\<lparr>tm_obj := (tm_obj m)(a \<mapsto> t)\<rparr>)" "mem_typed TSIZE L (m\<lparr>tm_obj := (tm_obj m)(a \<mapsto> t), tm_world := w\<rparr>)"
  using assms by (auto simp: mem_typed_def dest!: ran_update)

lemma destroy_typed:
  assumes "mem_typed TSIZE L m" "a \<in> L"
  shows "\<exists>m'. destroy_impl a m = Some m' \<and> mem_typed TSIZE (L - {a}) m' \<and> tm_obj m' = (tm_obj m)(a := None)"
proof -
  obtain t where t: "tm_obj m a = Some t" by (rule mem_typed_live [OF assms])
  have c: "card L = Suc (card (L - {a}))" using assms card.remove [of L a] by (simp add: mem_typed_def)
  have r: "ran ((tm_obj m)(a := None)) \<subseteq> ran (tm_obj m)" by (auto simp: ran_def)
  have "mem_typed TSIZE (L - {a}) (m\<lparr>tm_obj := (tm_obj m)(a := None), tm_destroyed := Suc (tm_destroyed m)\<rparr>)"
    using assms(1) c r unfolding mem_typed_def by (simp add: subset_eq)
  then show ?thesis using t by (simp add: destroy_impl_def)
qed

lemma forward_all_length: "forward_all vt xs = Some vs \<Longrightarrow> length vs = length xs"
  by (induction xs arbitrary: vs) (auto split: Option.bind_splits)

lemma copy_storage_nonempty: "copy_storage vt vs = Some us \<Longrightarrow> vs \<noteq> [] \<Longrightarrow> us \<noteq> []"
  using forward_all_length [of vt "map Lvalue vs" us] by (auto simp: copy_storage_def)

lemma cloneTo_typed:
  assumes m: "mem_typed TSIZE L m" and ab: "a \<notin> L" "b \<in> L"
  shows "(\<exists>m'. cloneTo vt b a m = Some (Done, m') \<and> mem_typed TSIZE (insert a L) m') \<or> cloneTo vt b a m = Some (Thrown, m)"
proof -
  obtain t where t: "tm_obj m b = Some t" "ti_storage t \<noteq> []" "ti_sizeof t \<le> TSIZE" by (rule mem_typed_live [OF m ab(2)])
  show ?thesis
  proof (cases "copy_storage vt (ti_storage t)")
    case (Some vs)
    have "vs \<noteq> []" by (rule copy_storage_nonempty [OF Some t(2)])
    with place_typed [OF m ab(1), of "t\<lparr>ti_storage := vs\<rparr>"] t Some show ?thesis by (auto simp: cloneTo_def)
  qed (simp add: cloneTo_def t)
qed

lemma moveTo_typed:
  assumes m: "mem_typed TSIZE L m" and ab: "a \<notin> L" "b \<in> L"
  shows "\<exists>m'. moveTo vt b a m = Some (Done, m') \<and> mem_typed TSIZE (insert a L) m'"
proof -
  obtain t where t: "tm_obj m b = Some t" "ti_storage t \<noteq> []" "ti_sizeof t \<le> TSIZE" by (rule mem_typed_live [OF m ab(2)])
  from place_typed [OF m ab(1) t(2,3)] obtain m1 where "place a t m = Some m1" "mem_typed TSIZE (insert a L) m1" by blast
  with update_typed(1) [of TSIZE "insert a L" m1 b "t\<lparr>ti_storage := map (vt_move vt) (ti_storage t)\<rparr>"] t ab show ?thesis
    by (auto simp: moveTo_def)
qed

text \<open>One operation: it is defined, and it completes with the expected tasks alive, or an exception leaves no trace.\<close>

lemma run_op_typed:
  assumes m: "mem_typed TSIZE L m" and l: "legal TSIZE L p"
  shows "\<exists>c m'. run_op vt TSIZE p m = Some (c, m') \<and> (c = Done \<longrightarrow> mem_typed TSIZE (live_after p L) m') \<and>
    (c = Thrown \<longrightarrow> \<not> is_assign p \<longrightarrow> m' = m)"
proof (cases p)
  case (Op_new a sz bound)
  then have l': "a \<notin> L" "sz \<le> TSIZE" "bound \<noteq> []" using l by simp_all
  show ?thesis
  proof (cases "forward_all vt bound")
    case (Some vs)
    then have "vs \<noteq> []" using forward_all_length l'(3) by fastforce
    with place_typed [OF m l'(1), of "\<lparr>ti_storage = vs, ti_sizeof = sz\<rparr>"] l' Op_new Some show ?thesis by (auto simp: TaskStack_new_def)
  qed (use Op_new l' in \<open>simp add: TaskStack_new_def\<close>)
next
  case (Op_copy a b)
  with cloneTo_typed [OF m, of a b vt] l show ?thesis by (auto simp: TaskStack_copy_def)
next
  case (Op_move a b)
  with moveTo_typed [OF m, of a b vt] l show ?thesis by (auto simp: TaskStack_move_def)
next
  case (Op_assign a b)
  show ?thesis
  proof (cases "a = b")
    case False
    from destroy_typed [OF m, of a] l Op_assign obtain m1 where m1: "destroy_impl a m = Some m1" "mem_typed TSIZE (L - {a}) m1" by auto
    have "insert a (L - {a}) = L" using l Op_assign by auto
    with cloneTo_typed [OF m1(2), of a b vt] m1(1) False l Op_assign show ?thesis by (auto simp: TaskStack_copy_assign_def)
  qed (use m Op_assign in \<open>simp add: TaskStack_copy_assign_def\<close>)
next
  case (Op_move_assign a b)
  show ?thesis
  proof (cases "a = b")
    case False
    from destroy_typed [OF m, of a] l Op_move_assign obtain m1 where m1: "destroy_impl a m = Some m1" "mem_typed TSIZE (L - {a}) m1" by auto
    have "insert a (L - {a}) = L" using l Op_move_assign by auto
    with moveTo_typed [OF m1(2), of a b vt] m1(1) False l Op_move_assign show ?thesis by (auto simp: TaskStack_move_assign_def)
  qed (use m Op_move_assign in \<open>simp add: TaskStack_move_assign_def\<close>)
next
  case (Op_execute a)
  then have a: "a \<in> L" using l by simp
  obtain t where t: "tm_obj m a = Some t" "ti_storage t \<noteq> []" "ti_sizeof t \<le> TSIZE" by (rule mem_typed_live [OF m a])
  then obtain f args where s: "ti_storage t = f # args" by (cases "ti_storage t") auto
  obtain f' args' w' where "vt_call vt f args (tm_world m) = (f', args', w')" by (metis prod.exhaust)
  with update_typed(2) [OF m a, of "t\<lparr>ti_storage := f' # args'\<rparr>" w'] t s Op_execute show ?thesis
    by (simp add: TaskStack_execute_def impl_execute_def)
next
  case (Op_destroy a)
  with destroy_typed [OF m, of a] l show ?thesis by (auto simp: TaskStack_destroy_def)
qed

section \<open>Type soundness\<close>

text \<open>
  The states that a client reaches from an empty memory by legal operations. It may catch an exception
  and go on, except after a failed copy assignment, whose target is gone.
\<close>

definition task_mem_new :: "'w \<Rightarrow> ('v, 'w) task_mem" where
  "task_mem_new w = \<lparr>tm_obj = Map.empty, tm_built = 0, tm_destroyed = 0, tm_world = w\<rparr>"

inductive task_reach :: "('v, 'w) value_type \<Rightarrow> nat \<Rightarrow> 'w \<Rightarrow> addr set \<Rightarrow> ('v, 'w) task_mem \<Rightarrow> bool"
  for vt TSIZE w where
  reach_new: "task_reach vt TSIZE w {} (task_mem_new w)"
| reach_done: "task_reach vt TSIZE w L m \<Longrightarrow> legal TSIZE L p \<Longrightarrow> run_op vt TSIZE p m = Some (Done, m') \<Longrightarrow>
    task_reach vt TSIZE w (live_after p L) m'"
| reach_caught: "task_reach vt TSIZE w L m \<Longrightarrow> legal TSIZE L p \<Longrightarrow> \<not> is_assign p \<Longrightarrow> run_op vt TSIZE p m = Some (Thrown, m') \<Longrightarrow>
    task_reach vt TSIZE w L m'"

lemma task_mem_new_typed: "mem_typed TSIZE {} (task_mem_new w)"
  by (simp add: mem_typed_def task_mem_new_def)

lemma task_reach_typed: "task_reach vt TSIZE w L m \<Longrightarrow> mem_typed TSIZE L m"
proof (induction rule: task_reach.induct)
  case reach_new
  show ?case by (rule task_mem_new_typed)
next
  case (reach_done L m p m')
  with run_op_typed [OF reach_done.IH reach_done.hyps(2), of vt] show ?case by auto
next
  case (reach_caught L m p m')
  with run_op_typed [OF reach_caught.IH reach_caught.hyps(2), of vt] show ?case by auto
qed

text \<open>
  C31. Type soundness of stack tasks. Whatever constructions, copies, moves, assignments, executions and
  destructions a client performed before, each of which used live tasks and free storage, the next such
  operation never touches storage that holds no task, every live task holds a callable and fits in
  its buffer, and the constructions are exactly the destructions and the live tasks.
\<close>

theorem task_soundness:
  assumes "task_reach vt TSIZE w L m" "legal TSIZE L p"
  shows "(\<exists>c m'. run_op vt TSIZE p m = Some (c, m')) \<and>
    (\<forall>a t. tm_obj m a = Some t \<longrightarrow> ti_storage t \<noteq> [] \<and> ti_sizeof t \<le> TSIZE) \<and> tm_built m = tm_destroyed m + card L \<and> dom (tm_obj m) = L"
proof -
  have m: "mem_typed TSIZE L m" by (rule task_reach_typed [OF assms(1)])
  have "\<exists>c m'. run_op vt TSIZE p m = Some (c, m')" using run_op_typed [OF m assms(2), of vt] by blast
  with m show ?thesis by (auto simp: mem_typed_def ran_def)
qed

text \<open>Plain values: copies are faithful, a move leaves the value, and a call adds its arguments to a log.\<close>

definition nat_values :: "(nat, nat list) value_type" where
  "nat_values = \<lparr>vt_copy = Some, vt_move = (\<lambda>_. 0), vt_call = (\<lambda>f args w. (f, args, w @ f # args))\<rparr>"

theorem task_soundness_witness:
  "\<exists>m. task_reach nat_values 64 [] {1} m \<and> legal 64 {1} (Op_copy 2 1) \<and> (\<exists>c m'. run_op nat_values 64 (Op_copy 2 1) m = Some (c, m'))"
proof -
  let ?m = "\<lparr>tm_obj = [1 \<mapsto> \<lparr>ti_storage = [7, 8], ti_sizeof = 16\<rparr>], tm_built = 1, tm_destroyed = 0, tm_world = []\<rparr>"
  have "run_op nat_values 64 (Op_new 1 16 [Lvalue 7, Rvalue 8]) (task_mem_new []) = Some (Done, ?m)"
    by (simp add: TaskStack_new_def place_def task_mem_new_def nat_values_def)
  from reach_done [OF reach_new _ this] have r: "task_reach nat_values 64 [] {1} ?m" by simp
  have l: "legal 64 {1} (Op_copy 2 1)" by simp
  from task_soundness [OF r l] r l show ?thesis by blast
qed

section \<open>Copies and moves\<close>

lemma forward_all_copy: "\<forall>v \<in> set vs. vt_copy vt v = Some v \<Longrightarrow> forward_all vt (map Lvalue vs) = Some vs"
  by (induction vs) auto

text \<open>
  A copied task is a deep copy: where the copy constructors are faithful, executing the copy has
  the effect that executing the original would have had, and leaves the original as it was.
\<close>

theorem copy_executes_like_original:
  assumes "tm_obj m b = Some t" "ti_storage t = f # args" "tm_obj m a = None" "\<forall>v \<in> set (f # args). vt_copy vt v = Some v"
  shows "\<exists>m1 m2 m3. TaskStack_copy vt a b m = Some (Done, m1) \<and> TaskStack_execute vt a m1 = Some (Done, m2) \<and>
    TaskStack_execute vt b m = Some (Done, m3) \<and> tm_world m2 = tm_world m3 \<and> tm_obj m2 a = tm_obj m3 b \<and> tm_obj m2 b = Some t"
proof -
  obtain f' args' w' where c: "vt_call vt f args (tm_world m) = (f', args', w')" by (metis prod.exhaust)
  have s: "copy_storage vt (f # args) = Some (f # args)"
    unfolding copy_storage_def by (rule forward_all_copy) (use assms(4) in simp)
  have "a \<noteq> b" using assms(1,3) by auto
  with assms(1-3) c s show ?thesis
    by (simp add: TaskStack_copy_def cloneTo_def place_def TaskStack_execute_def impl_execute_def)
qed

theorem copy_executes_like_original_witness:
  "\<exists>m1 m2. TaskStack_copy nat_values 2 1 \<lparr>tm_obj = [1 \<mapsto> \<lparr>ti_storage = [7, 8], ti_sizeof = 16\<rparr>], tm_built = 1, tm_destroyed = 0, tm_world = []\<rparr>
     = Some (Done, m1) \<and> TaskStack_execute nat_values 2 m1 = Some (Done, m2) \<and> tm_obj m2 1 = Some \<lparr>ti_storage = [7, 8], ti_sizeof = 16\<rparr>"
  using copy_executes_like_original [of "\<lparr>tm_obj = [1 \<mapsto> \<lparr>ti_storage = [7, 8], ti_sizeof = 16\<rparr>], tm_built = 1, tm_destroyed = 0, tm_world = []\<rparr>"
      1 "\<lparr>ti_storage = [7, 8], ti_sizeof = 16\<rparr>" 7 "[8]" 2 nat_values]
  by (simp add: nat_values_def) blast

text \<open>
  Copy assignment destroys the target before it copies the source. When the copy throws, the target
  holds no task any more, and its destructor, which runs at the end of its scope, is undefined.
\<close>

theorem copy_assign_not_exception_safe:
  assumes "tm_obj m a = Some s" "tm_obj m b = Some t" "a \<noteq> b" "copy_storage vt (ti_storage t) = None"
  shows "\<exists>m'. TaskStack_copy_assign vt a b m = Some (Thrown, m') \<and> tm_obj m' a = None \<and> TaskStack_destroy a m' = None \<and>
    TaskStack_execute vt a m' = None"
  using assms by (simp add: TaskStack_copy_assign_def destroy_impl_def cloneTo_def TaskStack_destroy_def TaskStack_execute_def)

theorem copy_assign_not_exception_safe_witness:
  "\<exists>m'. TaskStack_copy_assign (nat_values\<lparr>vt_copy := \<lambda>_. None\<rparr>) 1 2
     \<lparr>tm_obj = [1 \<mapsto> \<lparr>ti_storage = [7], ti_sizeof = 16\<rparr>, 2 \<mapsto> \<lparr>ti_storage = [9], ti_sizeof = 16\<rparr>], tm_built = 2, tm_destroyed = 0, tm_world = []\<rparr>
       = Some (Thrown, m') \<and> TaskStack_destroy 1 m' = None"
  using copy_assign_not_exception_safe [of
      "\<lparr>tm_obj = [1 \<mapsto> \<lparr>ti_storage = [7], ti_sizeof = 16\<rparr>, 2 \<mapsto> \<lparr>ti_storage = [9], ti_sizeof = 16\<rparr>], tm_built = 2, tm_destroyed = 0, tm_world = []\<rparr>"
      1 "\<lparr>ti_storage = [7], ti_sizeof = 16\<rparr>" 2 "\<lparr>ti_storage = [9], ti_sizeof = 16\<rparr>" "nat_values\<lparr>vt_copy := \<lambda>_. None\<rparr>"]
  by (simp add: copy_storage_def) blast

end
