(* ===== verification/TP_Element.thy ===== *)
theory TP_Element
  imports TP_Task
begin

text \<open>
  The element helpers at the head of \<open>base/TPBlockQueue.hpp\<close> and \<open>execute_tasks\<close> of \<open>base/ThreadPool.hpp\<close>:
  how an object gets into a slot of the queue, out of it into the storage of a worker, and how it ends.

  The queue is a template; the special members of the element type are a parameter. The laws
  that a queue relies on are the locale \<open>element\<close>; stack tasks and trivially destructible values, such as the
  tasks of the TCP server, satisfy them. They justify that the theory of the queue treats a slot as holding a value.
\<close>

section \<open>Element types\<close>

datatype BULK_CMETHOD = COPY | MOVE

datatype POP_METHOD = ASSIGN | PLACE

text \<open>The special members of an element type: the first address is the target, the second the source.\<close>

record 'm element_type =
  et_copy :: "addr \<Rightarrow> addr \<Rightarrow> 'm \<Rightarrow> (completion \<times> 'm) option"
  et_move :: "addr \<Rightarrow> addr \<Rightarrow> 'm \<Rightarrow> (completion \<times> 'm) option"
  et_move_assign :: "addr \<Rightarrow> addr \<Rightarrow> 'm \<Rightarrow> (completion \<times> 'm) option"
  et_destroy :: "addr \<Rightarrow> 'm \<Rightarrow> (completion \<times> 'm) option"
  et_trivial :: bool

definition conditional_destroy :: "'m element_type \<Rightarrow> addr \<Rightarrow> 'm \<Rightarrow> (completion \<times> 'm) option" where
  "conditional_destroy et obj m = (if et_trivial et then Some (Done, m) else et_destroy et obj m)"

fun bulk_construct :: "BULK_CMETHOD \<Rightarrow> 'm element_type \<Rightarrow> addr \<Rightarrow> addr \<Rightarrow> 'm \<Rightarrow> (completion \<times> 'm) option" where
  "bulk_construct COPY et ptr source m = et_copy et ptr source m"
| "bulk_construct MOVE et ptr source m = et_move et ptr source m"

fun pop_extract :: "POP_METHOD \<Rightarrow> 'm element_type \<Rightarrow> addr \<Rightarrow> addr \<Rightarrow> 'm \<Rightarrow> (completion \<times> 'm) option" where
  "pop_extract ASSIGN et dest src m = et_move_assign et dest src m"
| "pop_extract PLACE et dest src m = et_move et dest src m"

text \<open>An exception ends the operation.\<close>

definition chain :: "('m \<Rightarrow> (completion \<times> 'm) option) \<Rightarrow> (completion \<times> 'm) option \<Rightarrow> (completion \<times> 'm) option" where
  "chain g r = (case r of Some (Done, m) \<Rightarrow> g m | _ \<Rightarrow> r)"

lemma chain_simps [simp]:
  "chain g None = None" "chain g (Some (Done, m)) = g m" "chain g (Some (Thrown, m)) = Some (Thrown, m)"
  by (simp_all add: chain_def)

text \<open>An element leaves its slot: the two statements that every pop performs on the head.\<close>

definition take_slot :: "POP_METHOD \<Rightarrow> 'm element_type \<Rightarrow> addr \<Rightarrow> addr \<Rightarrow> 'm \<Rightarrow> (completion \<times> 'm) option" where
  "take_slot M et dest slot m = chain (conditional_destroy et slot) (pop_extract M et dest slot m)"

section \<open>What the queue relies on\<close>

text \<open>
  \<open>val\<close> reads the value of a live object, \<open>free\<close> says that storage may be constructed in. The laws of moves: the
  target gets the value, the source stays alive, nothing else changes.
\<close>

locale element =
  fixes et :: "'m element_type" and val :: "addr \<Rightarrow> 'm \<Rightarrow> 'a option" and free :: "addr \<Rightarrow> 'm \<Rightarrow> bool"
  assumes move_law: "val b m = Some v \<Longrightarrow> free a m \<Longrightarrow> a \<noteq> b \<Longrightarrow>
      \<exists>m'. et_move et a b m = Some (Done, m') \<and> val a m' = Some v \<and> val b m' \<noteq> None \<and> (\<forall>c. c \<noteq> a \<longrightarrow> c \<noteq> b \<longrightarrow> val c m' = val c m \<and> free c m' = free c m)"
    and assign_law: "val b m = Some v \<Longrightarrow> val a m \<noteq> None \<Longrightarrow> a \<noteq> b \<Longrightarrow>
      \<exists>m'. et_move_assign et a b m = Some (Done, m') \<and> val a m' = Some v \<and> val b m' \<noteq> None \<and> (\<forall>c. c \<noteq> a \<longrightarrow> c \<noteq> b \<longrightarrow> val c m' = val c m \<and> free c m' = free c m)"
    and destroy_law: "val a m \<noteq> None \<Longrightarrow>
      \<exists>m'. conditional_destroy et a m = Some (Done, m') \<and> free a m' \<and> (\<forall>c. c \<noteq> a \<longrightarrow> val c m' = val c m \<and> free c m' = free c m)"
begin

definition ready :: "POP_METHOD \<Rightarrow> addr \<Rightarrow> 'm \<Rightarrow> bool" where
  "ready M a m = (case M of ASSIGN \<Rightarrow> val a m \<noteq> None | PLACE \<Rightarrow> free a m)"

lemma extract_law:
  assumes "val b m = Some v" "ready M a m" "a \<noteq> b"
  shows "\<exists>m'. pop_extract M et a b m = Some (Done, m') \<and> val a m' = Some v \<and> val b m' \<noteq> None \<and> (\<forall>c. c \<noteq> a \<longrightarrow> c \<noteq> b \<longrightarrow> val c m' = val c m \<and> free c m' = free c m)"
  using assms move_law [of b m v a] assign_law [of b m v a] by (cases M) (simp_all add: ready_def)

lemma take_slot_law:
  assumes "val slot m = Some v" "ready M a m" "a \<noteq> slot"
  shows "\<exists>m'. take_slot M et a slot m = Some (Done, m') \<and> val a m' = Some v \<and> free slot m' \<and>
    (\<forall>c. c \<noteq> a \<longrightarrow> c \<noteq> slot \<longrightarrow> val c m' = val c m \<and> free c m' = free c m)"
proof -
  obtain m1 where m1: "pop_extract M et a slot m = Some (Done, m1)" "val a m1 = Some v" "val slot m1 \<noteq> None"
    "\<And>c. c \<noteq> a \<Longrightarrow> c \<noteq> slot \<Longrightarrow> val c m1 = val c m \<and> free c m1 = free c m"
    using extract_law [OF assms] by blast
  obtain m2 where m2: "conditional_destroy et slot m1 = Some (Done, m2)" "free slot m2"
    "\<And>c. c \<noteq> slot \<Longrightarrow> val c m2 = val c m1 \<and> free c m2 = free c m1"
    using destroy_law [OF m1(3)] by blast
  have "take_slot M et a slot m = Some (Done, m2)" by (simp add: take_slot_def m1(1) m2(1))
  moreover have "val a m2 = Some v" using m2(3) assms(3) m1(2) by metis
  moreover have "\<forall>c. c \<noteq> a \<longrightarrow> c \<noteq> slot \<longrightarrow> val c m2 = val c m \<and> free c m2 = free c m" using m1(4) m2(3) by metis
  ultimately show ?thesis using m2(2) by blast
qed

text \<open>Through a slot: moved in from \<open>src\<close>, moved out to \<open>dest\<close>.\<close>

lemma through_slot:
  assumes "val src m = Some v" "free slot m" "ready M dest m" "distinct [src, slot, dest]"
  shows "\<exists>m'. chain (take_slot M et dest slot) (bulk_construct MOVE et slot src m) = Some (Done, m') \<and>
    val dest m' = Some v \<and> free slot m' \<and> val src m' \<noteq> None \<and> (\<forall>c. c \<notin> {src, slot, dest} \<longrightarrow> val c m' = val c m \<and> free c m' = free c m)"
proof -
  from move_law [OF assms(1,2)] assms(4) obtain m1 where m1: "et_move et slot src m = Some (Done, m1)" "val slot m1 = Some v" "val src m1 \<noteq> None"
    "\<And>c. c \<noteq> slot \<Longrightarrow> c \<noteq> src \<Longrightarrow> val c m1 = val c m \<and> free c m1 = free c m" by auto
  have "ready M dest m1" using assms(3,4) m1(4) [of dest] by (cases M) (auto simp: ready_def)
  from take_slot_law [OF m1(2) this] assms(4) obtain m2 where m2: "take_slot M et dest slot m1 = Some (Done, m2)" "val dest m2 = Some v" "free slot m2"
    "\<And>c. c \<noteq> dest \<Longrightarrow> c \<noteq> slot \<Longrightarrow> val c m2 = val c m1 \<and> free c m2 = free c m1" by auto
  have "val src m2 \<noteq> None" using m2(4) [of src] m1(3) assms(4) by auto
  moreover have "\<forall>c. c \<notin> {src, slot, dest} \<longrightarrow> val c m2 = val c m \<and> free c m2 = free c m" using m1(4) m2(4) by auto
  ultimately show ?thesis using m1(1) m2(1-3) by auto
qed

end

section \<open>Element types of the pool\<close>

definition TaskStack_element :: "('v, 'w) value_type \<Rightarrow> ('v, 'w) task_mem element_type" where
  "TaskStack_element vt = \<lparr>et_copy = TaskStack_copy vt, et_move = TaskStack_move vt, et_move_assign = TaskStack_move_assign vt,
     et_destroy = TaskStack_destroy, et_trivial = False\<rparr>"

interpretation ts: element "TaskStack_element vt" "\<lambda>a m. tm_obj m a" "\<lambda>a m. tm_obj m a = None" for vt
proof unfold_locales
  fix b :: addr and m :: "('a, 'b) task_mem" and v a
  assume "tm_obj m b = Some v" "tm_obj m a = None" "a \<noteq> b"
  then show "\<exists>m'. et_move (TaskStack_element vt) a b m = Some (Done, m') \<and> tm_obj m' a = Some v \<and> tm_obj m' b \<noteq> None \<and>
      (\<forall>c. c \<noteq> a \<longrightarrow> c \<noteq> b \<longrightarrow> tm_obj m' c = tm_obj m c \<and> (tm_obj m' c = None) = (tm_obj m c = None))"
    by (simp add: TaskStack_element_def TaskStack_move_def moveTo_def place_def)
next
  fix b :: addr and m :: "('a, 'b) task_mem" and v a
  assume "tm_obj m b = Some v" "tm_obj m a \<noteq> None" "a \<noteq> b"
  then show "\<exists>m'. et_move_assign (TaskStack_element vt) a b m = Some (Done, m') \<and> tm_obj m' a = Some v \<and> tm_obj m' b \<noteq> None \<and>
      (\<forall>c. c \<noteq> a \<longrightarrow> c \<noteq> b \<longrightarrow> tm_obj m' c = tm_obj m c \<and> (tm_obj m' c = None) = (tm_obj m c = None))"
    by (clarsimp simp: TaskStack_element_def TaskStack_move_assign_def moveTo_def place_def destroy_impl_def)
next
  fix a :: addr and m :: "('a, 'b) task_mem"
  assume "tm_obj m a \<noteq> None"
  then show "\<exists>m'. conditional_destroy (TaskStack_element vt) a m = Some (Done, m') \<and> tm_obj m' a = None \<and>
      (\<forall>c. c \<noteq> a \<longrightarrow> tm_obj m' c = tm_obj m c \<and> (tm_obj m' c = None) = (tm_obj m c = None))"
    by (clarsimp simp: TaskStack_element_def conditional_destroy_def TaskStack_destroy_def destroy_impl_def)
qed

text \<open>
  A trivially destructible value, such as \<open>SockTaskTcp\<close> with its two pointers: copies and moves copy the
  bytes, destruction does nothing, and any storage may be constructed in again.
\<close>

definition plain_copy :: "addr \<Rightarrow> addr \<Rightarrow> (addr \<rightharpoonup> 'a) \<Rightarrow> (completion \<times> (addr \<rightharpoonup> 'a)) option" where
  "plain_copy a b m = map_option (\<lambda>v. (Done, m(a \<mapsto> v))) (m b)"

definition plain_element :: "(addr \<rightharpoonup> 'a) element_type" where
  "plain_element = \<lparr>et_copy = plain_copy, et_move = plain_copy, et_move_assign = plain_copy, et_destroy = (\<lambda>a m. Some (Done, m)), et_trivial = True\<rparr>"

interpretation pl: element plain_element "\<lambda>a m. m a" "\<lambda>a m. True"
  by unfold_locales (auto simp: plain_element_def plain_copy_def conditional_destroy_def)

section \<open>Execution by a worker\<close>

text \<open>
  The loop of \<open>execute_tasks\<close> over the tasks of an array with elements of \<open>esz\<close> bytes; \<open>process_single\<close> performs the same two
  statements on its one task.
\<close>

definition run_and_destroy :: "('v, 'w) value_type \<Rightarrow> addr \<Rightarrow> ('v, 'w) task_mem \<Rightarrow> ('v, 'w) task_result" where
  "run_and_destroy vt task m = chain (TaskStack_destroy task) (TaskStack_execute vt task m)"

fun execute_loop :: "('v, 'w) value_type \<Rightarrow> nat \<Rightarrow> addr \<Rightarrow> nat \<Rightarrow> ('v, 'w) task_mem \<Rightarrow> ('v, 'w) task_result" where
  "execute_loop vt esz tasks 0 m = Some (Done, m)"
| "execute_loop vt esz tasks (Suc n) m = chain (execute_loop vt esz (tasks + esz) n) (run_and_destroy vt tasks m)"

definition execute_tasks :: "('v, 'w) value_type \<Rightarrow> nat \<Rightarrow> addr \<Rightarrow> u32 \<Rightarrow> ('v, 'w) task_mem \<Rightarrow> ('v, 'w) task_result" where
  "execute_tasks vt esz tasks cnt m = execute_loop vt esz tasks (unat cnt) m"

text \<open>What a task means: the call of its callable with its arguments.\<close>

definition task_effect :: "('v, 'w) value_type \<Rightarrow> 'v TaskImpl \<Rightarrow> 'w \<Rightarrow> 'w" where
  "task_effect vt t w = snd (snd (vt_call vt (hd (ti_storage t)) (tl (ti_storage t)) w))"

lemma run_and_destroy_effect:
  assumes "tm_obj m a = Some t" "ti_storage t \<noteq> []"
  shows "\<exists>m'. run_and_destroy vt a m = Some (Done, m') \<and> tm_world m' = task_effect vt t (tm_world m) \<and> tm_obj m' = (tm_obj m)(a := None) \<and>
    tm_destroyed m' = Suc (tm_destroyed m)"
proof -
  obtain f args where s: "ti_storage t = f # args" using assms(2) by (cases "ti_storage t") auto
  obtain f' args' w' where "vt_call vt f args (tm_world m) = (f', args', w')" by (metis prod.exhaust)
  with assms s show ?thesis
    by (simp add: run_and_destroy_def TaskStack_execute_def impl_execute_def TaskStack_destroy_def destroy_impl_def task_effect_def)
qed

lemma execute_loop_effect:
  assumes "\<forall>i < length ts. tm_obj m (tasks + i * esz) = Some (ts ! i)" "\<forall>t \<in> set ts. ti_storage t \<noteq> []" "0 < esz"
  shows "\<exists>m'. execute_loop vt esz tasks (length ts) m = Some (Done, m') \<and> tm_world m' = fold (task_effect vt) ts (tm_world m) \<and>
    (\<forall>a. tm_obj m' a = (if \<exists>i < length ts. a = tasks + i * esz then None else tm_obj m a)) \<and> tm_destroyed m' = tm_destroyed m + length ts"
  using assms(1,2)
proof (induction ts arbitrary: tasks m)
  case (Cons t ts)
  have "tm_obj m tasks = Some t" using Cons.prems(1) by (auto dest: spec [of _ 0])
  from run_and_destroy_effect [OF this, of vt] Cons.prems(2) obtain m1 where
    m1: "run_and_destroy vt tasks m = Some (Done, m1)" "tm_world m1 = task_effect vt t (tm_world m)" "tm_obj m1 = (tm_obj m)(tasks := None)"
      "tm_destroyed m1 = Suc (tm_destroyed m)" by auto
  have "tm_obj m1 (tasks + esz + i * esz) = Some (ts ! i)" if "i < length ts" for i
    using Cons.prems(1) [rule_format, of "Suc i"] that assms(3) by (simp add: m1(3) algebra_simps)
  with Cons.IH [of m1 "tasks + esz"] Cons.prems(2) obtain m2 where
    m2: "execute_loop vt esz (tasks + esz) (length ts) m1 = Some (Done, m2)" "tm_world m2 = fold (task_effect vt) ts (tm_world m1)"
      "\<And>a. tm_obj m2 a = (if \<exists>i < length ts. a = tasks + esz + i * esz then None else tm_obj m1 a)" "tm_destroyed m2 = tm_destroyed m1 + length ts" by auto
  have ex: "(\<exists>i < length (t # ts). a = tasks + i * esz) \<longleftrightarrow> a = tasks \<or> (\<exists>i < length ts. a = tasks + esz + i * esz)" for a
  proof
    assume "\<exists>i < length (t # ts). a = tasks + i * esz"
    then obtain i where "i < Suc (length ts)" "a = tasks + i * esz" by auto
    then show "a = tasks \<or> (\<exists>i < length ts. a = tasks + esz + i * esz)" by (cases i) (auto simp: add.assoc)
  next
    assume "a = tasks \<or> (\<exists>i < length ts. a = tasks + esz + i * esz)"
    then show "\<exists>i < length (t # ts). a = tasks + i * esz" by (auto intro: exI [of _ 0] exI [of _ "Suc i" for i])
  qed
  have "tm_obj m2 a = (if \<exists>i < length (t # ts). a = tasks + i * esz then None else tm_obj m a)" for a
    unfolding ex m2(3) m1(3) by auto
  with m1 m2 show ?case by auto
qed simp

text \<open>
  A batch of tasks is executed in order, each exactly once: the effect of \<open>execute_tasks\<close> is that of the calls, one
  after the other, every task of the batch is destroyed, and no other object is touched.
\<close>

theorem execute_tasks_in_order:
  assumes "\<forall>i < length ts. tm_obj m (tasks + i * esz) = Some (ts ! i)" "\<forall>t \<in> set ts. ti_storage t \<noteq> []" "0 < esz" "length ts < 2 ^ 32"
  shows "\<exists>m'. execute_tasks vt esz tasks (of_nat (length ts)) m = Some (Done, m') \<and> tm_world m' = fold (task_effect vt) ts (tm_world m) \<and>
    (\<forall>a. tm_obj m' a = (if \<exists>i < length ts. a = tasks + i * esz then None else tm_obj m a)) \<and> tm_destroyed m' = tm_destroyed m + length ts"
proof -
  have "unat (of_nat (length ts) :: u32) = length ts" using assms(4) by (simp add: unat_of_nat take_bit_eq_mod)
  then show ?thesis unfolding execute_tasks_def using execute_loop_effect [OF assms(1-3), of vt] by simp
qed

theorem execute_tasks_in_order_witness:
  "\<exists>m'. execute_tasks nat_values 64 100 2
     \<lparr>tm_obj = [100 \<mapsto> \<lparr>ti_storage = [7, 8], ti_sizeof = 16\<rparr>, 164 \<mapsto> \<lparr>ti_storage = [9], ti_sizeof = 16\<rparr>], tm_built = 2, tm_destroyed = 0, tm_world = []\<rparr>
       = Some (Done, m') \<and> tm_world m' = [7, 8, 9] \<and> tm_destroyed m' = 2"
proof -
  let ?ts = "[\<lparr>ti_storage = [7, 8], ti_sizeof = 16\<rparr>, \<lparr>ti_storage = [9::nat], ti_sizeof = 16\<rparr>]"
  have "\<forall>i < length ?ts. [100 \<mapsto> ?ts ! 0, 164 \<mapsto> ?ts ! 1] (100 + i * 64 :: addr) = Some (?ts ! i)"
    by (simp add: less_Suc_eq)
  with execute_tasks_in_order [of ?ts "\<lparr>tm_obj = [100 \<mapsto> ?ts ! 0, 164 \<mapsto> ?ts ! 1], tm_built = 2, tm_destroyed = 0, tm_world = []\<rparr>" 100 64 nat_values]
  obtain m' where "execute_tasks nat_values 64 100 (of_nat (length ?ts)) \<lparr>tm_obj = [100 \<mapsto> ?ts ! 0, 164 \<mapsto> ?ts ! 1], tm_built = 2, tm_destroyed = 0, tm_world = []\<rparr>
      = Some (Done, m')" "tm_world m' = fold (task_effect nat_values) ?ts []" "tm_destroyed m' = length ?ts" by auto
  then show ?thesis by (intro exI [of _ m']) (simp add: task_effect_def nat_values_def)
qed

section \<open>Through the pool\<close>

text \<open>The transfers do not run user code.\<close>

lemma TaskStack_move_world: "TaskStack_move vt a b m = Some (c, m') \<Longrightarrow> tm_world m' = tm_world m"
  by (auto simp: TaskStack_move_def moveTo_def place_def split: Option.bind_splits if_splits)

lemma TaskStack_destroy_world: "TaskStack_destroy a m = Some (c, m') \<Longrightarrow> tm_world m' = tm_world m"
  by (auto simp: TaskStack_destroy_def destroy_impl_def)

lemma chain_Done: "chain g r = Some (Done, m') \<longleftrightarrow> (\<exists>m1. r = Some (Done, m1) \<and> g m1 = Some (Done, m'))"
  by (auto simp: chain_def split: option.splits prod.splits completion.splits)

lemma through_slot_world:
  assumes "chain (take_slot PLACE (TaskStack_element vt) dest slot) (bulk_construct MOVE (TaskStack_element vt) slot src m) = Some (Done, m')"
  shows "tm_world m' = tm_world m"
  using assms
  by (auto simp: chain_Done take_slot_def conditional_destroy_def TaskStack_element_def dest!: TaskStack_move_world TaskStack_destroy_world)

text \<open>
  C32. The life of one task in the pool. The client moves its task into a free slot of the queue, a worker moves it out
  into its own storage, executes and destroys it there, and the client destroys what it moved
  from: the callable is called with the bound arguments exactly once, and none of the three objects is left.
\<close>

theorem task_through_pool:
  assumes "tm_obj m src = Some t" "ti_storage t \<noteq> []" "tm_obj m slot = None" "tm_obj m dest = None" "distinct [src, slot, dest]"
  shows "\<exists>m'. chain (TaskStack_destroy src) (chain (run_and_destroy vt dest) (chain (take_slot PLACE (TaskStack_element vt) dest slot)
      (bulk_construct MOVE (TaskStack_element vt) slot src m))) = Some (Done, m') \<and>
    tm_world m' = task_effect vt t (tm_world m) \<and> tm_obj m' = (tm_obj m)(src := None)"
proof -
  let ?r = "chain (take_slot PLACE (TaskStack_element vt) dest slot) (bulk_construct MOVE (TaskStack_element vt) slot src m)"
  have "ts.ready PLACE dest m" using assms(4) by (simp add: ts.ready_def)
  from ts.through_slot [OF assms(1) assms(3) this assms(5), of vt] obtain m1 where
    m1: "?r = Some (Done, m1)" "tm_obj m1 dest = Some t" "tm_obj m1 slot = None" "tm_obj m1 src \<noteq> None"
      "\<And>c. c \<notin> {src, slot, dest} \<Longrightarrow> tm_obj m1 c = tm_obj m c" by blast
  have w: "tm_world m1 = tm_world m" by (rule through_slot_world [OF m1(1)])
  from run_and_destroy_effect [OF m1(2) assms(2), of vt] obtain m2 where
    m2: "run_and_destroy vt dest m1 = Some (Done, m2)" "tm_world m2 = task_effect vt t (tm_world m1)" "tm_obj m2 = (tm_obj m1)(dest := None)" by blast
  have o: "((tm_obj m1)(dest := None))(src := None) = (tm_obj m)(src := None)"
    using assms(3,4) m1(3,5) by (fastforce simp: fun_eq_iff)
  have "tm_obj m2 src \<noteq> None" using m1(4) assms(5) by (simp add: m2(3))
  with m1(1) m2 w o show ?thesis by (auto simp: TaskStack_destroy_def destroy_impl_def)
qed

theorem task_through_pool_witness:
  "\<exists>m'. chain (TaskStack_destroy 1) (chain (run_and_destroy nat_values 3) (chain (take_slot PLACE (TaskStack_element nat_values) 3 2)
      (bulk_construct MOVE (TaskStack_element nat_values) 2 1
        \<lparr>tm_obj = [1 \<mapsto> \<lparr>ti_storage = [7, 8], ti_sizeof = 16\<rparr>], tm_built = 1, tm_destroyed = 0, tm_world = []\<rparr>))) = Some (Done, m') \<and>
    tm_world m' = [7, 8] \<and> tm_obj m' = Map.empty"
  using task_through_pool [of "\<lparr>tm_obj = [1 \<mapsto> \<lparr>ti_storage = [7, 8], ti_sizeof = 16\<rparr>], tm_built = 1, tm_destroyed = 0, tm_world = []\<rparr>"
      1 "\<lparr>ti_storage = [7, 8], ti_sizeof = 16\<rparr>" 2 3 nat_values]
  by (simp add: task_effect_def nat_values_def)

end
