(* ===== verification/SP_Log.thy ===== *)
theory SP_Log
  imports SP_Types
begin

text \<open>
  \<open>SPLog.hpp\<close>: the text that a log call writes to the standard output. The arguments are given as the texts that the
  stream inserts for them. An index outside the array of level names is \<^term>\<open>None\<close>.
\<close>

definition esc :: "string \<Rightarrow> string \<Rightarrow> string" where
  "esc colour name = CHR 0x1B # ''['' @ colour @ ''m['' @ name @ '']'' @ [CHR 0x1B] @ ''[0m ''"

definition LevelStr :: "string list" where
  "LevelStr = [esc ''92'' ''INFO'', esc ''93'' ''WARNING'', esc ''95'' ''CRUCIAL'', esc ''91'' ''ERROR'']"

definition LogInfo :: "bool \<Rightarrow> LOG_LEVEL \<Rightarrow> string list \<Rightarrow> string option" where
  "LogInfo pre level ts =
     (if ts = [] then Some []
      else if pre then (if log_value level < length LevelStr then Some (LevelStr ! log_value level @ concat ts @ ''\<newline>'') else None)
      else Some (concat ts @ ''\<newline>''))"

definition HSLL_LOGINFO :: "LOG_LEVEL \<Rightarrow> LOG_LEVEL \<Rightarrow> string list \<Rightarrow> string option" where
  "HSLL_LOGINFO minLevel level ts = (if log_enabled minLevel level then LogInfo True level ts else Some [])"

definition HSLL_LOGINFO_NOPREFIX :: "LOG_LEVEL \<Rightarrow> LOG_LEVEL \<Rightarrow> string list \<Rightarrow> string option" where
  "HSLL_LOGINFO_NOPREFIX minLevel level ts = (if log_enabled minLevel level then LogInfo False level ts else Some [])"

text \<open>
  A message is printed exactly when it has arguments and its level is at least the configured one, and printing it stays inside
  the array of level names for every level but \<open>LOG_LEVEL_NONE\<close>. With this value as
  the configured level no message of another level is printed; a message of this level itself reads
  outside the array.
\<close>

theorem log_filter:
  "(level \<noteq> LOG_LEVEL_NONE \<longrightarrow> (\<exists>s. HSLL_LOGINFO minLevel level ts = Some s \<and> (s \<noteq> [] \<longleftrightarrow> ts \<noteq> [] \<and> minLevel \<le> level))) \<and>
   (ts \<noteq> [] \<longrightarrow> HSLL_LOGINFO minLevel LOG_LEVEL_NONE ts = None)"
  by (cases level; cases minLevel)
     (auto simp: HSLL_LOGINFO_def LogInfo_def log_enabled_def LevelStr_def less_eq_LOG_LEVEL_def)

theorem log_filter_witness:
  "(\<exists>s. HSLL_LOGINFO LOG_LEVEL_WARNING LOG_LEVEL_ERROR [''x''] = Some s \<and> s \<noteq> []) \<and> HSLL_LOGINFO LOG_LEVEL_WARNING LOG_LEVEL_NONE [''x''] = None"
  using log_filter [of LOG_LEVEL_ERROR LOG_LEVEL_WARNING "[''x'']"] by (simp add: less_eq_LOG_LEVEL_def)

end
