(* ===== verification/SP_Tracer.thy ===== *)
theory SP_Tracer
  imports SP_Prelude
begin

text \<open>
  \<open>test/MemoryTracer.h\<close>: the replaced \<open>operator new\<close> and \<open>operator delete\<close> of the tests, which count the bytes in use.

  The heap maps the address of a live block to what \<open>malloc_usable_size\<close> reports for it. What \<open>malloc\<close> answers is an
  argument: null, or an address that is not in use with its usable size. Freeing a block that is not live is \<^term>\<open>None\<close>.
\<close>

record tracer =
  tr_flag :: bool
  tr_size :: u64
  tr_heap :: "addr \<rightharpoonup> nat"

definition StopTracing :: "tracer \<Rightarrow> tracer" where
  "StopTracing t = t\<lparr>tr_flag := False, tr_size := 0\<rparr>"

definition StartTracing :: "tracer \<Rightarrow> tracer" where
  "StartTracing t = t\<lparr>tr_flag := True\<rparr>"

definition GetAllocSize :: "tracer \<Rightarrow> u64" where
  "GetAllocSize t = tr_size t"

text \<open>\<open>Inl\<close> is the exception \<open>std::bad_alloc\<close>.\<close>

definition op_new :: "addr \<times> nat \<Rightarrow> tracer \<Rightarrow> (unit + addr) \<times> tracer" where
  "op_new r t = (let (ptr, u) = r in
     if ptr = null then (Inl (), t)
     else let t1 = t\<lparr>tr_heap := (tr_heap t)(ptr \<mapsto> u)\<rparr>
       in (Inr ptr, if tr_flag t then t1\<lparr>tr_size := tr_size t + of_nat u\<rparr> else t1))"

definition op_delete :: "addr \<Rightarrow> tracer \<Rightarrow> tracer option" where
  "op_delete ptr t =
     (if ptr = null then Some t
      else do {
        u \<leftarrow> tr_heap t ptr;
        let t1 = (if tr_flag t then t\<lparr>tr_size := tr_size t - of_nat u\<rparr> else t);
        Some (t1\<lparr>tr_heap := (tr_heap t1)(ptr := None)\<rparr>)
      })"

text \<open>A program allocates, with a fresh address or null as the answer, and frees live blocks or null.\<close>

datatype heap_op = New addr nat | Delete addr

fun heap_run :: "heap_op list \<Rightarrow> tracer \<Rightarrow> tracer option" where
  "heap_run [] t = Some t"
| "heap_run (New p u # xs) t = (if p \<noteq> null \<and> tr_heap t p \<noteq> None then None else heap_run xs (snd (op_new (p, u) t)))"
| "heap_run (Delete p # xs) t = Option.bind (op_delete p t) (heap_run xs)"

definition in_use :: "tracer \<Rightarrow> nat" where
  "in_use t = (\<Sum>p \<in> dom (tr_heap t). the (tr_heap t p))"

lemma in_use_new:
  assumes "finite (dom (tr_heap t))" "tr_heap t p = None"
  shows "in_use (t\<lparr>tr_heap := (tr_heap t)(p \<mapsto> u)\<rparr>) = in_use t + u"
proof -
  have "p \<notin> dom (tr_heap t)" using assms(2) by auto
  moreover have "(\<Sum>q \<in> dom (tr_heap t). the (((tr_heap t)(p \<mapsto> u)) q)) = in_use t"
    unfolding in_use_def by (rule sum.cong) (use assms(2) in auto)
  ultimately show ?thesis using assms(1) by (simp add: in_use_def)
qed

lemma in_use_delete:
  assumes "finite (dom (tr_heap t))" "tr_heap t p = Some u"
  shows "in_use t = in_use (t\<lparr>tr_heap := (tr_heap t)(p := None)\<rparr>) + u"
proof -
  have "p \<in> dom (tr_heap t)" using assms(2) by auto
  moreover have "(\<Sum>q \<in> dom (tr_heap t) - {p}. the (((tr_heap t)(p := None)) q)) = (\<Sum>q \<in> dom (tr_heap t) - {p}. the (tr_heap t q))"
    by (rule sum.cong) auto
  ultimately show ?thesis using assms sum.remove [of "dom (tr_heap t)" p "\<lambda>q. the (tr_heap t q)"] by (simp add: in_use_def)
qed

lemma in_use_size [simp]: "in_use (t\<lparr>tr_size := s\<rparr>) = in_use t"
  by (simp add: in_use_def)

lemma heap_run_size:
  assumes "heap_run xs t = Some t'" "tr_flag t" "finite (dom (tr_heap t))"
  shows "tr_size t' + of_nat (in_use t) = tr_size t + of_nat (in_use t')"
  using assms
proof (induction xs t rule: heap_run.induct)
  case (2 p u xs t)
  show ?case
  proof (cases "p = null")
    case False
    let ?t = "snd (op_new (p, u) t)"
    have t: "?t = t\<lparr>tr_heap := (tr_heap t)(p \<mapsto> u), tr_size := tr_size t + of_nat u\<rparr>" using False "2.prems"(2) by (simp add: op_new_def)
    have n: "tr_heap t p = None" using "2.prems"(1) False by (simp split: if_splits)
    have "tr_size t' + of_nat (in_use ?t) = tr_size ?t + of_nat (in_use t')"
    proof (rule "2.IH")
      show "finite (dom (tr_heap ?t))" unfolding t by (rule finite_subset [of _ "insert p (dom (tr_heap t))"]) (use "2.prems"(3) in auto)
    qed (use "2.prems" t False n in simp_all)
    with in_use_new [OF "2.prems"(3) n, of u] show ?thesis by (simp add: t algebra_simps)
  qed (use 2 in \<open>simp add: op_new_def\<close>)
next
  case (3 p xs t)
  show ?case
  proof (cases "p = null")
    case False
    with "3.prems"(1) obtain u where u: "tr_heap t p = Some u" by (auto simp: op_delete_def split: Option.bind_splits)
    let ?t = "t\<lparr>tr_size := tr_size t - of_nat u, tr_heap := (tr_heap t)(p := None)\<rparr>"
    have d: "op_delete p t = Some ?t" using False u "3.prems"(2) by (simp add: op_delete_def)
    have "tr_size t' + of_nat (in_use ?t) = tr_size ?t + of_nat (in_use t')"
    proof (rule "3.IH" [OF d])
      show "finite (dom (tr_heap ?t))" by (rule finite_subset [of _ "dom (tr_heap t)"]) (use "3.prems"(3) in \<open>auto split: if_splits\<close>)
    qed (use "3.prems" d in simp_all)
    moreover have "in_use ?t = in_use (t\<lparr>tr_heap := (tr_heap t)(p := None)\<rparr>)" by (simp add: in_use_def)
    ultimately show ?thesis using in_use_delete [OF "3.prems"(3) u] by (simp add: algebra_simps)
  qed (use 3 in \<open>simp add: op_delete_def\<close>)
qed simp

text \<open>
  What the tests print as not yet released is the number of bytes in use, modulo \<open>2^64\<close>, less
  those that were in use when tracing started, after any sequence of allocations, failed ones included, and releases.
\<close>

theorem tracer_counts:
  assumes "heap_run xs (StartTracing t) = Some t'" "finite (dom (tr_heap t))" "tr_size t = 0"
  shows "GetAllocSize t' = of_nat (in_use t') - of_nat (in_use t)"
  using heap_run_size [OF assms(1)] assms(2,3) by (simp add: GetAllocSize_def StartTracing_def in_use_def algebra_simps)

theorem tracer_counts_witness:
  "\<exists>t'. heap_run [New 8 24, New 0 0, New 40 32, Delete 8] (StartTracing \<lparr>tr_flag = False, tr_size = 0, tr_heap = Map.empty\<rparr>) = Some t' \<and>
    GetAllocSize t' = of_nat (in_use t') - of_nat (in_use \<lparr>tr_flag = False, tr_size = 0, tr_heap = Map.empty\<rparr>)"
proof -
  let ?t = "\<lparr>tr_flag = False, tr_size = 0, tr_heap = Map.empty\<rparr>"
  obtain t' where "heap_run [New 8 24, New 0 0, New 40 32, Delete 8] (StartTracing ?t) = Some t'"
    by (simp add: StartTracing_def op_new_def op_delete_def)
  with tracer_counts [OF this] show ?thesis by simp
qed

end
