(* ===== verification/Spec2Isabelle.thy ===== *)
theory Spec2Isabelle
  imports SP_Stream TP_Steal TP_Element SP_Log SP_Tracer
begin

text \<open>
  A verification development of SPSock, a C++ library for TCP and UDP servers on Linux.

  \<^bold>\<open>The program.\<close> A TCP server (\<open>SPSockTcp\<close>) has an acceptor thread, several I/O threads and a pool of
  worker threads. The acceptor (\<open>MainEventLoop\<close>) accepts clients, gives each a controller
  (\<open>SOCKController\<close>) with a read and a write buffer (\<open>SPBuffer\<close>, on memory of \<open>SPTcpBufferPool\<close>), registers
  the descriptor with the least loaded I/O thread, and every 50 ms closes the connections on the close
  list. An I/O thread (\<open>IOEventLoop\<close>) waits for one-shot events, reads or writes the socket and hands
  the connection to the workers, singly or in batches (\<open>UtilTaskTcp\<close>); if the pool refuses it arms the
  connection again. A worker (\<open>ThreadPool\<close>, one \<open>TPBlockQueue\<close> each, with stealing) runs the callback, which
  works on the buffers and arms or closes the connection. A UDP server (\<open>SPSockUdp\<close>) has one socket per
  core and one receive loop for each.

  \<^bold>\<open>Theories and sources.\<close>
  \<^item> \<open>SP_Prelude\<close>: machine integers, the checked \<open>memcpy\<close>, cyclic slices of lists.
  \<^item> \<open>SP_Types\<close>: \<open>SPTypes.h\<close>, the validation of \<open>Config\<close> (\<open>SPSock.cpp\<close>), the filter of \<open>SPLog.hpp\<close>.
  \<^item> \<open>SP_Log\<close>: the text that the log of \<open>SPLog.hpp\<close> writes.
  \<^item> \<open>SP_Buffer_Pool\<close>: \<open>SPBufferPool.hpp\<close> over an explicit heap of blocks. Locale \<open>buffer_source\<close> states
    what a client may rely on; the pool is its interpretation.
  \<^item> \<open>SP_Fifo\<close>: the contracts \<open>bounded_fifo\<close> and \<open>linear_window\<close>, with their consequences.
  \<^item> \<open>SP_Buffer\<close>: \<open>SPBuffer.h\<close>, \<open>SPBuffer.cpp\<close>; both contracts are interpreted on it.
  \<^item> \<open>TP_Block_Queue\<close>: \<open>base/TPBlockQueue.hpp\<close> with its lock and condition variable; producers and
    consumers are interleaved by an inductive step relation. It interprets \<open>bounded_fifo\<close> too.
  \<^item> \<open>TP_Task\<close>: \<open>base/TPTask.h\<close>, callables with bound arguments in a fixed buffer, on a memory of objects with lifetimes.
  \<^item> \<open>TP_Element\<close>: the construction helpers of \<open>base/TPBlockQueue.hpp\<close> and \<open>execute_tasks\<close> of \<open>base/ThreadPool.hpp\<close>. Locale
    \<open>element\<close> states what the queue relies on; it is interpreted on stack tasks and on trivially destructible values.
  \<^item> \<open>Thread_Pool\<close>: \<open>base/ThreadPool.hpp\<close>: submission, the worker loops as program counters, exit.
  \<^item> \<open>TP_Steal\<close>: \<open>Stealer::steal\<close> as a sequential function, the binding of workers to cores, and \<open>emplaceBulk\<close>, also of
    \<open>base/ThreadPool.hpp\<close>.
  \<^item> \<open>SP_Controller\<close>: \<open>SPController.h\<close>, \<open>SPController.cpp\<close>, \<open>SPDeferred.cpp\<close>, over a scripted socket.
  \<^item> \<open>SP_Task\<close>: \<open>SPTask.hpp\<close>. Locale \<open>task_sink\<close> states what submission relies on; it is interpreted on
    the thread pool here and on the whole TCP server in \<open>SP_Events\<close> and \<open>SP_Batch\<close>.
  \<^item> \<open>SP_Kernel\<close>: the system calls: descriptors, socket options, epoll, addresses.
  \<^item> \<open>SP_Sock_Tcp\<close>: the TCP half of \<open>SPSock.h\<close> and \<open>SPSock.cpp\<close>, one definition per method.
  \<^item> \<open>SP_Server\<close>: the invariant of the server (table, counters, descriptors, buffers) and the acceptor.
  \<^item> \<open>SP_Events\<close>: the handlers of the I/O threads.
  \<^item> \<open>SP_Tcp_Props\<close>: properties of the TCP server, with a sample server for the witnesses.
  \<^item> \<open>SP_Protocol\<close>: the interleaving of acceptor, I/O threads and workers, and the ownership invariant.
  \<^item> \<open>SP_Batch\<close>: the same with batch submission, the default configuration, and a buffer for each I/O thread.
  \<^item> \<open>SP_Sock_Udp\<close>: the UDP half of \<open>SPSock.h\<close> and \<open>SPSock.cpp\<close>, and its properties.
  \<^item> \<open>SP_Examples\<close>: the applications under \<open>example\<close> and \<open>test\<close>, as clients of the library.
  \<^item> \<open>SP_Stream\<close>: the byte streams of the connections, end to end, over the steps of \<open>SP_Protocol\<close> and \<open>SP_Batch\<close>, the calls of the
    callbacks and the network. Locale \<open>transfer\<close> states what a method of the controller does to the stream; it is interpreted on
    \<open>read\<close>, \<open>peek\<close>, \<open>writeTemp\<close>, \<open>write\<close>, \<open>commitWrite\<close>, \<open>writeBack\<close> and \<open>moveToWriteBuffer\<close>. A channel for each connection is the abstract specification.
  \<^item> \<open>SP_Tracer\<close>: \<open>test/MemoryTracer.h\<close>.

  \<^bold>\<open>Correspondence.\<close> A class is a record, a method a function from the record (and the state it changes) to
  a result and the new state. \<^term>\<open>None\<close> is undefined behaviour, a failed \<open>assert\<close> or an uncaught exception;
  error returns are values. Sizes and indices are words of the width the code has; an \<open>int\<close> that
  cannot overflow by validation is an integer, and where it can the wrap is written out
  (\<open>totalSize\<close>). A pointer to a controller is the descriptor under which the table stores it. Callbacks of
  the application, \<open>malloc\<close>, \<open>new\<close>, \<open>inet_pton\<close>, the number of cores and the timing of the threads are
  parameters or scripts, over which every theorem quantifies.

  \<^bold>\<open>What is shown.\<close>
  \<^item> Buffers: the ring buffer refines a bounded queue of bytes under every sequence of operations; \<open>peek\<close>
    agrees with \<open>read\<close>; the pool hands out live, disjoint buffers and returns every block once.
  \<^item> Queue and pool: the block queue is linearizable to a first-in first-out queue and loses no wakeup;
    the pool neither loses nor duplicates a task; workers make progress; a graceful exit drains; the steps of a worker
    that steals come to what \<open>steal\<close> computes, the first queue in cyclic order that reaches the threshold. Stack tasks are type
    sound, and one that passes through a slot to a worker is called once, with nothing left alive.
  \<^item> Controller: the loops around \<open>recv\<close> and \<open>send\<close> terminate and conserve the byte stream under partial
    transfers, interruptions and errors; buffers are returned exactly once.
  \<^item> Submission: a task is submitted or its connection is armed again; \<open>commit\<close> terminates.
  \<^item> TCP server: accepting and closing keep the table, the counters, the descriptors and the buffers
    consistent; an event is settled in exactly one way; under every interleaving no connection is erased
    while a task owns it or it waits in a batch, and none has two tasks; \<open>Listen\<close> and \<open>CreateIOEventLoop\<close> are all or nothing;
    the thread counts are sound in single precision; \<open>EventLoop\<close> runs once.
  \<^item> Byte streams: under every interleaving of acceptor, I/O threads, workers, kernel and network, and whatever methods the callbacks
    call, each connection refines a pair of reliable byte streams; a relay returns to a client a prefix of what it sent.
  \<^item> UDP server: datagrams reach the callback in order of arrival; a signal ends all loops and closes exactly
    the sockets of the service; \<open>Bind\<close> and \<open>Release\<close> restore the descriptor table; \<open>SendTo\<close> is exact.
  \<^item> Applications: every callback returns, follows the protocol and gives its connection up; the UDP echo server returns what
    it received to its source; their start is all or nothing.
  \<^item> Defects, as theorems: the overflow of the block size, a task lost by single processing at exit, tasks
    forgotten by a wrapped \<open>commit\<close>, double submission after a refusal, the use of an erased controller in
    the close list, the inverted test after \<open>enableEvents\<close>, descriptors leaked by \<open>Release\<close>, the wrong
    descriptor closed when memory is exhausted, a UDP \<open>Bind\<close> that hides its failure, and the assignment of stack tasks, which is
    not exception safe.

  \<^bold>\<open>Loops.\<close> Loops over data are structural or have a measure. \<open>release_list\<close>, \<open>move_loop\<close> and \<open>multi_commit\<close>
  are \<open>partial_function (option)\<close>, and the theorems about them show that they return. The event loops consume a
  script of what the kernel answers, without a bound on its length; a used-up script leaves the loop
  waiting, as a value of its own. No fuel is used.

  \<^bold>\<open>Assumptions on atomicity.\<close> An operation under a lock is one step, and so is one handler of a thread in
  \<open>SP_Protocol\<close> and one turn of a receive loop in \<open>SP_Sock_Udp\<close>. The unsynchronised accesses of the I/O
  threads to the connection table are therefore not visible as races. \<open>SP_Protocol\<close> and \<open>SP_Batch\<close> cover the events of a
  round up to its first refusal, since after a refusal the code arms and submits a connection at once.

  \<^bold>\<open>Not modelled.\<close> The member \<open>emplaceBulk\<close> of the queue, which \<open>ThreadPool::emplaceBulk\<close> calls and the repository does not
  define: it is an argument of the model; the scheduling that follows from the binding of threads to cores; the calls of the log inside the library, which only write; the alignment of the storage of stack tasks; moves of bound values that
  throw; the public copies of the headers under \<open>include\<close>, which declare what the originals declare.
\<close>

end
